(* ===== verification/Prelude.thy ===== *)
theory Prelude
  imports Main "HOL-Library.Word"
begin

text \<open>
  Shared vocabulary of the development: the error codes of \<^verbatim>\<open>include/kos/errno.h\<close>, machine
  integer types, the outcome of running a kernel routine, and generic lemmas about lists and
  words that several components use.
\<close>

unbundle bit_operations_syntax

section \<open>Machine types\<close>

type_synonym u8 = "8 word"
type_synonym u16 = "16 word"
type_synonym u32 = "32 word"

text \<open>The kernel is built for i386: \<open>size_t\<close>, \<open>unsigned int\<close> and \<open>uintptr_t\<close> have 32 bits.\<close>

type_synonym size_t = "32 word"

text \<open>
  Kernel objects (tasks, files, processes) are identified by their address; \<open>0\<close> is \<open>NULL\<close>.
\<close>

type_synonym addr = nat

section \<open>Error codes\<close>

text \<open>
  As in the source, \<open>kerrno_t\<close> is an \<open>int\<close>: zero for success, negative for an error, positive
  for a signal (a success that carries information, or a small non-negative result).
\<close>

type_synonym kerrno = int

abbreviation KE_OK :: kerrno where "KE_OK \<equiv> 0"
abbreviation KE_NOMEM :: kerrno where "KE_NOMEM \<equiv> -1"
abbreviation KE_INVAL :: kerrno where "KE_INVAL \<equiv> -2"
abbreviation KE_DESTROYED :: kerrno where "KE_DESTROYED \<equiv> -3"
abbreviation KE_TIMEDOUT :: kerrno where "KE_TIMEDOUT \<equiv> -4"
abbreviation KE_RANGE :: kerrno where "KE_RANGE \<equiv> -5"
abbreviation KE_OVERFLOW :: kerrno where "KE_OVERFLOW \<equiv> -6"
abbreviation KE_ACCES :: kerrno where "KE_ACCES \<equiv> -7"
abbreviation KE_NOSYS :: kerrno where "KE_NOSYS \<equiv> -8"
abbreviation KE_LOOP :: kerrno where "KE_LOOP \<equiv> -9"
abbreviation KE_DEVICE :: kerrno where "KE_DEVICE \<equiv> -10"
abbreviation KE_NOENT :: kerrno where "KE_NOENT \<equiv> -11"
abbreviation KE_NODIR :: kerrno where "KE_NODIR \<equiv> -12"
abbreviation KE_NOSPC :: kerrno where "KE_NOSPC \<equiv> -13"
abbreviation KE_ISDIR :: kerrno where "KE_ISDIR \<equiv> -14"
abbreviation KE_EXISTS :: kerrno where "KE_EXISTS \<equiv> -15"
abbreviation KE_BUFSIZ :: kerrno where "KE_BUFSIZ \<equiv> -16"
abbreviation KE_BADF :: kerrno where "KE_BADF \<equiv> -17"
abbreviation KE_MFILE :: kerrno where "KE_MFILE \<equiv> -18"
abbreviation KE_FAULT :: kerrno where "KE_FAULT \<equiv> -19"
abbreviation KE_NOEXEC :: kerrno where "KE_NOEXEC \<equiv> -20"
abbreviation KE_NODEP :: kerrno where "KE_NODEP \<equiv> -21"
abbreviation KE_BUSY :: kerrno where "KE_BUSY \<equiv> -22"
abbreviation KE_DOM :: kerrno where "KE_DOM \<equiv> -23"
abbreviation KE_DEADLK :: kerrno where "KE_DEADLK \<equiv> -24"
abbreviation KE_PERM :: kerrno where "KE_PERM \<equiv> -25"
abbreviation KE_INTR :: kerrno where "KE_INTR \<equiv> -26"
abbreviation KE_WOULDBLOCK :: kerrno where "KE_WOULDBLOCK \<equiv> -27"
abbreviation KE_NOTEMPTY :: kerrno where "KE_NOTEMPTY \<equiv> -28"
abbreviation KE_NOROOT :: kerrno where "KE_NOROOT \<equiv> -29"
abbreviation KE_NOCWD :: kerrno where "KE_NOCWD \<equiv> -30"
abbreviation KE_NOFILE :: kerrno where "KE_NOFILE \<equiv> -31"
abbreviation KE_NOLNK :: kerrno where "KE_NOLNK \<equiv> -32"
abbreviation KE_NAMETOOLONG :: kerrno where "KE_NAMETOOLONG \<equiv> -33"
abbreviation KE_WRITABLE :: kerrno where "KE_WRITABLE \<equiv> -34"
abbreviation KE_CHANGED :: kerrno where "KE_CHANGED \<equiv> -35"
abbreviation KE_SYNTAX :: kerrno where "KE_SYNTAX \<equiv> -36"
abbreviation KE_NOBIN :: kerrno where "KE_NOBIN \<equiv> -37"
abbreviation KE_AGAIN :: kerrno where "KE_AGAIN \<equiv> -38"
abbreviation KS_UNCHANGED :: kerrno where "KS_UNCHANGED \<equiv> 1"
abbreviation KS_EMPTY :: kerrno where "KS_EMPTY \<equiv> 2"
abbreviation KS_BLOCKING :: kerrno where "KS_BLOCKING \<equiv> 3"
abbreviation KS_FOUND :: kerrno where "KS_FOUND \<equiv> 4"
abbreviation KS_NODATA :: kerrno where "KS_NODATA \<equiv> 5"
abbreviation KS_FULL :: kerrno where "KS_FULL \<equiv> 6"
abbreviation KS_UNLOCKED :: kerrno where "KS_UNLOCKED \<equiv> 7"

definition KE_ISOK :: "kerrno \<Rightarrow> bool" where
  "KE_ISOK e \<longleftrightarrow> 0 \<le> e"

definition KE_ISERR :: "kerrno \<Rightarrow> bool" where
  "KE_ISERR e \<longleftrightarrow> e < 0"

definition KE_ISSIG :: "kerrno \<Rightarrow> bool" where
  "KE_ISSIG e \<longleftrightarrow> 0 < e"

lemma KE_ISERR_iff_not_ISOK: "KE_ISERR e \<longleftrightarrow> \<not> KE_ISOK e"
  by (auto simp: KE_ISERR_def KE_ISOK_def)

lemma KE_IS_numerals [simp]:
  "KE_ISOK 0" "KE_ISOK 1" "KE_ISOK (numeral n)" "\<not> KE_ISOK (- 1)" "\<not> KE_ISOK (- numeral n)"
  "\<not> KE_ISERR 0" "\<not> KE_ISERR 1" "\<not> KE_ISERR (numeral n)" "KE_ISERR (- 1)"
  "KE_ISERR (- numeral n)"
  by (simp_all add: KE_ISERR_def KE_ISOK_def)

section \<open>Outcomes of a routine\<close>

text \<open>
  A routine that is run by one task either returns, or does not return on its own (it sleeps on a
  signal, spins on a lock that is held, or runs in a loop that never ends), or touches memory that
  does not belong to the object it works on.
\<close>

datatype 'a outcome = Done 'a | Blocked | Fault

definition andthen :: "'a outcome \<Rightarrow> ('a \<Rightarrow> 'b outcome) \<Rightarrow> 'b outcome" where
  "andthen m k = (case m of Done x \<Rightarrow> k x | Blocked \<Rightarrow> Blocked | Fault \<Rightarrow> Fault)"

lemma andthen_simps [simp]:
  "andthen (Done x) k = k x" "andthen Blocked k = Blocked" "andthen Fault k = Fault"
  by (simp_all add: andthen_def)

lemma andthen_Done_iff:
  "andthen m k = Done y \<longleftrightarrow> (\<exists>x. m = Done x \<and> k x = Done y)"
  by (cases m) auto

lemma andthen_DoneE:
  assumes "andthen m k = Done y"
  obtains x where "m = Done x" and "k x = Done y"
  using assms by (auto simp: andthen_Done_iff)

lemma andthen_assoc: "andthen (andthen m f) g = andthen m (\<lambda>x. andthen (f x) g)"
  by (cases m) auto

section \<open>Lists and arrays\<close>

text \<open>An indexed read of a C vector: outside the vector it is a fault.\<close>

definition vec_read :: "'a list \<Rightarrow> nat \<Rightarrow> 'a outcome" where
  "vec_read xs i = (if i < length xs then Done (xs ! i) else Fault)"

lemma vec_read_Done [simp]: "i < length xs \<Longrightarrow> vec_read xs i = Done (xs ! i)"
  by (simp add: vec_read_def)

lemma vec_read_Fault [simp]: "length xs \<le> i \<Longrightarrow> vec_read xs i = Fault"
  by (simp add: vec_read_def)

text \<open>Number of entries of a vector that satisfy a test.\<close>

definition count_if :: "('a \<Rightarrow> bool) \<Rightarrow> 'a list \<Rightarrow> nat" where
  "count_if P xs = length (filter P xs)"

lemma count_if_simps [simp]:
  "count_if P [] = 0"
  "count_if P (x # xs) = (if P x then Suc (count_if P xs) else count_if P xs)"
  "count_if P (xs @ ys) = count_if P xs + count_if P ys"
  by (simp_all add: count_if_def)

lemma count_if_le_length: "count_if P xs \<le> length xs"
  by (simp add: count_if_def)

lemma count_if_replicate [simp]: "count_if P (replicate n x) = (if P x then n else 0)"
  by (induction n) simp_all

lemma count_if_0_iff: "count_if P xs = 0 \<longleftrightarrow> (\<forall>x \<in> set xs. \<not> P x)"
  by (induction xs) auto

lemma count_if_full_iff: "count_if P xs = length xs \<longleftrightarrow> (\<forall>x \<in> set xs. P x)"
proof (induction xs)
  case Nil
  then show ?case by simp
next
  case (Cons x xs)
  then show ?case using count_if_le_length [of P xs] by auto
qed

lemma count_if_list_update:
  assumes "i < length xs"
  shows "count_if P (xs[i := y]) + (if P (xs ! i) then 1 else 0)
    = count_if P xs + (if P y then 1 else 0)"
  using assms
proof (induction xs arbitrary: i)
  case Nil
  then show ?case by simp
next
  case (Cons x xs)
  then show ?case by (cases i) auto
qed

lemma count_if_pos: "i < length xs \<Longrightarrow> P (xs ! i) \<Longrightarrow> 0 < count_if P xs"
  using count_if_0_iff [of P xs] nth_mem [of i xs] by auto

lemma count_if_take_drop: "count_if P (take n xs) + count_if P (drop n xs) = count_if P xs"
  by (metis append_take_drop_id count_if_simps(3))

text \<open>The total of a measure over a list, and how it changes when one entry does.\<close>

definition weight :: "('p \<Rightarrow> nat) \<Rightarrow> 'p list \<Rightarrow> nat" where
  "weight w ps = sum_list (map w ps)"

lemma weight_list_update:
  assumes "i < length ps"
  shows "weight w (ps[i := p]) + w (ps ! i) = weight w ps + w p"
  using assms
proof (induction ps arbitrary: i)
  case Nil
  then show ?case by simp
next
  case (Cons q ps)
  then show ?case by (cases i) (auto simp: weight_def)
qed

lemma weight_ge:
  assumes "i < length ps"
  shows "w (ps ! i) \<le> weight w ps"
  using assms by (auto simp: weight_def intro: member_le_sum_list)

lemma weight_0: "(\<forall>p \<in> set ps. w p = 0) \<Longrightarrow> weight w ps = 0"
  by (simp add: weight_def)

lemma weight_replicate: "weight w (replicate n p) = n * w p"
  by (simp add: weight_def sum_list_replicate)

section \<open>Words\<close>

lemma unat_word_Suc:
  assumes "w \<noteq> (- 1 :: 'a :: len word)"
  shows "unat (w + 1) = Suc (unat w)"
proof -
  have "1 + w \<noteq> 0" using assms by (metis add.commute eq_neg_iff_add_eq_0)
  then show ?thesis using unatSuc [of w] by (simp add: add.commute)
qed

lemma word_gt_0_unat: "(w :: 'a :: len word) \<noteq> 0 \<longleftrightarrow> 0 < unat w"
  using unat_eq_0 [of w] by auto

text \<open>The wrap-around test \<open>x + y < x\<close> of the source detects exactly the overflow of a sum.\<close>

lemma word_add_overflow:
  "(x :: 'a :: len word) + y < x \<longleftrightarrow> \<not> unat x + unat y < 2 ^ LENGTH('a)"
proof -
  have "unat x < 2 ^ LENGTH('a)" and "unat y < 2 ^ LENGTH('a)" by (rule unsigned_less)+
  then show ?thesis
    unfolding word_less_nat_alt unat_plus_if' by (auto simp del: unsigned_less split: if_splits)
qed

text \<open>Setting and clearing a mask of lock or flag bits.\<close>

lemma mask_set_clear:
  assumes "(x :: 'a :: len word) AND m = 0"
  shows "(x OR m) AND NOT m = x"
proof (rule bit_eqI)
  fix n
  have "\<not> (bit x n \<and> bit m n)" using assms by (metis bit_0_eq bit_and_iff bot_apply bot_bool_def)
  then show "bit ((x OR m) AND NOT m) n = bit x n"
    by (auto simp: bit_simps dest: bit_imp_le_length)
qed

lemma mask_clear_disjoint [simp]: "(x AND NOT m) AND m = (0 :: 'a :: len word)"
  by (simp add: and.assoc)

lemma mask_bit0_set_clear: "(x :: 'a :: len word) AND 1 = 0 \<Longrightarrow> (x OR 1) AND - 2 = x"
  using mask_set_clear [of x 1] by simp

lemma mask_bit0_clear [simp]: "(x AND - 2) AND 1 = (0 :: 'a :: len word)"
  using mask_clear_disjoint [of x 1] by simp

end
