(* ===== verification/Refcount.thy ===== *)
theory Refcount
  imports Prelude
begin

text \<open>
  Reference counting of kernel objects (\<^verbatim>\<open>include/kos/kernel/object.h\<close>). The counters of all
  objects form one store from addresses to 32-bit counts; the compare-and-exchange loops of the
  source are run without interference, so their first attempt succeeds.
\<close>

type_synonym refstore = "addr \<Rightarrow> u32"

definition kobject_incref :: "refstore \<Rightarrow> addr \<Rightarrow> kerrno \<times> refstore" where
  "kobject_incref rs a =
     (if rs a = - 1 then (KE_OVERFLOW, rs) else (KE_OK, rs(a := rs a + 1)))"

definition kobject_tryincref :: "refstore \<Rightarrow> addr \<Rightarrow> kerrno \<times> refstore" where
  "kobject_tryincref rs a =
     (if rs a = 0 then (KE_DESTROYED, rs)
      else if rs a = - 1 then (KE_OVERFLOW, rs)
      else (KE_OK, rs(a := rs a + 1)))"

text \<open>\<open>kobject_decref\<close> also says whether the object's destructor runs.\<close>

definition kobject_decref :: "refstore \<Rightarrow> addr \<Rightarrow> bool \<times> refstore" where
  "kobject_decref rs a = (rs a - 1 = 0, rs(a := rs a - 1))"

lemma incref_decref_id:
  assumes "kobject_incref rs a = (KE_OK, rs')"
  shows "snd (kobject_decref rs' a) = rs"
  using assms by (auto simp: kobject_incref_def kobject_decref_def split: if_splits)

lemma incref_unat:
  assumes "kobject_incref rs a = (e, rs')"
  shows "(e = KE_OK \<and> unat (rs' a) = Suc (unat (rs a))) \<or> (e = KE_OVERFLOW \<and> rs' = rs)"
  using assms by (auto simp: kobject_incref_def unat_word_Suc split: if_splits)

end
