(* ===== verification/Signal.thy ===== *)
theory Signal
  imports Prelude
begin

text \<open>
  The signal, the lowest-level synchronization primitive of the kernel
  (\<^verbatim>\<open>include/kos/kernel/signal.h\<close>, \<^verbatim>\<open>src/kernel/sched/sync/signal.c.inl\<close> and the slot chain of
  \<^verbatim>\<open>src/kernel/sched/task-sigchain.c.inl\<close>).

  The doubly linked chain \<open>s_wakefirst\<close> .. \<open>s_wakelast\<close> of waiting tasks is the list \<open>s_wake\<close>,
  first to be woken first. Waking a task is \<open>ktask_reschedule_ex\<close> of the scheduler; its result
  for each task is the parameter \<open>resched\<close>.
\<close>

section \<open>State\<close>

type_synonym task = addr

record ksignal =
  s_locks :: u8
  s_flags :: u8
  s_useru :: u16
  s_wake :: "task list"

abbreviation KSIGNAL_LOCK_WAIT :: u8 where "KSIGNAL_LOCK_WAIT \<equiv> 1"
abbreviation KSIGNAL_FLAG_NONE :: u8 where "KSIGNAL_FLAG_NONE \<equiv> 0"
abbreviation KSIGNAL_FLAG_DEAD :: u8 where "KSIGNAL_FLAG_DEAD \<equiv> 1"

definition KSIGNAL_FLAG_USER :: "nat \<Rightarrow> u8" where
  "KSIGNAL_FLAG_USER i = push_bit i 2"

definition KSIGNAL_INIT_EXU :: "u8 \<Rightarrow> u16 \<Rightarrow> ksignal" where
  "KSIGNAL_INIT_EXU flags user = \<lparr>s_locks = 0, s_flags = flags, s_useru = user, s_wake = []\<rparr>"

definition ksignal_init :: ksignal where
  "ksignal_init = KSIGNAL_INIT_EXU KSIGNAL_FLAG_NONE 0"

definition ksignal_init_u :: "u16 \<Rightarrow> ksignal" where
  "ksignal_init_u user = KSIGNAL_INIT_EXU KSIGNAL_FLAG_NONE user"

definition ksignal_init_ex :: "u8 \<Rightarrow> ksignal" where
  "ksignal_init_ex flags = KSIGNAL_INIT_EXU flags 0"

section \<open>Spin locks and getters\<close>

definition ksignal_islocked :: "ksignal \<Rightarrow> u8 \<Rightarrow> bool" where
  "ksignal_islocked s l \<longleftrightarrow> s_locks s AND l \<noteq> 0"

definition ksignal_trylock_c :: "ksignal \<Rightarrow> u8 \<Rightarrow> bool \<times> ksignal" where
  "ksignal_trylock_c s l = (s_locks s AND l = 0, s\<lparr>s_locks := s_locks s OR l\<rparr>)"

definition ksignal_lock_c :: "ksignal \<Rightarrow> u8 \<Rightarrow> ksignal outcome" where
  "ksignal_lock_c s l =
     (let (ok, s') = ksignal_trylock_c s l in if ok then Done s' else Blocked)"

definition ksignal_unlock_c :: "ksignal \<Rightarrow> u8 \<Rightarrow> ksignal" where
  "ksignal_unlock_c s l = s\<lparr>s_locks := s_locks s AND NOT l\<rparr>"

definition ksignal_isdead_unlocked :: "ksignal \<Rightarrow> bool" where
  "ksignal_isdead_unlocked s \<longleftrightarrow> s_flags s AND KSIGNAL_FLAG_DEAD \<noteq> 0"

definition ksignal_hasrecv_unlocked :: "ksignal \<Rightarrow> bool" where
  "ksignal_hasrecv_unlocked s \<longleftrightarrow> s_wake s \<noteq> []"

definition ksignal_cntrecv_unlocked :: "ksignal \<Rightarrow> nat" where
  "ksignal_cntrecv_unlocked s = length (s_wake s)"

section \<open>Sending\<close>

text \<open>\<open>_ksignal_popone_andunlock_c\<close>: unlink the first waiting task. (When another CPU holds the
  task's own chain lock the source drops the signal lock and starts over.)\<close>

definition ksignal_popone_andunlock_c :: "ksignal \<Rightarrow> task option \<times> ksignal" where
  "ksignal_popone_andunlock_c s =
     (case s_wake s of
        [] \<Rightarrow> (None, ksignal_unlock_c s KSIGNAL_LOCK_WAIT)
      | t # ts \<Rightarrow> (Some t, ksignal_unlock_c (s\<lparr>s_wake := ts\<rparr>) KSIGNAL_LOCK_WAIT))"

definition ksignal_sendone_andunlock_c :: "(task \<Rightarrow> kerrno) \<Rightarrow> ksignal \<Rightarrow> kerrno \<times> ksignal" where
  "ksignal_sendone_andunlock_c resched s =
     (case ksignal_popone_andunlock_c s of
        (None, s') \<Rightarrow> (KS_EMPTY, s')
      | (Some t, s') \<Rightarrow> (resched t, s'))"

definition ksignal_sendone :: "(task \<Rightarrow> kerrno) \<Rightarrow> ksignal \<Rightarrow> (kerrno \<times> ksignal) outcome" where
  "ksignal_sendone resched s =
     andthen (ksignal_lock_c s KSIGNAL_LOCK_WAIT)
       (\<lambda>s. Done (ksignal_sendone_andunlock_c resched s))"

text \<open>The loop of \<open>ksignal_sendn\<close>: \<open>k\<close> iterations are left after \<open>i\<close> have been done.\<close>

fun ksignal_sendn_loop ::
  "(task \<Rightarrow> kerrno) \<Rightarrow> nat \<Rightarrow> nat \<Rightarrow> ksignal \<Rightarrow> (kerrno \<times> nat \<times> ksignal) outcome" where
  "ksignal_sendn_loop resched i 0 s = Done (KE_OK, i, s)"
| "ksignal_sendn_loop resched i (Suc k) s =
     andthen (ksignal_sendone resched s)
       (\<lambda>(error, s). if KE_ISERR error then Done (error, i, s)
          else ksignal_sendn_loop resched (Suc i) k s)"

definition ksignal_sendn ::
  "(task \<Rightarrow> kerrno) \<Rightarrow> ksignal \<Rightarrow> nat \<Rightarrow> (kerrno \<times> nat \<times> ksignal) outcome" where
  "ksignal_sendn resched s n_tasks = ksignal_sendn_loop resched 0 n_tasks s"

lemma ksignal_sendone_shrinks:
  assumes "ksignal_sendone resched s = Done (e, s')"
  shows "s_wake s' = tl (s_wake s)" and "s_flags s' = s_flags s" and "s_useru s' = s_useru s"
    and "s_wake s = [] \<longrightarrow> e = KS_EMPTY" and "s_wake s \<noteq> [] \<longrightarrow> e = resched (hd (s_wake s))"
  using assms
  by (auto simp: ksignal_sendone_def ksignal_sendone_andunlock_c_def ksignal_lock_c_def
      ksignal_trylock_c_def ksignal_popone_andunlock_c_def ksignal_unlock_c_def
      split: list.splits if_splits)

text \<open>\<open>while (ksignal_sendone(self) != KS_EMPTY) ++count;\<close>\<close>

function ksignal_sendall_loop ::
  "(task \<Rightarrow> kerrno) \<Rightarrow> nat \<Rightarrow> ksignal \<Rightarrow> (nat \<times> ksignal) outcome" where
  "ksignal_sendall_loop resched count s =
     (case ksignal_sendone resched s of
        Done (e, s') \<Rightarrow>
          if e = KS_EMPTY then Done (count, s') else ksignal_sendall_loop resched (Suc count) s'
      | Blocked \<Rightarrow> Blocked
      | Fault \<Rightarrow> Fault)"
  by pat_completeness auto
termination
proof (relation "measure (\<lambda>(r, c, s). length (s_wake s))")
  fix resched :: "task \<Rightarrow> kerrno" and count s x e s'
  assume "ksignal_sendone resched s = Done x" and "(e, s') = x" and ne: "e \<noteq> KS_EMPTY"
  then have sent: "ksignal_sendone resched s = Done (e, s')" by simp
  have "s_wake s \<noteq> []" using ksignal_sendone_shrinks(4) [OF sent] ne by blast
  then show "((resched, Suc count, s'), resched, count, s)
      \<in> measure (\<lambda>(r, c, s). length (s_wake s))"
    using ksignal_sendone_shrinks(1) [OF sent] by simp
qed simp

declare ksignal_sendall_loop.simps [simp del]

definition ksignal_sendall_andunlock_c ::
  "(task \<Rightarrow> kerrno) \<Rightarrow> ksignal \<Rightarrow> (nat \<times> ksignal) outcome" where
  "ksignal_sendall_andunlock_c resched s =
     ksignal_sendall_loop resched 0 (ksignal_unlock_c s KSIGNAL_LOCK_WAIT)"

definition ksignal_sendall :: "(task \<Rightarrow> kerrno) \<Rightarrow> ksignal \<Rightarrow> (nat \<times> ksignal) outcome" where
  "ksignal_sendall resched s =
     andthen (ksignal_lock_c s KSIGNAL_LOCK_WAIT) (ksignal_sendall_andunlock_c resched)"

section \<open>Closing, resetting, receiving\<close>

text \<open>\<open>ksignal_close(self, ...)\<close>; the code in the variable arguments is the function \<open>body\<close>.\<close>

definition ksignal_closeex_andunlock_c ::
  "(task \<Rightarrow> kerrno) \<Rightarrow> ksignal \<Rightarrow> u8 \<Rightarrow> (ksignal \<Rightarrow> ksignal) \<Rightarrow> (kerrno \<times> ksignal) outcome" where
  "ksignal_closeex_andunlock_c resched s addflags body =
     (if s_flags s AND KSIGNAL_FLAG_DEAD \<noteq> 0
      then Done (KS_UNCHANGED, ksignal_unlock_c s KSIGNAL_LOCK_WAIT)
      else andthen
        (ksignal_sendall_andunlock_c resched
          (body (s\<lparr>s_flags := s_flags s OR (KSIGNAL_FLAG_DEAD OR addflags)\<rparr>)))
        (\<lambda>(n, s). Done (if n \<noteq> 0 then KE_OK else KS_EMPTY, s)))"

definition ksignal_close ::
  "(task \<Rightarrow> kerrno) \<Rightarrow> ksignal \<Rightarrow> (ksignal \<Rightarrow> ksignal) \<Rightarrow> (kerrno \<times> ksignal) outcome" where
  "ksignal_close resched s body =
     andthen (ksignal_lock_c s KSIGNAL_LOCK_WAIT)
       (\<lambda>s. ksignal_closeex_andunlock_c resched s 0 body)"

definition ksignal_reset :: "ksignal \<Rightarrow> (ksignal \<Rightarrow> ksignal) \<Rightarrow> (kerrno \<times> ksignal) outcome" where
  "ksignal_reset s body =
     andthen (ksignal_lock_c s KSIGNAL_LOCK_WAIT)
       (\<lambda>s. if s_flags s AND KSIGNAL_FLAG_DEAD \<noteq> 0
          then Done (KE_OK, ksignal_unlock_c
            (body (s\<lparr>s_flags := s_flags s AND NOT KSIGNAL_FLAG_DEAD\<rparr>)) KSIGNAL_LOCK_WAIT)
          else Done (KS_UNCHANGED, ksignal_unlock_c s KSIGNAL_LOCK_WAIT))"

text \<open>
  \<open>_ksignal_recv_andunlock_c\<close> up to the point where the calling task \<open>self\<close> is unscheduled.
  \<open>Some e\<close>: the call returns \<open>e\<close>; \<open>None\<close>: the task is now the last one of the wake chain.
\<close>

definition ksignal_recv_andunlock_c :: "task \<Rightarrow> ksignal \<Rightarrow> kerrno option \<times> ksignal" where
  "ksignal_recv_andunlock_c self s =
     (if ksignal_isdead_unlocked s
      then (Some KE_DESTROYED, ksignal_unlock_c s KSIGNAL_LOCK_WAIT)
      else (None, ksignal_unlock_c (s\<lparr>s_wake := s_wake s @ [self]\<rparr>) KSIGNAL_LOCK_WAIT))"

definition ksignal_recv :: "task \<Rightarrow> ksignal \<Rightarrow> (kerrno option \<times> ksignal) outcome" where
  "ksignal_recv self s =
     andthen (ksignal_lock_c s KSIGNAL_LOCK_WAIT)
       (\<lambda>s. Done (ksignal_recv_andunlock_c self s))"

lemmas signal_exec = KSIGNAL_INIT_EXU_def ksignal_init_def ksignal_islocked_def ksignal_trylock_c_def
  ksignal_lock_c_def ksignal_unlock_c_def ksignal_isdead_unlocked_def ksignal_popone_andunlock_c_def
  ksignal_sendone_andunlock_c_def ksignal_sendone_def ksignal_recv_andunlock_c_def ksignal_recv_def

section \<open>Behaviour\<close>

text \<open>Between two kernel calls nobody holds the wait lock of a signal.\<close>

definition sig_idle :: "ksignal \<Rightarrow> bool" where
  "sig_idle s \<longleftrightarrow> \<not> ksignal_islocked s KSIGNAL_LOCK_WAIT"

lemma ksignal_lock_idle:
  assumes "sig_idle s"
  shows "ksignal_lock_c s KSIGNAL_LOCK_WAIT = Done (s\<lparr>s_locks := s_locks s OR 1\<rparr>)"
  using assms
  by (simp add: sig_idle_def ksignal_islocked_def ksignal_lock_c_def ksignal_trylock_c_def)

lemma ksignal_unlock_idle [simp]: "sig_idle (ksignal_unlock_c s KSIGNAL_LOCK_WAIT)"
  by (simp add: sig_idle_def ksignal_islocked_def ksignal_unlock_c_def)

lemma ksignal_lock_unlock:
  assumes "sig_idle s"
  shows "ksignal_unlock_c (s\<lparr>s_locks := s_locks s OR 1, s_wake := w, s_flags := f, s_useru := u\<rparr>)
    KSIGNAL_LOCK_WAIT = s\<lparr>s_wake := w, s_flags := f, s_useru := u\<rparr>"
  using assms
  by (simp add: sig_idle_def ksignal_islocked_def ksignal_unlock_c_def mask_bit0_set_clear)

lemma sendone_idle:
  assumes "sig_idle s"
  shows "ksignal_sendone resched s =
    Done (if s_wake s = [] then KS_EMPTY else resched (hd (s_wake s)), s\<lparr>s_wake := tl (s_wake s)\<rparr>)"
  using assms mask_bit0_set_clear [of "s_locks s"]
  by (auto simp: ksignal_sendone_def ksignal_lock_idle ksignal_sendone_andunlock_c_def
      ksignal_popone_andunlock_c_def ksignal_unlock_c_def sig_idle_def ksignal_islocked_def
      split: list.splits)

lemma sig_idle_update [simp]:
  "sig_idle (s\<lparr>s_wake := w\<rparr>) = sig_idle s" "sig_idle (s\<lparr>s_useru := u\<rparr>) = sig_idle s"
  "sig_idle (s\<lparr>s_flags := f\<rparr>) = sig_idle s"
  by (simp_all add: sig_idle_def ksignal_islocked_def)

text \<open>\<open>ksignal_sendn\<close> stops at the first failing wake-up; otherwise it unlinks the first \<open>n\<close>
  tasks of the chain.\<close>

lemma sendn_loop_ok:
  assumes "sig_idle s" and "\<forall>t \<in> set (take k (s_wake s)). \<not> KE_ISERR (resched t)"
  shows "ksignal_sendn_loop resched i k s = Done (KE_OK, i + k, s\<lparr>s_wake := drop k (s_wake s)\<rparr>)"
  using assms
proof (induction k arbitrary: i s)
  case 0
  then show ?case by simp
next
  case (Suc k)
  have head: "\<not> KE_ISERR (if s_wake s = [] then KS_EMPTY else resched (hd (s_wake s)))"
    using Suc.prems(2) by (cases "s_wake s") auto
  have "\<forall>t \<in> set (take k (tl (s_wake s))). \<not> KE_ISERR (resched t)"
    using Suc.prems(2) by (cases "s_wake s") auto
  then have "ksignal_sendn_loop resched (Suc i) k (s\<lparr>s_wake := tl (s_wake s)\<rparr>)
      = Done (KE_OK, i + Suc k, s\<lparr>s_wake := drop k (tl (s_wake s))\<rparr>)"
    using Suc.IH [of "s\<lparr>s_wake := tl (s_wake s)\<rparr>" "Suc i"] Suc.prems(1) by simp
  then show ?case using head Suc.prems(1) by (simp add: sendone_idle drop_Suc)
qed

lemma sendall_loop_all:
  assumes "sig_idle s" and "\<forall>t \<in> set (s_wake s). resched t \<noteq> KS_EMPTY"
  shows "ksignal_sendall_loop resched count s =
    Done (count + length (s_wake s), s\<lparr>s_wake := []\<rparr>)"
  using assms
proof (induction resched count s rule: ksignal_sendall_loop.induct)
  case (1 resched count s)
  show ?case
  proof (cases "s_wake s")
    case Nil
    then show ?thesis using 1(2) by (subst ksignal_sendall_loop.simps) (simp add: sendone_idle)
  next
    case (Cons t ts)
    let ?s' = "s\<lparr>s_wake := ts\<rparr>"
    have sent: "ksignal_sendone resched s = Done (resched t, ?s')"
      using 1(2) Cons by (simp add: sendone_idle)
    have ne: "resched t \<noteq> KS_EMPTY" using 1(3) Cons by simp
    have "ksignal_sendall_loop resched (Suc count) ?s' =
        Done (Suc count + length (s_wake ?s'), ?s'\<lparr>s_wake := []\<rparr>)"
      using 1(1) [OF sent _ ne, of ?s'] 1(2,3) Cons by simp
    then show ?thesis using sent ne Cons by (subst ksignal_sendall_loop.simps) simp
  qed
qed

end
