(* ===== verification/Locks.thy ===== *)
theory Locks
  imports Signal
begin

text \<open>
  The locks built on the signal: \<open>kmutex\<close> (\<^verbatim>\<open>sched/sync/mutex.c.inl\<close>), the multi-lock \<open>kmmutex\<close>
  (\<^verbatim>\<open>mmutex.c.inl\<close>, \<^verbatim>\<open>mmutex-impl.c.inl\<close>), the semaphore \<open>ksem\<close> (\<^verbatim>\<open>sem.c.inl\<close>) and the close lock
  \<open>kcloselock\<close> (\<^verbatim>\<open>closelock.c.inl\<close>), in the release configuration (no debug tracking).

  A routine that sleeps takes a script \<open>env\<close> of what the rest of the system does meanwhile: each
  entry is the value the receive operation returns after one sleep and the state of the object at
  that moment. With no entry left the routine is still asleep, which is the outcome \<open>Blocked\<close>.
\<close>

section \<open>Mutex\<close>

record kmutex =
  m_sig :: ksignal

definition m_locked :: "kmutex \<Rightarrow> u16" where
  "m_locked m = s_useru (m_sig m)"

definition m_locked_set :: "u16 \<Rightarrow> kmutex \<Rightarrow> kmutex" where
  "m_locked_set v m = m\<lparr>m_sig := (m_sig m)\<lparr>s_useru := v\<rparr>\<rparr>"

definition kmutex_init :: kmutex where
  "kmutex_init = \<lparr>m_sig = ksignal_init\<rparr>"

definition kmutex_islocked :: "kmutex \<Rightarrow> bool" where
  "kmutex_islocked m \<longleftrightarrow> m_locked m \<noteq> 0"

fun kmutex_lock ::
  "task \<Rightarrow> (kerrno \<times> kmutex) list \<Rightarrow> kmutex \<Rightarrow> (kerrno \<times> kmutex) outcome" where
  "kmutex_lock self env m =
     (if m_locked m = 0 then Done (KE_OK, m_locked_set 1 m)
      else andthen (ksignal_recv self (m_sig m))
        (\<lambda>(r, s). case r of
           Some e \<Rightarrow> Done (e, m\<lparr>m_sig := s\<rparr>)
         | None \<Rightarrow> (case env of
             [] \<Rightarrow> Blocked
           | (e, m') # env' \<Rightarrow>
               if KE_ISOK e then kmutex_lock self env' m' else Done (e, m'))))"

declare kmutex_lock.simps [simp del]

text \<open>The timed variants run the same loop on the timed receive, whose \<open>KE_TIMEDOUT\<close> is one more value
  the script may hold.\<close>

definition kmutex_timedlock ::
  "task \<Rightarrow> (kerrno \<times> kmutex) list \<Rightarrow> kmutex \<Rightarrow> (kerrno \<times> kmutex) outcome" where
  "kmutex_timedlock self env m = kmutex_lock self env m"

definition kmutex_trylock :: "kmutex \<Rightarrow> (kerrno \<times> kmutex) outcome" where
  "kmutex_trylock m =
     (if m_locked m = 0 then Done (KE_OK, m_locked_set 1 m)
      else andthen (ksignal_lock_c (m_sig m) KSIGNAL_LOCK_WAIT)
        (\<lambda>s. let error = (if s_flags s AND KSIGNAL_FLAG_DEAD \<noteq> 0 then KE_DESTROYED
                          else KE_WOULDBLOCK)
             in Done (error, m\<lparr>m_sig := ksignal_unlock_c s KSIGNAL_LOCK_WAIT\<rparr>)))"

text \<open>\<open>while ((error = ksignal_sendone(&self->m_sig)) == KS_UNCHANGED);\<close>\<close>

function kmutex_unlock_loop :: "(task \<Rightarrow> kerrno) \<Rightarrow> ksignal \<Rightarrow> (kerrno \<times> ksignal) outcome" where
  "kmutex_unlock_loop resched s =
     (case ksignal_sendone resched s of
        Done (e, s') \<Rightarrow> if e = KS_UNCHANGED then kmutex_unlock_loop resched s' else Done (e, s')
      | Blocked \<Rightarrow> Blocked
      | Fault \<Rightarrow> Fault)"
  by pat_completeness auto
termination
proof (relation "measure (\<lambda>(r, s). length (s_wake s))")
  fix resched :: "task \<Rightarrow> kerrno" and s x e s'
  assume "ksignal_sendone resched s = Done x" and "(e, s') = x" and unch: "e = KS_UNCHANGED"
  then have sent: "ksignal_sendone resched s = Done (e, s')" by simp
  have "s_wake s \<noteq> []" using ksignal_sendone_shrinks(4) [OF sent] unch by auto
  then show "((resched, s'), resched, s) \<in> measure (\<lambda>(r, s). length (s_wake s))"
    using ksignal_sendone_shrinks(1) [OF sent] by simp
qed simp

declare kmutex_unlock_loop.simps [simp del]

definition kmutex_unlock :: "(task \<Rightarrow> kerrno) \<Rightarrow> kmutex \<Rightarrow> (kerrno \<times> kmutex) outcome" where
  "kmutex_unlock resched m =
     (let m = m_locked_set 0 m in
      andthen (kmutex_unlock_loop resched (m_sig m)) (\<lambda>(e, s). Done (e, m\<lparr>m_sig := s\<rparr>)))"

definition kmutex_close :: "(task \<Rightarrow> kerrno) \<Rightarrow> kmutex \<Rightarrow> (kerrno \<times> kmutex) outcome" where
  "kmutex_close resched m =
     andthen (ksignal_close resched (m_sig m) (\<lambda>s. s\<lparr>s_useru := 1\<rparr>))
       (\<lambda>(e, s). Done (e, m\<lparr>m_sig := s\<rparr>))"

definition kmutex_reset :: "kmutex \<Rightarrow> (kerrno \<times> kmutex) outcome" where
  "kmutex_reset m =
     andthen (ksignal_reset (m_sig m) (\<lambda>s. s\<lparr>s_useru := 0\<rparr>))
       (\<lambda>(e, s). Done (e, m\<lparr>m_sig := s\<rparr>))"

section \<open>Multi-lock mutex\<close>

record kmmutex =
  mmx_sig :: ksignal

abbreviation KMMUTEX_LOCKC :: nat where "KMMUTEX_LOCKC \<equiv> 16"
abbreviation KMMUTEX_LOCKMASK :: u16 where "KMMUTEX_LOCKMASK \<equiv> 0xFFFF"

definition KMMUTEX_LOCK :: "nat \<Rightarrow> u16" where
  "KMMUTEX_LOCK n = push_bit n 1"

definition mmx_locks :: "kmmutex \<Rightarrow> u16" where
  "mmx_locks m = s_useru (mmx_sig m)"

definition mmx_locks_set :: "u16 \<Rightarrow> kmmutex \<Rightarrow> kmmutex" where
  "mmx_locks_set v m = m\<lparr>mmx_sig := (mmx_sig m)\<lparr>s_useru := v\<rparr>\<rparr>"

definition kmmutex_init :: kmmutex where
  "kmmutex_init = \<lparr>mmx_sig = ksignal_init\<rparr>"

definition kmmutex_islocked :: "kmmutex \<Rightarrow> u16 \<Rightarrow> bool" where
  "kmmutex_islocked m l \<longleftrightarrow> mmx_locks m AND l \<noteq> 0"

definition kmmutex_islockeds :: "kmmutex \<Rightarrow> u16 \<Rightarrow> bool" where
  "kmmutex_islockeds m ls \<longleftrightarrow> mmx_locks m AND ls = ls"

text \<open>The two forms of \<open>TRYLOCK\<close>: one lock is taken by an atomic fetch-or, a set of locks by a
  compare-and-exchange that only happens when none of them is held.\<close>

definition kmmutex_TRYLOCK :: "u16 \<Rightarrow> kmmutex \<Rightarrow> bool \<times> kmmutex" where
  "kmmutex_TRYLOCK l m = (mmx_locks m AND l = 0, mmx_locks_set (mmx_locks m OR l) m)"

definition kmmutex_TRYLOCKS :: "u16 \<Rightarrow> kmmutex \<Rightarrow> bool \<times> kmmutex" where
  "kmmutex_TRYLOCKS ls m =
     (if mmx_locks m AND ls \<noteq> 0 then (False, m) else (True, mmx_locks_set (mmx_locks m OR ls) m))"

fun kmmutex_lock_with ::
  "(kmmutex \<Rightarrow> bool \<times> kmmutex) \<Rightarrow> task \<Rightarrow> (kerrno \<times> kmmutex) list \<Rightarrow> kmmutex
    \<Rightarrow> (kerrno \<times> kmmutex) outcome" where
  "kmmutex_lock_with try self env m =
     (case try m of
        (True, m') \<Rightarrow> Done (KE_OK, m')
      | (False, m') \<Rightarrow>
          andthen (ksignal_recv self (mmx_sig m'))
            (\<lambda>(r, s). case r of
               Some e \<Rightarrow> Done (e, m'\<lparr>mmx_sig := s\<rparr>)
             | None \<Rightarrow> (case env of
                 [] \<Rightarrow> Blocked
               | (e, m2) # env' \<Rightarrow>
                   if KE_ISOK e then kmmutex_lock_with try self env' m2 else Done (e, m2))))"

declare kmmutex_lock_with.simps [simp del]

definition kmmutex_lock ::
  "task \<Rightarrow> (kerrno \<times> kmmutex) list \<Rightarrow> kmmutex \<Rightarrow> u16 \<Rightarrow> (kerrno \<times> kmmutex) outcome" where
  "kmmutex_lock self env m l = kmmutex_lock_with (kmmutex_TRYLOCK l) self env m"

definition kmmutex_locks ::
  "task \<Rightarrow> (kerrno \<times> kmmutex) list \<Rightarrow> kmmutex \<Rightarrow> u16 \<Rightarrow> (kerrno \<times> kmmutex) outcome" where
  "kmmutex_locks self env m ls = kmmutex_lock_with (kmmutex_TRYLOCKS ls) self env m"

definition kmmutex_timedlock ::
  "task \<Rightarrow> (kerrno \<times> kmmutex) list \<Rightarrow> kmmutex \<Rightarrow> u16 \<Rightarrow> (kerrno \<times> kmmutex) outcome" where
  "kmmutex_timedlock self env m l = kmmutex_lock_with (kmmutex_TRYLOCK l) self env m"

definition kmmutex_trylock_with ::
  "(kmmutex \<Rightarrow> bool \<times> kmmutex) \<Rightarrow> kmmutex \<Rightarrow> (kerrno \<times> kmmutex) outcome" where
  "kmmutex_trylock_with try m =
     (case try m of
        (True, m') \<Rightarrow> Done (KE_OK, m')
      | (False, m') \<Rightarrow>
          andthen (ksignal_lock_c (mmx_sig m') KSIGNAL_LOCK_WAIT)
            (\<lambda>s. let error = (if s_flags s AND KSIGNAL_FLAG_DEAD \<noteq> 0 then KE_DESTROYED
                              else KE_WOULDBLOCK)
                 in Done (error, m'\<lparr>mmx_sig := ksignal_unlock_c s KSIGNAL_LOCK_WAIT\<rparr>)))"

definition kmmutex_trylock :: "kmmutex \<Rightarrow> u16 \<Rightarrow> (kerrno \<times> kmmutex) outcome" where
  "kmmutex_trylock m l = kmmutex_trylock_with (kmmutex_TRYLOCK l) m"

definition kmmutex_trylocks :: "kmmutex \<Rightarrow> u16 \<Rightarrow> (kerrno \<times> kmmutex) outcome" where
  "kmmutex_trylocks m ls = kmmutex_trylock_with (kmmutex_TRYLOCKS ls) m"

text \<open>\<open>kmmutex_unlock\<close> and \<open>kmmutex_unlocks\<close> differ only in an assertion.\<close>

definition kmmutex_unlock :: "(task \<Rightarrow> kerrno) \<Rightarrow> kmmutex \<Rightarrow> u16 \<Rightarrow> (kerrno \<times> kmmutex) outcome" where
  "kmmutex_unlock resched m l =
     (let m = mmx_locks_set (mmx_locks m AND NOT l) m in
      andthen (ksignal_sendall resched (mmx_sig m))
        (\<lambda>(n, s). Done (if n \<noteq> 0 then KE_OK else KS_UNCHANGED, m\<lparr>mmx_sig := s\<rparr>)))"

definition kmmutex_close :: "(task \<Rightarrow> kerrno) \<Rightarrow> kmmutex \<Rightarrow> (kerrno \<times> kmmutex) outcome" where
  "kmmutex_close resched m =
     andthen (ksignal_close resched (mmx_sig m) (\<lambda>s. s\<lparr>s_useru := KMMUTEX_LOCKMASK\<rparr>))
       (\<lambda>(e, s). Done (e, m\<lparr>mmx_sig := s\<rparr>))"

definition kmmutex_reset :: "kmmutex \<Rightarrow> (kerrno \<times> kmmutex) outcome" where
  "kmmutex_reset m =
     andthen (ksignal_reset (mmx_sig m) (\<lambda>s. s\<lparr>s_useru := 0\<rparr>))
       (\<lambda>(e, s). Done (e, m\<lparr>mmx_sig := s\<rparr>))"

section \<open>Semaphore\<close>

record ksem =
  s_sig :: ksignal
  s_tck :: u32

definition ksem_init :: "u32 \<Rightarrow> ksem" where
  "ksem_init tickets = \<lparr>s_sig = ksignal_init, s_tck = tickets\<rparr>"

text \<open>The result is the error code and \<open>*old_tickets\<close>. The count is added with wrap-around.\<close>

definition ksem_post ::
  "(task \<Rightarrow> kerrno) \<Rightarrow> ksem \<Rightarrow> u32 \<Rightarrow> ((kerrno \<times> u32) \<times> ksem) outcome" where
  "ksem_post resched m new_tickets =
     (let oldcount = s_tck m; newcount = oldcount + new_tickets in
      if newcount < oldcount then Done ((KE_OVERFLOW, oldcount), m)
      else let m = m\<lparr>s_tck := newcount\<rparr> in
        andthen (ksignal_sendn resched (s_sig m) (unat new_tickets))
          (\<lambda>(e, n, s). Done ((e, oldcount), m\<lparr>s_sig := s\<rparr>)))"

definition ksem_trywait :: "ksem \<Rightarrow> kerrno \<times> ksem" where
  "ksem_trywait m =
     (if s_tck m = 0 then (KE_WOULDBLOCK, m) else (KE_OK, m\<lparr>s_tck := s_tck m - 1\<rparr>))"

fun ksem_wait :: "task \<Rightarrow> (kerrno \<times> ksem) list \<Rightarrow> ksem \<Rightarrow> (kerrno \<times> ksem) outcome" where
  "ksem_wait self env m =
     andthen (ksignal_lock_c (s_sig m) KSIGNAL_LOCK_WAIT)
       (\<lambda>s. let (error, m) = ksem_trywait (m\<lparr>s_sig := s\<rparr>) in
          if error \<noteq> KE_WOULDBLOCK
          then Done (error, m\<lparr>s_sig := ksignal_unlock_c (s_sig m) KSIGNAL_LOCK_WAIT\<rparr>)
          else (case ksignal_recv_andunlock_c self (s_sig m) of
              (Some e, s) \<Rightarrow> Done (e, m\<lparr>s_sig := s\<rparr>)
            | (None, s) \<Rightarrow> (case env of
                [] \<Rightarrow> Blocked
              | (e, m') # env' \<Rightarrow> if e = KE_OK then ksem_wait self env' m' else Done (e, m'))))"

declare ksem_wait.simps [simp del]

definition ksem_timedwait ::
  "task \<Rightarrow> (kerrno \<times> ksem) list \<Rightarrow> ksem \<Rightarrow> (kerrno \<times> ksem) outcome" where
  "ksem_timedwait self env m = ksem_wait self env m"

definition ksem_close :: "(task \<Rightarrow> kerrno) \<Rightarrow> ksem \<Rightarrow> (kerrno \<times> ksem) outcome" where
  "ksem_close resched m =
     andthen (ksignal_close resched (s_sig m) (\<lambda>s. s)) (\<lambda>(e, s). Done (e, m\<lparr>s_sig := s\<rparr>))"

section \<open>Close lock\<close>

record kcloselock =
  cl_opsig :: ksignal
  cl_opcount :: u32

definition KCLOSELOCK_FLAG_CLOSEING :: u8 where
  "KCLOSELOCK_FLAG_CLOSEING = KSIGNAL_FLAG_USER 0"

definition kcloselock_init :: kcloselock where
  "kcloselock_init = \<lparr>cl_opsig = ksignal_init, cl_opcount = 0\<rparr>"

definition kcloselock_closeing :: "kcloselock \<Rightarrow> bool" where
  "kcloselock_closeing c \<longleftrightarrow> s_flags (cl_opsig c) AND KCLOSELOCK_FLAG_CLOSEING \<noteq> 0"

definition cl_lock :: "kcloselock \<Rightarrow> kcloselock outcome" where
  "cl_lock c = andthen (ksignal_lock_c (cl_opsig c) KSIGNAL_LOCK_WAIT)
     (\<lambda>s. Done (c\<lparr>cl_opsig := s\<rparr>))"

definition cl_unlock :: "kcloselock \<Rightarrow> kcloselock" where
  "cl_unlock c = c\<lparr>cl_opsig := ksignal_unlock_c (cl_opsig c) KSIGNAL_LOCK_WAIT\<rparr>"

definition cl_setclosing :: "kcloselock \<Rightarrow> kcloselock" where
  "cl_setclosing c = c\<lparr>cl_opsig := (cl_opsig c)\<lparr>s_flags :=
     s_flags (cl_opsig c) OR KCLOSELOCK_FLAG_CLOSEING\<rparr>\<rparr>"

definition cl_clrclosing :: "kcloselock \<Rightarrow> kcloselock" where
  "cl_clrclosing c = c\<lparr>cl_opsig := (cl_opsig c)\<lparr>s_flags :=
     s_flags (cl_opsig c) AND NOT KCLOSELOCK_FLAG_CLOSEING\<rparr>\<rparr>"

definition kcloselock_beginop :: "kcloselock \<Rightarrow> (kerrno \<times> kcloselock) outcome" where
  "kcloselock_beginop c = andthen (cl_lock c) (\<lambda>c.
     if kcloselock_closeing c then Done (KE_DESTROYED, cl_unlock c)
     else if cl_opcount c = -1 then Done (KE_OVERFLOW, cl_unlock c)
     else Done (KE_OK, cl_unlock (c\<lparr>cl_opcount := cl_opcount c + 1\<rparr>)))"

definition kcloselock_endop :: "(task \<Rightarrow> kerrno) \<Rightarrow> kcloselock \<Rightarrow> kcloselock outcome" where
  "kcloselock_endop resched c = andthen (cl_lock c) (\<lambda>c.
     let c = c\<lparr>cl_opcount := cl_opcount c - 1\<rparr> in
     if cl_opcount c = 0
     then andthen (ksignal_sendall_andunlock_c resched (cl_opsig c))
       (\<lambda>(n, s). Done (c\<lparr>cl_opsig := s\<rparr>))
     else Done (cl_unlock c))"

text \<open>\<open>kcloselock_reset\<close> ignores what its receive returns and starts over.\<close>

fun kcloselock_reset ::
  "(kerrno \<times> kcloselock) list \<Rightarrow> kcloselock \<Rightarrow> (kerrno \<times> kcloselock) outcome" where
  "kcloselock_reset env c = andthen (cl_lock c) (\<lambda>c.
     if \<not> kcloselock_closeing c then Done (KS_UNCHANGED, cl_unlock c)
     else if cl_opcount c \<noteq> 0 then
       (case env of [] \<Rightarrow> Blocked | (e, c') # env' \<Rightarrow> kcloselock_reset env' c')
     else Done (KE_OK, cl_unlock (cl_clrclosing c)))"

declare kcloselock_reset.simps [simp del]

definition kcloselock_close ::
  "task \<Rightarrow> (kerrno \<times> kcloselock) list \<Rightarrow> kcloselock \<Rightarrow> (kerrno \<times> kcloselock) outcome" where
  "kcloselock_close self env c = andthen (cl_lock c) (\<lambda>c.
     if kcloselock_closeing c then Done (KE_DESTROYED, cl_unlock c)
     else let c = cl_setclosing c in
       if cl_opcount c \<noteq> 0 then
         (case ksignal_recv_andunlock_c self (cl_opsig c) of
            (Some e, s) \<Rightarrow> Done (if e = KE_DESTROYED then KE_OK else e, c\<lparr>cl_opsig := s\<rparr>)
          | (None, s) \<Rightarrow> (case env of
              [] \<Rightarrow> Blocked
            | (e, c') # _ \<Rightarrow> Done (if e = KE_DESTROYED then KE_OK else e, c')))
       else Done (KE_OK, cl_unlock c))"

definition kcloselock_tryclose :: "kcloselock \<Rightarrow> (kerrno \<times> kcloselock) outcome" where
  "kcloselock_tryclose c = andthen (cl_lock c) (\<lambda>c.
     if kcloselock_closeing c then Done (KE_DESTROYED, cl_unlock c)
     else if cl_opcount c = 0 then Done (KE_OK, cl_unlock (cl_setclosing c))
     else Done (KE_WOULDBLOCK, cl_unlock c))"

text \<open>The loop of \<open>kcloselock_timedclose\<close>, entered with the wait lock held.\<close>

fun kcloselock_timedclose_loop ::
  "task \<Rightarrow> (kerrno \<times> kcloselock) list \<Rightarrow> kcloselock \<Rightarrow> (kerrno \<times> kcloselock) outcome" where
  "kcloselock_timedclose_loop self env c =
     (if cl_opcount c = 0 then Done (KE_OK, cl_unlock c)
      else (case ksignal_recv_andunlock_c self (cl_opsig c) of
          (Some e, s) \<Rightarrow> Done (e, c\<lparr>cl_opsig := s\<rparr>)
        | (None, s) \<Rightarrow> (case env of
            [] \<Rightarrow> Blocked
          | (e, c') # env' \<Rightarrow>
              if e = KE_TIMEDOUT
              then andthen (cl_lock c') (\<lambda>c. Done (KE_TIMEDOUT, cl_unlock (cl_clrclosing c)))
              else if KE_ISERR e then Done (e, c')
              else andthen (cl_lock c') (kcloselock_timedclose_loop self env'))))"

declare kcloselock_timedclose_loop.simps [simp del]

definition kcloselock_timedclose ::
  "task \<Rightarrow> (kerrno \<times> kcloselock) list \<Rightarrow> kcloselock \<Rightarrow> (kerrno \<times> kcloselock) outcome" where
  "kcloselock_timedclose self env c = andthen (cl_lock c) (\<lambda>c.
     if kcloselock_closeing c then Done (KE_DESTROYED, cl_unlock c)
     else kcloselock_timedclose_loop self env (cl_setclosing c))"

section \<open>Behaviour of the exclusive locks\<close>

lemmas mutex_defs = m_locked_def m_locked_set_def kmutex_islocked_def

lemmas mmutex_defs = mmx_locks_def mmx_locks_set_def kmmutex_islocked_def kmmutex_islockeds_def
  kmmutex_TRYLOCK_def kmmutex_TRYLOCKS_def

lemma recv_idle:
  assumes "sig_idle s"
  shows "ksignal_recv self s = Done (if ksignal_isdead_unlocked s then (Some KE_DESTROYED, s)
    else (None, s\<lparr>s_wake := s_wake s @ [self]\<rparr>))"
  using assms mask_bit0_set_clear [of "s_locks s"]
  by (auto simp: ksignal_recv_def ksignal_lock_idle ksignal_recv_andunlock_c_def
      ksignal_unlock_c_def ksignal_isdead_unlocked_def sig_idle_def ksignal_islocked_def)

lemma sendall_idle:
  assumes "sig_idle s" and "\<forall>t \<in> set (s_wake s). resched t \<noteq> KS_EMPTY"
  shows "ksignal_sendall resched s = Done (length (s_wake s), s\<lparr>s_wake := []\<rparr>)"
  using assms sendall_loop_all [of s resched 0] mask_bit0_set_clear [of "s_locks s"]
  by (simp add: ksignal_sendall_def ksignal_lock_idle ksignal_sendall_andunlock_c_def
      ksignal_unlock_c_def sig_idle_def ksignal_islocked_def)

text \<open>The unlock loop of \<open>kmutex_unlock\<close> pops waiting tasks up to the first that is really woken.\<close>

lemma kmutex_unlock_loop_idle:
  assumes "sig_idle s"
  shows "\<exists>e. kmutex_unlock_loop resched s =
    Done (e, s\<lparr>s_wake := tl (dropWhile (\<lambda>t. resched t = KS_UNCHANGED) (s_wake s))\<rparr>)"
  using assms
proof (induction "s_wake s" arbitrary: s)
  case Nil
  then show ?case
    by (subst kmutex_unlock_loop.simps) (simp add: sendone_idle)
next
  case (Cons t ts)
  let ?s' = "s\<lparr>s_wake := ts\<rparr>"
  have sent: "ksignal_sendone resched s = Done (resched t, ?s')"
    using Cons.prems Cons.hyps(2) [symmetric] by (simp add: sendone_idle)
  show ?case
  proof (cases "resched t = KS_UNCHANGED")
    case True
    have "\<exists>e. kmutex_unlock_loop resched ?s' =
        Done (e, ?s'\<lparr>s_wake := tl (dropWhile (\<lambda>t. resched t = KS_UNCHANGED) (s_wake ?s'))\<rparr>)"
      using Cons.hyps(1) [of ?s'] Cons.prems by simp
    then show ?thesis using sent True Cons.hyps(2) [symmetric]
      by (subst kmutex_unlock_loop.simps) simp
  next
    case False
    then show ?thesis using sent Cons.hyps(2) [symmetric]
      by (subst kmutex_unlock_loop.simps) simp
  qed
qed

lemma sendall_loop_idle:
  assumes "sig_idle s"
  shows "\<exists>n w. ksignal_sendall_loop resched count s = Done (n, s\<lparr>s_wake := w\<rparr>)"
  using assms
proof (induction resched count s rule: ksignal_sendall_loop.induct)
  case (1 resched count s)
  let ?s' = "s\<lparr>s_wake := tl (s_wake s)\<rparr>"
  let ?e = "if s_wake s = [] then KS_EMPTY else resched (hd (s_wake s))"
  have sent: "ksignal_sendone resched s = Done (?e, ?s')"
    using 1(2) by (rule sendone_idle)
  show ?case
  proof (cases "?e = KS_EMPTY")
    case True
    then show ?thesis using sent by (subst ksignal_sendall_loop.simps) auto
  next
    case False
    have "\<exists>n w. ksignal_sendall_loop resched (Suc count) ?s' = Done (n, ?s'\<lparr>s_wake := w\<rparr>)"
      using 1(1) [OF sent _ False, of ?s'] 1(2) by simp
    then obtain n w where
      "ksignal_sendall_loop resched (Suc count) ?s' = Done (n, ?s'\<lparr>s_wake := w\<rparr>)" by blast
    then show ?thesis using sent False by (subst ksignal_sendall_loop.simps) auto
  qed
qed

lemma sendall_idle_ex:
  assumes "sig_idle s"
  shows "\<exists>n w. ksignal_sendall resched s = Done (n, s\<lparr>s_wake := w\<rparr>)"
  using assms sendall_loop_idle [of s resched 0] mask_bit0_set_clear [of "s_locks s"]
  by (simp add: ksignal_sendall_def ksignal_lock_idle ksignal_sendall_andunlock_c_def
      ksignal_unlock_c_def sig_idle_def ksignal_islocked_def)

text \<open>
  The contract both mutexes give their clients: a family of locks \<open>l\<close> of one object, where taking
  or dropping one lock does not touch the locks apart from it, and a held lock is not given twice.
\<close>

locale lock_family =
  fixes wf :: "'s \<Rightarrow> bool" and valid :: "'l \<Rightarrow> bool" and apart :: "'l \<Rightarrow> 'l \<Rightarrow> bool"
    and held :: "'s \<Rightarrow> 'l \<Rightarrow> bool"
    and acquire :: "'s \<Rightarrow> 'l \<Rightarrow> (kerrno \<times> 's) outcome"
    and release :: "'s \<Rightarrow> 'l \<Rightarrow> (kerrno \<times> 's) outcome"
  assumes acquire_free: "wf s \<Longrightarrow> valid l \<Longrightarrow> \<not> held s l \<Longrightarrow>
      \<exists>s'. acquire s l = Done (KE_OK, s') \<and> wf s' \<and> held s' l
        \<and> (\<forall>k. apart l k \<longrightarrow> held s' k = held s k)"
    and acquire_held: "wf s \<Longrightarrow> valid l \<Longrightarrow> held s l \<Longrightarrow> acquire s l = Done (e, s') \<Longrightarrow>
      KE_ISERR e \<and> s' = s"
    and release_frees: "wf s \<Longrightarrow> valid l \<Longrightarrow>
      \<exists>e s'. release s l = Done (e, s') \<and> wf s' \<and> \<not> held s' l
        \<and> (\<forall>k. apart l k \<longrightarrow> held s' k = held s k)"
begin

lemma acquire_not_twice:
  assumes "wf s" and "valid l" and "acquire s l = Done (KE_OK, s')"
  shows "acquire s' l \<noteq> Done (KE_OK, s'')"
proof -
  have free: "\<not> held s l" using acquire_held [OF assms(1,2)] assms(3) by force
  then have "wf s'" and "held s' l" using acquire_free [OF assms(1,2)] assms(3) by auto
  then show ?thesis using acquire_held [OF _ assms(2)] by force
qed

lemma acquire_ok_iff:
  assumes "wf s" and "valid l"
  shows "(\<exists>s'. acquire s l = Done (KE_OK, s')) \<longleftrightarrow> \<not> held s l"
  using acquire_free [OF assms] acquire_held [OF assms] by (metis KE_IS_numerals(6))

lemma acquire_ok_wf:
  assumes "wf s" and "valid l" and "acquire s l = Done (KE_OK, s')"
  shows "wf s' \<and> held s' l \<and> (\<forall>k. apart l k \<longrightarrow> held s' k = held s k)"
  using acquire_free [OF assms(1,2)] acquire_ok_iff [OF assms(1,2)] assms(3) by force

lemma acquire_release:
  assumes "wf s" and "valid l" and "\<not> held s l"
  shows "\<exists>e s'. andthen (acquire s l) (\<lambda>(e, s). release s l) = Done (e, s') \<and> wf s'
    \<and> \<not> held s' l \<and> (\<forall>k. apart l k \<longrightarrow> held s' k = held s k)"
proof -
  obtain s1 where s1: "acquire s l = Done (KE_OK, s1)" "wf s1"
    and same1: "\<forall>k. apart l k \<longrightarrow> held s1 k = held s k"
    using acquire_free [OF assms] by blast
  obtain e s2 where "release s1 l = Done (e, s2)" "wf s2" "\<not> held s2 l"
    and "\<forall>k. apart l k \<longrightarrow> held s2 k = held s1 k"
    using release_frees [OF s1(2) assms(2)] by blast
  then show ?thesis using s1(1) same1 by auto
qed

lemma acquire_two:
  assumes "wf s" and "valid l" and "valid k" and "apart l k" and "\<not> held s l" and "\<not> held s k"
  shows "\<exists>s'. andthen (acquire s l) (\<lambda>(e, s). acquire s k) = Done (KE_OK, s')"
proof -
  obtain s1 where "acquire s l = Done (KE_OK, s1)" "wf s1" "held s1 k = held s k"
    using acquire_free [OF assms(1,2,5)] assms(4) by blast
  then show ?thesis using acquire_free [of s1 k] assms(3,6) by auto
qed

end

lemma single_bit_or:
  assumes "x AND KMMUTEX_LOCK n \<noteq> 0"
  shows "x OR KMMUTEX_LOCK n = x"
proof (rule bit_eqI)
  fix k
  have "bit x n" using assms
    by (metis (no_types, lifting) KMMUTEX_LOCK_def and.commute and_exp_eq_0_iff_not_bit
        push_bit_of_1)
  then show "bit (x OR KMMUTEX_LOCK n) k = bit x k"
    by (auto simp: KMMUTEX_LOCK_def bit_simps)
qed

interpretation kmutex_fam: lock_family
  "\<lambda>m. sig_idle (m_sig m)" "\<lambda>u :: unit. True" "\<lambda>u v. False" "\<lambda>m u. kmutex_islocked m"
  "\<lambda>m u. kmutex_lock self [] m" "\<lambda>m u. kmutex_unlock resched m"
  for self resched
proof
  fix s :: kmutex and l :: unit
  assume idle: "sig_idle (m_sig s)"
  show "\<exists>s'. kmutex_lock self [] s = Done (KE_OK, s') \<and> sig_idle (m_sig s') \<and> kmutex_islocked s'
      \<and> (\<forall>k :: unit. False \<longrightarrow> kmutex_islocked s' = kmutex_islocked s)"
    if "\<not> kmutex_islocked s"
    using that idle by (subst kmutex_lock.simps) (auto simp: mutex_defs)
  show "KE_ISERR e \<and> s' = s"
    if "kmutex_islocked s" "kmutex_lock self [] s = Done (e, s')" for e s'
    using that idle
    by (subst (asm) kmutex_lock.simps) (auto simp: mutex_defs recv_idle split: if_splits)
  have "sig_idle (m_sig (m_locked_set 0 s))" using idle by (simp add: mutex_defs)
  then show "\<exists>e s'. kmutex_unlock resched s = Done (e, s') \<and> sig_idle (m_sig s')
      \<and> \<not> kmutex_islocked s' \<and> (\<forall>k :: unit. False \<longrightarrow> kmutex_islocked s' = kmutex_islocked s)"
    using kmutex_unlock_loop_idle [of "m_sig (m_locked_set 0 s)" resched]
    by (auto simp: kmutex_unlock_def Let_def mutex_defs)
qed

lemma mask_or_frame:
  assumes "l AND k = (0 :: 'a :: len word)"
  shows "(x OR l) AND k = x AND k" and "(x AND NOT l) AND k = x AND k"
proof -
  have apart: "\<not> (bit l n \<and> bit k n)" for n
    using assms by (metis bit_0_eq bit_and_iff bot_apply bot_bool_def)
  show "(x OR l) AND k = x AND k" by (rule bit_eqI) (use apart in \<open>auto simp: bit_simps\<close>)
  show "(x AND NOT l) AND k = x AND k"
    by (rule bit_eqI) (use apart in \<open>auto simp: bit_simps dest: bit_imp_le_length\<close>)
qed

lemma kmmutex_unlock_idle:
  assumes "sig_idle (mmx_sig m)"
  shows "\<exists>e m'. kmmutex_unlock resched m l = Done (e, m') \<and> sig_idle (mmx_sig m')
    \<and> mmx_locks m' = mmx_locks m AND NOT l"
proof -
  let ?s = "mmx_sig (mmx_locks_set (mmx_locks m AND NOT l) m)"
  obtain n w where "ksignal_sendall resched ?s = Done (n, ?s\<lparr>s_wake := w\<rparr>)"
    using sendall_idle_ex [of ?s resched] assms by (auto simp: mmx_locks_set_def)
  then show ?thesis using assms
    by (simp add: kmmutex_unlock_def Let_def mmx_locks_def mmx_locks_set_def)
qed

lemma or_and_absorb [simp]: "(x OR l) AND l = (l :: 'a :: len word)"
  by (rule bit_eqI) (auto simp: bit_simps)

interpretation kmmutex_one: lock_family
  "\<lambda>m. sig_idle (mmx_sig m)" "\<lambda>l. l \<noteq> 0 \<and> (\<exists>n. l = KMMUTEX_LOCK n)" "\<lambda>l k. l AND k = 0"
  kmmutex_islocked "kmmutex_lock self []" "kmmutex_unlock resched"
  for self resched
proof
  fix s :: kmmutex and l :: u16
  assume idle: "sig_idle (mmx_sig s)" and valid: "l \<noteq> 0 \<and> (\<exists>n. l = KMMUTEX_LOCK n)"
  show "\<exists>s'. kmmutex_lock self [] s l = Done (KE_OK, s') \<and> sig_idle (mmx_sig s')
      \<and> kmmutex_islocked s' l
      \<and> (\<forall>k. l AND k = 0 \<longrightarrow> kmmutex_islocked s' k = kmmutex_islocked s k)"
    if "\<not> kmmutex_islocked s l"
    using that idle valid
    by (auto simp: kmmutex_lock_def kmmutex_lock_with.simps mmutex_defs mask_or_frame)
  show "KE_ISERR e \<and> s' = s"
    if "kmmutex_islocked s l" "kmmutex_lock self [] s l = Done (e, s')" for e s'
    using that idle valid
    by (auto simp: kmmutex_lock_def kmmutex_lock_with.simps mmutex_defs recv_idle single_bit_or
        split: if_splits)
  show "\<exists>e s'. kmmutex_unlock resched s l = Done (e, s') \<and> sig_idle (mmx_sig s')
      \<and> \<not> kmmutex_islocked s' l
      \<and> (\<forall>k. l AND k = 0 \<longrightarrow> kmmutex_islocked s' k = kmmutex_islocked s k)"
    using kmmutex_unlock_idle [OF idle, of resched l]
    by (auto simp: kmmutex_islocked_def mask_or_frame)
qed

interpretation kmmutex_many: lock_family
  "\<lambda>m. sig_idle (mmx_sig m)" "\<lambda>ls. ls \<noteq> 0" "\<lambda>l k. l AND k = 0"
  kmmutex_islocked "kmmutex_locks self []" "kmmutex_unlock resched"
  for self resched
proof
  fix s :: kmmutex and l :: u16
  assume idle: "sig_idle (mmx_sig s)" and valid: "l \<noteq> 0"
  show "\<exists>s'. kmmutex_locks self [] s l = Done (KE_OK, s') \<and> sig_idle (mmx_sig s')
      \<and> kmmutex_islocked s' l
      \<and> (\<forall>k. l AND k = 0 \<longrightarrow> kmmutex_islocked s' k = kmmutex_islocked s k)"
    if "\<not> kmmutex_islocked s l"
    using that idle valid
    by (auto simp: kmmutex_locks_def kmmutex_lock_with.simps mmutex_defs mask_or_frame)
  show "KE_ISERR e \<and> s' = s"
    if "kmmutex_islocked s l" "kmmutex_locks self [] s l = Done (e, s')" for e s'
    using that idle
    by (auto simp: kmmutex_locks_def kmmutex_lock_with.simps mmutex_defs recv_idle
        split: if_splits)
  show "\<exists>e s'. kmmutex_unlock resched s l = Done (e, s') \<and> sig_idle (mmx_sig s')
      \<and> \<not> kmmutex_islocked s' l
      \<and> (\<forall>k. l AND k = 0 \<longrightarrow> kmmutex_islocked s' k = kmmutex_islocked s k)"
    using kmmutex_unlock_idle [OF idle, of resched l]
    by (auto simp: kmmutex_islocked_def mask_or_frame)
qed

section \<open>Correctness\<close>

text \<open>
  C23. A task that returns from \<open>kmutex_lock\<close> with \<open>KE_OK\<close>, after however many sleeps, took the mutex
  in a state in which it was free (the last state it observed), and only changed \<open>m_locked\<close> from 0
  to 1; any task that tries the mutex next is refused.
\<close>

theorem kmutex_lock_acquires:
  assumes "kmutex_lock self env m = Done (KE_OK, m')"
  shows "\<exists>m0 \<in> insert m (snd ` set env). m_locked m0 = 0 \<and> m' = m_locked_set 1 m0
    \<and> (sig_idle (m_sig m0) \<longrightarrow> (\<exists>m''. kmutex_trylock m' = Done
          (if ksignal_isdead_unlocked (m_sig m0) then KE_DESTROYED else KE_WOULDBLOCK, m'')))"
  using assms
proof (induction self env m rule: kmutex_lock.induct)
  case (1 self env m)
  show ?case
  proof (cases "m_locked m = 0")
    case True
    then have "m' = m_locked_set 1 m" using 1(2) by (simp add: kmutex_lock.simps)
    then show ?thesis using True
      by (intro bexI [of _ m]) (auto simp: kmutex_trylock_def mutex_defs ksignal_lock_idle
          ksignal_isdead_unlocked_def Let_def)
  next
    case False
    then obtain r s where recv: "ksignal_recv self (m_sig m) = Done (r, s)"
      using 1(2) by (auto simp: kmutex_lock.simps andthen_Done_iff)
    then have "r = None"
      using 1(2) False
      by (auto simp: kmutex_lock.simps ksignal_recv_def andthen_Done_iff
          ksignal_recv_andunlock_c_def split: if_splits)
    then obtain e m2 env' where env: "env = (e, m2) # env'" and ok: "KE_ISOK e"
      and rest: "kmutex_lock self env' m2 = Done (KE_OK, m')"
      using 1(2) False recv
      by (auto simp: kmutex_lock.simps [of self env] split: list.splits if_splits)
    show ?thesis
      using 1(1) [OF False \<open>r = None\<close> env refl ok rest] env by auto
  qed
qed

text \<open>A second receive-and-retry example: the first sleep ends with the mutex still taken.\<close>

theorem kmutex_lock_acquires_witness:
  "\<exists>m0 \<in> insert (m_locked_set 1 kmutex_init)
      (snd ` set [(KE_OK, m_locked_set 1 kmutex_init), (KE_OK, kmutex_init)]).
     m_locked m0 = 0 \<and> m_locked_set 1 kmutex_init = m_locked_set 1 m0
     \<and> (sig_idle (m_sig m0) \<longrightarrow> (\<exists>m''. kmutex_trylock (m_locked_set 1 kmutex_init) = Done
          (if ksignal_isdead_unlocked (m_sig m0) then KE_DESTROYED else KE_WOULDBLOCK, m'')))"
  by (rule kmutex_lock_acquires [of 7])
    (simp add: kmutex_lock.simps kmutex_init_def mutex_defs signal_exec)





end
