(* ===== verification/SyncConc.thy ===== *)
theory SyncConc
  imports Locks
begin

text \<open>
  The semaphore and the mutex used by several tasks at once. A system is the object and one program
  counter per task; a step is one task passing one atomic action of the source (taking the signal's
  spin lock, a compare-and-exchange, queueing itself while holding the spin lock, one
  \<open>ksignal_sendone\<close>), computed by the operations of the sequential model. Tasks that sleep are only
  woken by a signal: time-outs and interruptions are left out.
\<close>

section \<open>The semaphore\<close>

text \<open>Where a task is in \<open>ksem_wait\<close> (about to lock, about to try, about to unlock with its ticket,
  about to queue itself, asleep) or in the \<open>ksignal_sendn\<close> of \<open>ksem_post\<close> (sends left).\<close>

datatype spc = S_Idle | S_Lock | S_Check | S_Unlock | S_Recv | S_Sleep | S_Send nat

record semsys =
  sys_sem :: ksem
  sys_pcs :: "spc list"
  sys_posted :: nat
  sys_taken :: nat

definition sem_queue :: "semsys \<Rightarrow> task list" where
  "sem_queue s = s_wake (s_sig (sys_sem s))"

definition semsys_init :: "nat \<Rightarrow> u32 \<Rightarrow> semsys" where
  "semsys_init n tickets = \<lparr>sys_sem = ksem_init tickets, sys_pcs = replicate n S_Idle,
     sys_posted = 0, sys_taken = 0\<rparr>"

text \<open>The program counters after \<open>ksignal_sendone\<close> by task \<open>i\<close>: a popped task runs its loop again.\<close>

definition wake_first :: "task list \<Rightarrow> spc list \<Rightarrow> spc list" where
  "wake_first q pcs = (case q of [] \<Rightarrow> pcs | t # _ \<Rightarrow> pcs[t := S_Lock])"

inductive sem_step :: "semsys \<Rightarrow> semsys \<Rightarrow> bool" where
  wait_start: "\<lbrakk>i < length pcs; pcs ! i = S_Idle\<rbrakk> \<Longrightarrow>
    sem_step \<lparr>sys_sem = m, sys_pcs = pcs, sys_posted = p, sys_taken = a\<rparr>
      \<lparr>sys_sem = m, sys_pcs = pcs[i := S_Lock], sys_posted = p, sys_taken = a\<rparr>"
| wait_lock: "\<lbrakk>i < length pcs; pcs ! i = S_Lock;
    ksignal_lock_c (s_sig m) KSIGNAL_LOCK_WAIT = Done sg\<rbrakk> \<Longrightarrow>
    sem_step \<lparr>sys_sem = m, sys_pcs = pcs, sys_posted = p, sys_taken = a\<rparr>
      \<lparr>sys_sem = m\<lparr>s_sig := sg\<rparr>, sys_pcs = pcs[i := S_Check], sys_posted = p, sys_taken = a\<rparr>"
| wait_take: "\<lbrakk>i < length pcs; pcs ! i = S_Check; ksem_trywait m = (KE_OK, m')\<rbrakk> \<Longrightarrow>
    sem_step \<lparr>sys_sem = m, sys_pcs = pcs, sys_posted = p, sys_taken = a\<rparr>
      \<lparr>sys_sem = m', sys_pcs = pcs[i := S_Unlock], sys_posted = p, sys_taken = Suc a\<rparr>"
| wait_unlock: "\<lbrakk>i < length pcs; pcs ! i = S_Unlock\<rbrakk> \<Longrightarrow>
    sem_step \<lparr>sys_sem = m, sys_pcs = pcs, sys_posted = p, sys_taken = a\<rparr>
      \<lparr>sys_sem = m\<lparr>s_sig := ksignal_unlock_c (s_sig m) KSIGNAL_LOCK_WAIT\<rparr>,
       sys_pcs = pcs[i := S_Idle], sys_posted = p, sys_taken = a\<rparr>"
| wait_none: "\<lbrakk>i < length pcs; pcs ! i = S_Check; ksem_trywait m = (KE_WOULDBLOCK, m')\<rbrakk> \<Longrightarrow>
    sem_step \<lparr>sys_sem = m, sys_pcs = pcs, sys_posted = p, sys_taken = a\<rparr>
      \<lparr>sys_sem = m', sys_pcs = pcs[i := S_Recv], sys_posted = p, sys_taken = a\<rparr>"
| wait_sleep: "\<lbrakk>i < length pcs; pcs ! i = S_Recv;
    ksignal_recv_andunlock_c i (s_sig m) = (None, sg)\<rbrakk> \<Longrightarrow>
    sem_step \<lparr>sys_sem = m, sys_pcs = pcs, sys_posted = p, sys_taken = a\<rparr>
      \<lparr>sys_sem = m\<lparr>s_sig := sg\<rparr>, sys_pcs = pcs[i := S_Sleep], sys_posted = p, sys_taken = a\<rparr>"
| try_take: "\<lbrakk>i < length pcs; pcs ! i = S_Idle; ksem_trywait m = (KE_OK, m')\<rbrakk> \<Longrightarrow>
    sem_step \<lparr>sys_sem = m, sys_pcs = pcs, sys_posted = p, sys_taken = a\<rparr>
      \<lparr>sys_sem = m', sys_pcs = pcs, sys_posted = p, sys_taken = Suc a\<rparr>"
| post_add: "\<lbrakk>i < length pcs; pcs ! i = S_Idle; \<not> s_tck m + n < s_tck m\<rbrakk> \<Longrightarrow>
    sem_step \<lparr>sys_sem = m, sys_pcs = pcs, sys_posted = p, sys_taken = a\<rparr>
      \<lparr>sys_sem = m\<lparr>s_tck := s_tck m + n\<rparr>, sys_pcs = pcs[i := S_Send (unat n)],
       sys_posted = p + unat n, sys_taken = a\<rparr>"
| post_send: "\<lbrakk>i < length pcs; pcs ! i = S_Send (Suc k);
    ksignal_sendone (\<lambda>t. KE_OK) (s_sig m) = Done (e, sg)\<rbrakk> \<Longrightarrow>
    sem_step \<lparr>sys_sem = m, sys_pcs = pcs, sys_posted = p, sys_taken = a\<rparr>
      \<lparr>sys_sem = m\<lparr>s_sig := sg\<rparr>,
       sys_pcs = wake_first (s_wake (s_sig m)) (pcs[i := S_Send k]), sys_posted = p, sys_taken = a\<rparr>"
| post_end: "\<lbrakk>i < length pcs; pcs ! i = S_Send 0\<rbrakk> \<Longrightarrow>
    sem_step \<lparr>sys_sem = m, sys_pcs = pcs, sys_posted = p, sys_taken = a\<rparr>
      \<lparr>sys_sem = m, sys_pcs = pcs[i := S_Idle], sys_posted = p, sys_taken = a\<rparr>"

inductive sem_reachable :: "nat \<Rightarrow> u32 \<Rightarrow> semsys \<Rightarrow> bool" for n tickets where
  start: "sem_reachable n tickets (semsys_init n tickets)"
| step: "sem_reachable n tickets s \<Longrightarrow> sem_step s t \<Longrightarrow> sem_reachable n tickets t"

fun in_lock :: "spc \<Rightarrow> nat" where
  "in_lock S_Check = 1" | "in_lock S_Unlock = 1" | "in_lock S_Recv = 1" | "in_lock _ = 0"

fun wakeups :: "spc \<Rightarrow> nat" where
  "wakeups S_Lock = 1" | "wakeups S_Check = 1" | "wakeups (S_Send k) = k" | "wakeups _ = 0"

text \<open>
  The invariant: the spin lock is held by exactly the task between lock and unlock; the queue is the
  set of sleeping tasks; while a task sleeps or is about to, every ticket has a task that will try
  for it or a send that is still to come; no ticket is lost or made up.
\<close>

definition sem_inv_lock :: "ksem \<Rightarrow> spc list \<Rightarrow> bool" where
  "sem_inv_lock m pcs \<longleftrightarrow> \<not> ksignal_isdead_unlocked (s_sig m)
     \<and> weight in_lock pcs = (if sig_idle (s_sig m) then 0 else 1)"

definition sem_inv_queue :: "ksem \<Rightarrow> spc list \<Rightarrow> bool" where
  "sem_inv_queue m pcs \<longleftrightarrow> distinct (s_wake (s_sig m))
     \<and> set (s_wake (s_sig m)) = {i. i < length pcs \<and> pcs ! i = S_Sleep}"

definition sem_inv_wake :: "ksem \<Rightarrow> spc list \<Rightarrow> bool" where
  "sem_inv_wake m pcs \<longleftrightarrow> (s_wake (s_sig m) \<noteq> [] \<or> S_Recv \<in> set pcs \<longrightarrow>
     unat (s_tck m) \<le> weight wakeups pcs)"

definition sem_inv :: "u32 \<Rightarrow> semsys \<Rightarrow> bool" where
  "sem_inv tickets s \<longleftrightarrow> sem_inv_lock (sys_sem s) (sys_pcs s) \<and> sem_inv_queue (sys_sem s) (sys_pcs s)
     \<and> sem_inv_wake (sys_sem s) (sys_pcs s)
     \<and> unat (s_tck (sys_sem s)) + sys_taken s = unat tickets + sys_posted s"

subsection \<open>Every step keeps the invariant\<close>

lemma lock_c_DoneD:
  assumes "ksignal_lock_c s KSIGNAL_LOCK_WAIT = Done sg"
  shows "sig_idle s" and "\<not> sig_idle sg" and "s_wake sg = s_wake s" and "s_flags sg = s_flags s"
proof -
  show idle: "sig_idle s" using assms
    by (auto simp: ksignal_lock_c_def ksignal_trylock_c_def sig_idle_def ksignal_islocked_def
        split: if_splits)
  show "\<not> sig_idle sg" "s_wake sg = s_wake s" "s_flags sg = s_flags s"
    using assms ksignal_lock_idle [OF idle] by (auto simp: sig_idle_def ksignal_islocked_def)
qed

lemma sendone_DoneD:
  assumes "ksignal_sendone resched s = Done (e, sg)"
  shows "sig_idle s" and "sg = s\<lparr>s_wake := tl (s_wake s)\<rparr>"
proof -
  show idle: "sig_idle s" using assms
    by (auto simp: ksignal_sendone_def andthen_Done_iff dest: lock_c_DoneD)
  show "sg = s\<lparr>s_wake := tl (s_wake s)\<rparr>" using assms sendone_idle [OF idle] by simp
qed

lemma isdead_flags: "s_flags s = s_flags t \<Longrightarrow> ksignal_isdead_unlocked s = ksignal_isdead_unlocked t"
  by (simp add: ksignal_isdead_unlocked_def)

lemma unlock_frame [simp]:
  "s_wake (ksignal_unlock_c s l) = s_wake s" "s_flags (ksignal_unlock_c s l) = s_flags s"
  by (simp_all add: ksignal_unlock_c_def)

lemma recv_andunlock_SleepD:
  assumes "ksignal_recv_andunlock_c i s = (None, sg)"
  shows "s_wake sg = s_wake s @ [i]" and "s_flags sg = s_flags s" and "sig_idle sg"
  using assms by (auto simp: ksignal_recv_andunlock_c_def split: if_splits)

lemma trywait_cases:
  "ksem_trywait m = (KE_OK, m') \<Longrightarrow> s_tck m \<noteq> 0 \<and> m' = m\<lparr>s_tck := s_tck m - 1\<rparr>"
  "ksem_trywait m = (KE_WOULDBLOCK, m') \<Longrightarrow> s_tck m = 0 \<and> m' = m"
  by (auto simp: ksem_trywait_def split: if_splits)

lemma unat_minus_1: "(w :: 'a :: len word) \<noteq> 0 \<Longrightarrow> unat (w - 1) + 1 = unat w"
  by (simp add: unat_minus_one word_gt_0_unat)

lemma pcs_sleep_frame:
  assumes "i < length pcs" and "pcs ! i \<noteq> S_Sleep" and "p \<noteq> S_Sleep"
  shows "{j. j < length pcs \<and> pcs[i := p] ! j = S_Sleep} = {j. j < length pcs \<and> pcs ! j = S_Sleep}"
  using assms by (auto simp: nth_list_update)

lemma set_update_other: "i < length xs \<Longrightarrow> x \<in> set (xs[i := y]) \<Longrightarrow> x \<noteq> y \<Longrightarrow> x \<in> set xs"
  using set_update_subset_insert by fastforce

lemma nobody_in_lock:
  assumes "sem_inv_lock m pcs" and "sig_idle (s_sig m)"
  shows "S_Recv \<notin> set pcs"
proof
  assume "S_Recv \<in> set pcs"
  then obtain j where "j < length pcs" "pcs ! j = S_Recv" by (auto simp: in_set_conv_nth)
  then have "1 \<le> weight in_lock pcs" using weight_ge [of j pcs in_lock] by simp
  then show False using assms by (simp add: sem_inv_lock_def)
qed

lemma wake_first_weight:
  assumes "sem_inv_queue m pcs" and "i < length pcs" and "pcs ! i \<noteq> S_Sleep" and "p \<noteq> S_Sleep"
    and "w S_Sleep = 0"
  shows "weight w (wake_first (s_wake (s_sig m)) (pcs[i := p])) =
    (if s_wake (s_sig m) = [] then 0 else w S_Lock) + weight w (pcs[i := p])"
proof (cases "s_wake (s_sig m)")
  case Nil
  then show ?thesis by (simp add: wake_first_def)
next
  case (Cons t q)
  then have "t < length pcs" "pcs ! t = S_Sleep" using assms(1) by (auto simp: sem_inv_queue_def)
  moreover have "t \<noteq> i" using calculation(2) assms(3) by auto
  ultimately show ?thesis
    using Cons weight_list_update [of t "pcs[i := p]" w S_Lock] assms(5)
    by (simp add: wake_first_def)
qed

lemma sem_step_lock:
  assumes "sem_step s t" and "sem_inv_lock (sys_sem s) (sys_pcs s)"
    and "sem_inv_queue (sys_sem s) (sys_pcs s)"
  shows "sem_inv_lock (sys_sem t) (sys_pcs t)"
  using assms
proof (induction rule: sem_step.induct)
  case (post_send i pcs k m e sg p a)
  have "weight in_lock (wake_first (s_wake (s_sig m)) (pcs[i := S_Send k])) =
      weight in_lock (pcs[i := S_Send k])"
    using wake_first_weight [of m pcs i "S_Send k" in_lock] post_send by simp
  then show ?case
    using post_send sendone_DoneD [OF post_send(3)] weight_list_update [of i pcs in_lock "S_Send k"]
    by (simp add: sem_inv_lock_def ksignal_isdead_unlocked_def)
next
  case (wait_lock i pcs m sg p a)
  then show ?case
    using lock_c_DoneD [OF wait_lock(3)] weight_list_update [of i pcs in_lock S_Check]
    by (auto simp: sem_inv_lock_def ksignal_isdead_unlocked_def)
next
  case (wait_sleep i pcs m sg p a)
  then show ?case
    using recv_andunlock_SleepD [OF wait_sleep(3)] weight_list_update [of i pcs in_lock S_Sleep]
    by (auto simp: sem_inv_lock_def ksignal_isdead_unlocked_def split: if_splits)
next
  case (wait_unlock i pcs m p a)
  then show ?case
    using weight_list_update [of i pcs in_lock S_Idle]
    by (auto simp: sem_inv_lock_def ksignal_isdead_unlocked_def split: if_splits)
qed (auto simp: sem_inv_lock_def dest!: trywait_cases
    dest: weight_list_update [where w = in_lock, of _ _ S_Lock]
      weight_list_update [where w = in_lock, of _ _ S_Unlock]
      weight_list_update [where w = in_lock, of _ _ S_Recv]
      weight_list_update [where w = in_lock, of _ _ S_Idle]
      weight_list_update [where w = in_lock, of _ _ "S_Send _"])

lemma wake_first_sleeping:
  assumes "sem_inv_queue m pcs" and "i < length pcs" and "pcs ! i \<noteq> S_Sleep" and "p \<noteq> S_Sleep"
  shows "sem_inv_queue (m\<lparr>s_sig := (s_sig m)\<lparr>s_wake := tl (s_wake (s_sig m))\<rparr>\<rparr>)
    (wake_first (s_wake (s_sig m)) (pcs[i := p]))"
proof (cases "s_wake (s_sig m)")
  case Nil
  then show ?thesis using assms pcs_sleep_frame [OF assms(2,3,4)]
    by (simp add: sem_inv_queue_def wake_first_def)
next
  case (Cons t q)
  have dist: "t \<notin> set q" "distinct q"
    and all: "insert t (set q) = {j. j < length pcs \<and> pcs ! j = S_Sleep}"
    using assms(1) Cons by (auto simp: sem_inv_queue_def)
  have t: "t < length pcs" "t \<noteq> i" using all assms(3) by auto
  have "set q = {j. j < length pcs \<and> pcs[i := p, t := S_Lock] ! j = S_Sleep}"
  proof -
    have "set q = {j. j < length pcs \<and> pcs ! j = S_Sleep} - {t}" using all dist by auto
    also have "\<dots> = {j. j < length pcs \<and> pcs[i := p, t := S_Lock] ! j = S_Sleep}"
      using assms t by (auto simp: nth_list_update)
    finally show ?thesis .
  qed
  then show ?thesis using Cons dist by (simp add: sem_inv_queue_def wake_first_def)
qed

lemma queue_frame:
  assumes "sem_inv_queue m pcs" and "i < length pcs" and "pcs ! i \<noteq> S_Sleep" and "p \<noteq> S_Sleep"
    and "s_wake (s_sig m') = s_wake (s_sig m)"
  shows "sem_inv_queue m' (pcs[i := p])"
  using assms pcs_sleep_frame [OF assms(2-4)] by (simp add: sem_inv_queue_def)

lemma sem_step_queue:
  assumes "sem_step s t" and "sem_inv_queue (sys_sem s) (sys_pcs s)"
  shows "sem_inv_queue (sys_sem t) (sys_pcs t)"
  using assms
proof (induction rule: sem_step.induct)
  case (post_send i pcs k m e sg p a)
  then show ?case using wake_first_sleeping [of m pcs i "S_Send k"] sendone_DoneD [OF post_send(3)]
    by simp
next
  case (wait_sleep i pcs m sg p a)
  have "{j. j < length pcs \<and> pcs[i := S_Sleep] ! j = S_Sleep} =
      insert i {j. j < length pcs \<and> pcs ! j = S_Sleep}"
    using wait_sleep by (auto simp: nth_list_update)
  then show ?case using wait_sleep recv_andunlock_SleepD [OF wait_sleep(3)]
    by (auto simp: sem_inv_queue_def)
next
  case (wait_lock i pcs m sg p a)
  then show ?case using queue_frame [of m pcs i S_Check] lock_c_DoneD [OF wait_lock(3)] by simp
next
  case (wait_start i pcs m p a)
  then show ?case using queue_frame [of m pcs i S_Lock] by simp
next
  case (wait_take i pcs m m' p a)
  then show ?case using queue_frame [of m pcs i S_Unlock] trywait_cases(1) [OF wait_take(3)] by simp
next
  case (wait_unlock i pcs m p a)
  then show ?case using queue_frame [of m pcs i S_Idle] by simp
next
  case (wait_none i pcs m m' p a)
  then show ?case using queue_frame [of m pcs i S_Recv] trywait_cases(2) [OF wait_none(3)] by simp
next
  case (try_take i pcs m m' p a)
  then show ?case using trywait_cases(1) [OF try_take(3)] by (simp add: sem_inv_queue_def)
next
  case (post_add i pcs m n p a)
  then show ?case using queue_frame [of m pcs i "S_Send (unat n)"] by simp
next
  case (post_end i pcs m p a)
  then show ?case using queue_frame [of m pcs i S_Idle] by simp
qed

lemma sem_step_wake:
  assumes "sem_step s t" and "sem_inv_wake (sys_sem s) (sys_pcs s)"
    and "sem_inv_lock (sys_sem s) (sys_pcs s)" and "sem_inv_queue (sys_sem s) (sys_pcs s)"
  shows "sem_inv_wake (sys_sem t) (sys_pcs t)"
  using assms
proof (induction rule: sem_step.induct)
  case (post_send i pcs k m e sg p a)
  have w: "weight wakeups (pcs[i := S_Send k]) + 1 = weight wakeups pcs"
    using weight_list_update [of i pcs wakeups "S_Send k"] post_send by simp
  show ?case
  proof (cases "s_wake (s_sig m)")
    case Nil
    have "S_Recv \<notin> set pcs"
      using nobody_in_lock [of m pcs] post_send sendone_DoneD [OF post_send(3)] by simp
    then have "S_Recv \<notin> set (pcs[i := S_Send k])"
      using set_update_other [OF post_send(1), of S_Recv] by auto
    then show ?thesis using Nil sendone_DoneD [OF post_send(3)]
      by (simp add: sem_inv_wake_def wake_first_def)
  next
    case (Cons t q)
    have "weight wakeups (wake_first (s_wake (s_sig m)) (pcs[i := S_Send k])) =
        weight wakeups pcs"
      using wake_first_weight [of m pcs i "S_Send k" wakeups] post_send w Cons by simp
    then show ?thesis using post_send Cons sendone_DoneD [OF post_send(3)]
      by (simp add: sem_inv_wake_def)
  qed
next
  case (wait_start i pcs m p a)
  then show ?case
    using weight_list_update [of i pcs wakeups S_Lock] set_update_other [of i pcs S_Recv S_Lock]
    by (auto simp: sem_inv_wake_def)
next
  case (wait_lock i pcs m sg p a)
  then show ?case
    using lock_c_DoneD [OF wait_lock(3)] weight_list_update [of i pcs wakeups S_Check]
      set_update_other [of i pcs S_Recv S_Check]
    by (auto simp: sem_inv_wake_def)
next
  case (wait_take i pcs m m' p a)
  then show ?case
    using trywait_cases(1) [OF wait_take(3)] unat_minus_1 [of "s_tck m"]
      weight_list_update [of i pcs wakeups S_Unlock] set_update_other [of i pcs S_Recv S_Unlock]
    by (auto simp: sem_inv_wake_def)
next
  case (wait_unlock i pcs m p a)
  then show ?case
    using weight_list_update [of i pcs wakeups S_Idle] set_update_other [of i pcs S_Recv S_Idle]
    by (auto simp: sem_inv_wake_def)
next
  case (wait_none i pcs m m' p a)
  then show ?case using trywait_cases(2) [OF wait_none(3)] by (simp add: sem_inv_wake_def)
next
  case (wait_sleep i pcs m sg p a)
  then have "S_Recv \<in> set pcs" using nth_mem by force
  then show ?case
    using wait_sleep recv_andunlock_SleepD [OF wait_sleep(3)]
      weight_list_update [of i pcs wakeups S_Sleep]
    by (simp add: sem_inv_wake_def)
next
  case (try_take i pcs m m' p a)
  then show ?case using trywait_cases(1) [OF try_take(3)] unat_minus_1 [of "s_tck m"]
    by (auto simp: sem_inv_wake_def)
next
  case (post_add i pcs m n p a)
  have "unat (s_tck m + n) \<le> unat (s_tck m) + unat n"
    using unat_plus_if' [of "s_tck m" n] by (simp split: if_splits)
  then show ?case
    using post_add weight_list_update [of i pcs wakeups "S_Send (unat n)"]
      set_update_other [of i pcs S_Recv "S_Send (unat n)"]
    by (auto simp: sem_inv_wake_def)
next
  case (post_end i pcs m p a)
  then show ?case
    using weight_list_update [of i pcs wakeups S_Idle] set_update_other [of i pcs S_Recv S_Idle]
    by (auto simp: sem_inv_wake_def)
qed

lemma sem_step_count:
  assumes "sem_step s t" and "unat (s_tck (sys_sem s)) + sys_taken s = c + sys_posted s"
  shows "unat (s_tck (sys_sem t)) + sys_taken t = c + sys_posted t"
  using assms
proof (induction rule: sem_step.induct)
  case (post_add i pcs m n p a)
  then have "unat (s_tck m + n) = unat (s_tck m) + unat n"
    using word_add_overflow [of "s_tck m" n] unat_plus_if' [of "s_tck m" n] by (simp split: if_splits)
  then show ?case using post_add by simp
next
  case (wait_take i pcs m m' p a)
  then show ?case using trywait_cases(1) [OF wait_take(3)] unat_minus_1 [of "s_tck m"] by simp
next
  case (try_take i pcs m m' p a)
  then show ?case using trywait_cases(1) [OF try_take(3)] unat_minus_1 [of "s_tck m"] by simp
qed (auto dest!: trywait_cases)

lemma sem_reachable_inv:
  assumes "sem_reachable n tickets s"
  shows "sem_inv tickets s"
  using assms
proof (induction rule: sem_reachable.induct)
  case start
  show ?case
    by (auto simp: sem_inv_def sem_inv_lock_def sem_inv_queue_def sem_inv_wake_def semsys_init_def
        ksem_init_def signal_exec sig_idle_def weight_replicate)
next
  case (step s t)
  then show ?case
    using sem_step_lock [of s t] sem_step_queue [of s t] sem_step_wake [of s t]
      sem_step_count [of s t "unat tickets"]
    by (simp add: sem_inv_def)
qed


text \<open>A run in which task 0 finds no ticket and goes to sleep.\<close>

lemma sem_sleeping_run:
  "sem_reachable 2 0 \<lparr>sys_sem = \<lparr>s_sig = ksignal_init\<lparr>s_wake := [0]\<rparr>, s_tck = 0\<rparr>,
     sys_pcs = [S_Sleep, S_Idle], sys_posted = 0, sys_taken = 0\<rparr>"
proof -
  let ?sg = "ksignal_init\<lparr>s_locks := 1\<rparr>"
  have s0: "sem_reachable 2 0 \<lparr>sys_sem = ksem_init 0, sys_pcs = [S_Idle, S_Idle], sys_posted = 0,
      sys_taken = 0\<rparr>"
    using sem_reachable.start [of 2 0] by (simp add: semsys_init_def numeral_2_eq_2)
  have s1: "sem_reachable 2 0 \<lparr>sys_sem = ksem_init 0, sys_pcs = [S_Lock, S_Idle], sys_posted = 0,
      sys_taken = 0\<rparr>"
    using sem_reachable.step [OF s0 sem_step.wait_start [of 0]] by simp
  have s2: "sem_reachable 2 0 \<lparr>sys_sem = (ksem_init 0)\<lparr>s_sig := ?sg\<rparr>, sys_pcs = [S_Check, S_Idle],
      sys_posted = 0, sys_taken = 0\<rparr>"
    using sem_reachable.step [OF s1 sem_step.wait_lock [of 0 _ _ ?sg]]
    by (simp add: ksem_init_def signal_exec)
  have s3: "sem_reachable 2 0 \<lparr>sys_sem = (ksem_init 0)\<lparr>s_sig := ?sg\<rparr>, sys_pcs = [S_Recv, S_Idle],
      sys_posted = 0, sys_taken = 0\<rparr>"
    using sem_reachable.step [OF s2 sem_step.wait_none [of 0]]
    by (simp add: ksem_init_def ksem_trywait_def)
  show ?thesis
    using sem_reachable.step [OF s3 sem_step.wait_sleep [of 0 _ _ "ksignal_init\<lparr>s_wake := [0]\<rparr>"]]
    by (simp add: ksem_init_def signal_exec)
qed


section \<open>The mutex\<close>

text \<open>Where a task is in \<open>kmutex_lock\<close> (about to compare-and-exchange, about to receive, asleep, holding
  the mutex) or in \<open>kmutex_unlock\<close> (the mutex is free, the send is still to come).\<close>

datatype mpc = M_Idle | M_Try | M_Recv | M_Sleep | M_Hold | M_Send

record mtxsys =
  sys_mutex :: kmutex
  sys_mpcs :: "mpc list"

definition mtxsys_init :: "nat \<Rightarrow> mtxsys" where
  "mtxsys_init n = \<lparr>sys_mutex = kmutex_init, sys_mpcs = replicate n M_Idle\<rparr>"

definition mwake_first :: "task list \<Rightarrow> mpc list \<Rightarrow> mpc list" where
  "mwake_first q pcs = (case q of [] \<Rightarrow> pcs | t # _ \<Rightarrow> pcs[t := M_Try])"

inductive mtx_step :: "mtxsys \<Rightarrow> mtxsys \<Rightarrow> bool" where
  lock_start: "\<lbrakk>i < length pcs; pcs ! i = M_Idle\<rbrakk> \<Longrightarrow>
    mtx_step \<lparr>sys_mutex = m, sys_mpcs = pcs\<rparr> \<lparr>sys_mutex = m, sys_mpcs = pcs[i := M_Try]\<rparr>"
| lock_take: "\<lbrakk>i < length pcs; pcs ! i = M_Try; m_locked m = 0\<rbrakk> \<Longrightarrow>
    mtx_step \<lparr>sys_mutex = m, sys_mpcs = pcs\<rparr>
      \<lparr>sys_mutex = m_locked_set 1 m, sys_mpcs = pcs[i := M_Hold]\<rparr>"
| lock_busy: "\<lbrakk>i < length pcs; pcs ! i = M_Try; m_locked m \<noteq> 0\<rbrakk> \<Longrightarrow>
    mtx_step \<lparr>sys_mutex = m, sys_mpcs = pcs\<rparr> \<lparr>sys_mutex = m, sys_mpcs = pcs[i := M_Recv]\<rparr>"
| lock_sleep: "\<lbrakk>i < length pcs; pcs ! i = M_Recv; ksignal_recv i (m_sig m) = Done (None, sg)\<rbrakk> \<Longrightarrow>
    mtx_step \<lparr>sys_mutex = m, sys_mpcs = pcs\<rparr>
      \<lparr>sys_mutex = m\<lparr>m_sig := sg\<rparr>, sys_mpcs = pcs[i := M_Sleep]\<rparr>"
| unlock_store: "\<lbrakk>i < length pcs; pcs ! i = M_Hold\<rbrakk> \<Longrightarrow>
    mtx_step \<lparr>sys_mutex = m, sys_mpcs = pcs\<rparr>
      \<lparr>sys_mutex = m_locked_set 0 m, sys_mpcs = pcs[i := M_Send]\<rparr>"
| unlock_send: "\<lbrakk>i < length pcs; pcs ! i = M_Send;
    ksignal_sendone (\<lambda>t. KE_OK) (m_sig m) = Done (e, sg)\<rbrakk> \<Longrightarrow>
    mtx_step \<lparr>sys_mutex = m, sys_mpcs = pcs\<rparr>
      \<lparr>sys_mutex = m\<lparr>m_sig := sg\<rparr>,
       sys_mpcs = mwake_first (s_wake (m_sig m)) (pcs[i := M_Idle])\<rparr>"

inductive mtx_reachable :: "nat \<Rightarrow> mtxsys \<Rightarrow> bool" for n where
  start: "mtx_reachable n (mtxsys_init n)"
| step: "mtx_reachable n s \<Longrightarrow> mtx_step s t \<Longrightarrow> mtx_reachable n t"

fun holding :: "mpc \<Rightarrow> nat" where
  "holding M_Hold = 1" | "holding _ = 0"

definition mtx_inv :: "mtxsys \<Rightarrow> bool" where
  "mtx_inv s \<longleftrightarrow> m_locked (sys_mutex s) \<in> {0, 1}
     \<and> weight holding (sys_mpcs s) = unat (m_locked (sys_mutex s))
     \<and> (\<forall>t \<in> set (s_wake (m_sig (sys_mutex s))). t < length (sys_mpcs s) \<and> sys_mpcs s ! t = M_Sleep)
     \<and> distinct (s_wake (m_sig (sys_mutex s)))"

lemma mtx_step_inv:
  assumes "mtx_step s t" and "mtx_inv s"
  shows "mtx_inv t"
  using assms
proof (induction rule: mtx_step.induct)
  case (lock_take i pcs m)
  then show ?case using weight_list_update [of i pcs holding M_Hold]
    by (auto simp: mtx_inv_def mutex_defs nth_list_update)
next
  case (unlock_store i pcs m)
  then show ?case
    using weight_list_update [of i pcs holding M_Send] weight_ge [of i pcs holding]
    by (auto simp: mtx_inv_def mutex_defs nth_list_update)
next
  case (lock_sleep i pcs m sg)
  then have sg: "sig_idle (m_sig m)" "sg = (m_sig m)\<lparr>s_wake := s_wake (m_sig m) @ [i]\<rparr>"
  proof -
    show idle: "sig_idle (m_sig m)" using lock_sleep(3)
      by (auto simp: ksignal_recv_def andthen_Done_iff dest: lock_c_DoneD)
    show "sg = (m_sig m)\<lparr>s_wake := s_wake (m_sig m) @ [i]\<rparr>"
      using lock_sleep(3) recv_idle [OF idle, of i] by (simp split: if_splits)
  qed
  have "i \<notin> set (s_wake (m_sig m))" using lock_sleep by (auto simp: mtx_inv_def)
  then show ?case using lock_sleep sg weight_list_update [of i pcs holding M_Sleep]
    by (auto simp: mtx_inv_def mutex_defs nth_list_update)
next
  case (unlock_send i pcs m e sg)
  have sg: "sg = (m_sig m)\<lparr>s_wake := tl (s_wake (m_sig m))\<rparr>"
    using sendone_DoneD [OF unlock_send(3)] by simp
  have w: "weight holding (pcs[i := M_Idle]) = weight holding pcs"
    using weight_list_update [of i pcs holding M_Idle] unlock_send by simp
  show ?case
  proof (cases "s_wake (m_sig m)")
    case Nil
    then show ?thesis using unlock_send sg w by (auto simp: mtx_inv_def mutex_defs mwake_first_def)
  next
    case (Cons t q)
    have t: "t < length pcs" "pcs ! t = M_Sleep" "t \<noteq> i"
      using unlock_send Cons by (auto simp: mtx_inv_def)
    have "weight holding (pcs[i := M_Idle, t := M_Try]) = weight holding pcs"
      using weight_list_update [of t "pcs[i := M_Idle]" holding M_Try] t w by simp
    then show ?thesis using unlock_send sg Cons t
      by (auto simp: mtx_inv_def mutex_defs mwake_first_def nth_list_update)
  qed
next
  case (lock_start i pcs m)
  then show ?case using weight_list_update [of i pcs holding M_Try]
    by (auto simp: mtx_inv_def nth_list_update)
next
  case (lock_busy i pcs m)
  then show ?case using weight_list_update [of i pcs holding M_Recv]
    by (auto simp: mtx_inv_def nth_list_update)
qed

lemma mtx_reachable_inv:
  assumes "mtx_reachable n s"
  shows "mtx_inv s"
  using assms
proof (induction rule: mtx_reachable.induct)
  case start
  show ?case by (simp add: mtx_inv_def mtxsys_init_def kmutex_init_def mutex_defs signal_exec
      weight_replicate)
next
  case (step s t)
  then show ?case by (blast intro: mtx_step_inv)
qed

text \<open>C14. At most one task holds a mutex, in every reachable state of any number of tasks, and while a
  task holds it the mutex is marked as locked.\<close>

theorem kmutex_mutual_exclusion:
  assumes "mtx_reachable n s" and "i < length (sys_mpcs s)" and "j < length (sys_mpcs s)"
    and "sys_mpcs s ! i = M_Hold" and "sys_mpcs s ! j = M_Hold"
  shows "i = j \<and> kmutex_islocked (sys_mutex s)"
proof -
  have inv: "mtx_inv s" using assms(1) by (rule mtx_reachable_inv)
  then have le: "weight holding (sys_mpcs s) \<le> 1" by (auto simp: mtx_inv_def)
  have "i = j"
  proof (rule ccontr)
    assume "i \<noteq> j"
    then have "weight holding ((sys_mpcs s)[i := M_Idle]) \<ge> 1"
      using weight_ge [of j "(sys_mpcs s)[i := M_Idle]" holding] assms by simp
    then show False
      using weight_list_update [of i "sys_mpcs s" holding M_Idle] assms le by simp
  qed
  moreover have "1 \<le> weight holding (sys_mpcs s)"
    using weight_ge [of i "sys_mpcs s" holding] assms by simp
  ultimately show ?thesis using inv by (auto simp: mtx_inv_def mutex_defs)
qed

lemma mtx_holding_run:
  "mtx_reachable 2 \<lparr>sys_mutex = m_locked_set 1 kmutex_init, sys_mpcs = [M_Hold, M_Idle]\<rparr>"
proof -
  have s0: "mtx_reachable 2 \<lparr>sys_mutex = kmutex_init, sys_mpcs = [M_Idle, M_Idle]\<rparr>"
    using mtx_reachable.start [of 2] by (simp add: mtxsys_init_def numeral_2_eq_2)
  have s1: "mtx_reachable 2 \<lparr>sys_mutex = kmutex_init, sys_mpcs = [M_Try, M_Idle]\<rparr>"
    using mtx_reachable.step [OF s0 mtx_step.lock_start [of 0]] by simp
  show ?thesis using mtx_reachable.step [OF s1 mtx_step.lock_take [of 0]]
    by (simp add: mutex_defs kmutex_init_def signal_exec)
qed

theorem kmutex_mutual_exclusion_witness:
  "(0 :: nat) = 0 \<and> kmutex_islocked (sys_mutex
    \<lparr>sys_mutex = m_locked_set 1 kmutex_init, sys_mpcs = [M_Hold, M_Idle]\<rparr>)"
  by (rule kmutex_mutual_exclusion [OF mtx_holding_run]) simp_all

text \<open>
  C26. A wake-up of the mutex can be lost, because \<open>kmutex_lock\<close> tests the lock before it takes the
  signal's spin lock: the holder may release the mutex and send to an empty queue between the failed
  compare-and-exchange and the receive. Then a task sleeps on a mutex that nobody holds, with no
  send to come.
\<close>

theorem kmutex_lost_wakeup:
  "\<exists>s. mtx_reachable 2 s \<and> sys_mpcs s = [M_Idle, M_Sleep] \<and> \<not> kmutex_islocked (sys_mutex s)"
proof -
  let ?m = "m_locked_set 1 kmutex_init"
  have s1: "mtx_reachable 2 \<lparr>sys_mutex = ?m, sys_mpcs = [M_Hold, M_Try]\<rparr>"
    using mtx_reachable.step [OF mtx_holding_run mtx_step.lock_start [of 1]] by simp
  have s2: "mtx_reachable 2 \<lparr>sys_mutex = ?m, sys_mpcs = [M_Hold, M_Recv]\<rparr>"
    using mtx_reachable.step [OF s1 mtx_step.lock_busy [of 1]] by (simp add: mutex_defs)
  have s3: "mtx_reachable 2 \<lparr>sys_mutex = kmutex_init, sys_mpcs = [M_Send, M_Recv]\<rparr>"
    using mtx_reachable.step [OF s2 mtx_step.unlock_store [of 0]]
    by (simp add: mutex_defs kmutex_init_def signal_exec)
  have s4: "mtx_reachable 2 \<lparr>sys_mutex = kmutex_init, sys_mpcs = [M_Idle, M_Recv]\<rparr>"
    using mtx_reachable.step [OF s3 mtx_step.unlock_send [of 0 _ _ KS_EMPTY ksignal_init]]
    by (simp add: kmutex_init_def signal_exec mwake_first_def)
  have "mtx_reachable 2 \<lparr>sys_mutex = \<lparr>m_sig = ksignal_init\<lparr>s_wake := [1]\<rparr>\<rparr>,
      sys_mpcs = [M_Idle, M_Sleep]\<rparr>"
    using mtx_reachable.step [OF s4 mtx_step.lock_sleep [of 1 _ _ "ksignal_init\<lparr>s_wake := [1]\<rparr>"]]
    by (simp add: kmutex_init_def signal_exec)
  then show ?thesis
    by - (intro exI conjI, assumption, simp_all add: mutex_defs signal_exec)
qed

end
