(* ===== verification/FdMan.thy ===== *)
theory FdMan
  imports Refcount
begin

text \<open>
  File descriptor entries and the descriptor table of a process: \<^verbatim>\<open>include/kos/kernel/fd.h\<close>,
  \<^verbatim>\<open>include/kos/kernel/fdman.h\<close>, \<^verbatim>\<open>src/kernel/fd.c.inl\<close> and \<^verbatim>\<open>src/kernel/fdman.c\<close>.

  The vector \<open>fdm_fdv\<close> is a list; its allocated size \<open>fdm_fda\<close> is the length of that list. Object
  references are counted in a store of reference counts, shared with the rest of the kernel. Copies of entries are
  modelled as in a release build.
\<close>

section \<open>Descriptor entries\<close>

abbreviation KFDTYPE_NONE :: u16 where "KFDTYPE_NONE \<equiv> 0"
abbreviation KFDTYPE_FILE :: u16 where "KFDTYPE_FILE \<equiv> 1"
abbreviation KFDTYPE_TASK :: u16 where "KFDTYPE_TASK \<equiv> 2"
abbreviation KFDTYPE_PROC :: u16 where "KFDTYPE_PROC \<equiv> 3"
abbreviation KFDTYPE_INODE :: u16 where "KFDTYPE_INODE \<equiv> 4"
abbreviation KFDTYPE_DIRENT :: u16 where "KFDTYPE_DIRENT \<equiv> 5"
abbreviation KFDTYPE_DEVICE :: u16 where "KFDTYPE_DEVICE \<equiv> 6"

abbreviation FD_CLOEXEC :: u16 where "FD_CLOEXEC \<equiv> 1"

record kfdentry =
  fd_type :: u16
  fd_flag :: u16
  fd_data :: addr

definition kfdentry_init :: kfdentry where
  "kfdentry_init = \<lparr>fd_type = KFDTYPE_NONE, fd_flag = 0, fd_data = 0\<rparr>"

text \<open>All six kinds of resource have their own, identical instance of the reference count macros.\<close>

definition fd_counted :: "kfdentry \<Rightarrow> bool" where
  "fd_counted e \<longleftrightarrow> fd_type e \<in> {KFDTYPE_FILE, KFDTYPE_TASK, KFDTYPE_PROC, KFDTYPE_INODE,
     KFDTYPE_DIRENT, KFDTYPE_DEVICE}"

definition kfdentry_initcopyself :: "refstore \<Rightarrow> kfdentry \<Rightarrow> kerrno \<times> refstore" where
  "kfdentry_initcopyself rs e = (if fd_counted e then kobject_incref rs (fd_data e) else (KE_OK, rs))"

definition kfdentry_initcopy :: "refstore \<Rightarrow> kfdentry \<Rightarrow> kerrno \<times> kfdentry \<times> refstore" where
  "kfdentry_initcopy rs right = (let (e, rs) = kfdentry_initcopyself rs right in (e, right, rs))"

definition kfdentry_quit :: "refstore \<Rightarrow> kfdentry \<Rightarrow> refstore" where
  "kfdentry_quit rs e = (if fd_counted e then snd (kobject_decref rs (fd_data e)) else rs)"

section \<open>The descriptor table\<close>

record kfdman =
  fdm_cnt :: u32
  fdm_max :: u32
  fdm_fre :: u32
  fdm_fdv :: "kfdentry list"
  fdm_root :: kfdentry
  fdm_cwd :: kfdentry

definition fdm_fda :: "kfdman \<Rightarrow> nat" where
  "fdm_fda m = length (fdm_fdv m)"

definition kfdman_init :: "u32 \<Rightarrow> kfdman" where
  "kfdman_init fd_max = \<lparr>fdm_cnt = 0, fdm_max = fd_max, fdm_fre = 0, fdm_fdv = [],
     fdm_root = kfdentry_init, fdm_cwd = kfdentry_init\<rparr>"

text \<open>Both loops over the vector: dropping every reference, and taking one for every used entry. The
  second reports the number of entries it got through.\<close>

primrec kfdman_quit_vec :: "refstore \<Rightarrow> kfdentry list \<Rightarrow> refstore" where
  "kfdman_quit_vec rs [] = rs"
| "kfdman_quit_vec rs (e # es) = kfdman_quit_vec (kfdentry_quit rs e) es"

definition kfdman_quit :: "refstore \<Rightarrow> kfdman \<Rightarrow> refstore" where
  "kfdman_quit rs m =
     kfdentry_quit (kfdentry_quit (kfdman_quit_vec rs (fdm_fdv m)) (fdm_root m)) (fdm_cwd m)"

fun kfdman_copy_vec :: "refstore \<Rightarrow> kfdentry list \<Rightarrow> kerrno \<times> nat \<times> refstore" where
  "kfdman_copy_vec rs [] = (KE_OK, 0, rs)"
| "kfdman_copy_vec rs (e # es) =
     (if fd_type e \<noteq> KFDTYPE_NONE then
        (case kfdentry_initcopyself rs e of
           (err, rs') \<Rightarrow> if KE_ISERR err then (err, 0, rs')
             else (case kfdman_copy_vec rs' es of (err, n, rs) \<Rightarrow> (err, Suc n, rs)))
      else (case kfdman_copy_vec rs es of (err, n, rs) \<Rightarrow> (err, Suc n, rs)))"

text \<open>\<open>err_iter\<close>: drop the references of the entries below \<open>iter\<close>, from the last one down.\<close>

definition kfdman_initcopy_undo :: "refstore \<Rightarrow> kfdentry list \<Rightarrow> nat \<Rightarrow> refstore" where
  "kfdman_initcopy_undo rs fdv iter =
     kfdman_quit_vec rs (rev (filter (\<lambda>e. fd_type e \<noteq> KFDTYPE_NONE) (take iter fdv)))"

definition kfdman_initcopy ::
  "bool \<Rightarrow> refstore \<Rightarrow> kfdman \<Rightarrow> kerrno \<times> kfdman option \<times> refstore" where
  "kfdman_initcopy mem rs right =
     (let used = fdm_cnt right \<noteq> 0; fdv = (if used then fdm_fdv right else []) in
      if used \<and> \<not> mem then (KE_NOMEM, None, rs)
      else case kfdman_copy_vec rs fdv of
        (error, iter, rs) \<Rightarrow>
          if KE_ISERR error then (error, None, kfdman_initcopy_undo rs fdv iter)
          else case kfdentry_initcopy rs (fdm_root right) of
            (error, root, rs) \<Rightarrow>
              if KE_ISERR error then (error, None, kfdman_initcopy_undo rs fdv (length fdv))
              else case kfdentry_initcopy rs (fdm_cwd right) of
                (error, cwd, rs) \<Rightarrow>
                  if KE_ISERR error
                  then (error, None, kfdman_initcopy_undo (kfdentry_quit rs root) fdv (length fdv))
                  else (KE_OK, Some \<lparr>fdm_cnt = fdm_cnt right, fdm_max = fdm_max right,
                     fdm_fre = (if used then fdm_fre right else 0), fdm_fdv = fdv,
                     fdm_root = root, fdm_cwd = cwd\<rparr>, rs))"

text \<open>The special descriptors of \<^verbatim>\<open>include/kos/fd.h\<close>.\<close>

definition KFD_INTERNAL :: "int \<Rightarrow> int \<Rightarrow> int \<Rightarrow> int \<Rightarrow> int" where
  "KFD_INTERNAL a b c d = - (push_bit 21 a OR push_bit 13 b OR push_bit 7 c OR d)"

definition KFD_ROOT :: int where "KFD_ROOT = KFD_INTERNAL 82 48 48 84"
definition KFD_CWD :: int where "KFD_CWD = - 100"
definition KFD_TASKSELF :: int where "KFD_TASKSELF = KFD_INTERNAL 84 65 83 75"
definition KFD_TASKROOT :: int where "KFD_TASKROOT = KFD_INTERNAL 84 82 79 84"
definition KFD_PROCSELF :: int where "KFD_PROCSELF = KFD_INTERNAL 80 82 79 67"

text \<open>A pointer to an entry of the table: one of the special slots, or an index of the vector.\<close>

datatype fdslot = Slot_Root | Slot_Cwd | Slot_Vec nat

definition kfdman_specialslot :: "kfdman \<Rightarrow> int \<Rightarrow> fdslot option" where
  "kfdman_specialslot m fd =
     (if fd = KFD_ROOT then Some Slot_Root else if fd = KFD_CWD then Some Slot_Cwd else None)"

definition kfdman_slot :: "kfdman \<Rightarrow> int \<Rightarrow> fdslot option" where
  "kfdman_slot m fd =
     (if fd < 0 then kfdman_specialslot m fd
      else if nat fd \<ge> fdm_fda m then None else Some (Slot_Vec (nat fd)))"

definition slot_get :: "kfdman \<Rightarrow> fdslot \<Rightarrow> kfdentry" where
  "slot_get m s = (case s of Slot_Root \<Rightarrow> fdm_root m | Slot_Cwd \<Rightarrow> fdm_cwd m
     | Slot_Vec i \<Rightarrow> fdm_fdv m ! i)"

definition slot_set :: "kfdman \<Rightarrow> fdslot \<Rightarrow> kfdentry \<Rightarrow> kfdman" where
  "slot_set m s e = (case s of Slot_Root \<Rightarrow> m\<lparr>fdm_root := e\<rparr> | Slot_Cwd \<Rightarrow> m\<lparr>fdm_cwd := e\<rparr>
     | Slot_Vec i \<Rightarrow> m\<lparr>fdm_fdv := (fdm_fdv m)[i := e]\<rparr>)"

definition kfdman_withfd ::
  "kfdman \<Rightarrow> int \<Rightarrow> (kfdentry \<Rightarrow> kerrno \<times> 'a \<times> kfdentry) \<Rightarrow> kerrno \<times> 'a option \<times> kfdman" where
  "kfdman_withfd m fd callback =
     (if fd < 0 then (KE_BADF, None, m)
      else if nat fd < fdm_fda m then
        if fd_type (fdm_fdv m ! nat fd) \<noteq> KFDTYPE_NONE then
          (case callback (fdm_fdv m ! nat fd) of
             (err, x, e) \<Rightarrow> (err, Some x, m\<lparr>fdm_fdv := (fdm_fdv m)[nat fd := e]\<rparr>))
        else (KE_BADF, None, m)
      else (KE_BADF, None, m))"

definition kfdman_getflags :: "kfdman \<Rightarrow> int \<Rightarrow> kerrno \<times> u16 option \<times> kfdman" where
  "kfdman_getflags m fd = kfdman_withfd m fd (\<lambda>e. (KE_OK, fd_flag e, e))"

definition kfdman_setflags :: "kfdman \<Rightarrow> int \<Rightarrow> u16 \<Rightarrow> kerrno \<times> unit option \<times> kfdman" where
  "kfdman_setflags m fd flags = kfdman_withfd m fd (\<lambda>e. (KE_OK, (), e\<lparr>fd_flag := flags\<rparr>))"

definition kfdman_addflags :: "kfdman \<Rightarrow> int \<Rightarrow> u16 \<Rightarrow> kerrno \<times> unit option \<times> kfdman" where
  "kfdman_addflags m fd flags =
     kfdman_withfd m fd (\<lambda>e. (KE_OK, (), e\<lparr>fd_flag := fd_flag e OR flags\<rparr>))"

definition kfdman_delflags :: "kfdman \<Rightarrow> int \<Rightarrow> u16 \<Rightarrow> kerrno \<times> unit option \<times> kfdman" where
  "kfdman_delflags m fd flags =
     kfdman_withfd m fd (\<lambda>e. (KE_OK, (), e\<lparr>fd_flag := fd_flag e AND NOT flags\<rparr>))"

section \<open>Reference accounting\<close>

definition refs_of :: "kfdentry list \<Rightarrow> addr \<Rightarrow> nat" where
  "refs_of es a = count_if (\<lambda>e. fd_counted e \<and> fd_data e = a) es"

definition all_entries :: "kfdman \<Rightarrow> kfdentry list" where
  "all_entries m = fdm_fdv m @ [fdm_root m, fdm_cwd m]"

lemma refs_of_simps [simp]:
  "refs_of [] a = 0"
  "refs_of (e # es) a = (if fd_counted e \<and> fd_data e = a then 1 else 0) + refs_of es a"
  "refs_of (es @ fs) a = refs_of es a + refs_of fs a"
  by (simp_all add: refs_of_def)

lemma refs_of_rev [simp]: "refs_of (rev es) a = refs_of es a"
  by (induction es) simp_all

lemma fd_counted_used: "fd_counted e \<Longrightarrow> fd_type e \<noteq> KFDTYPE_NONE"
  by (auto simp: fd_counted_def)

lemma refs_of_filter_used [simp]:
  "refs_of (filter (\<lambda>e. fd_type e \<noteq> KFDTYPE_NONE) es) a = refs_of es a"
  by (induction es) (auto dest: fd_counted_used)

lemma quit_at: "kfdentry_quit rs e a = rs a - (if fd_counted e \<and> fd_data e = a then 1 else 0)"
  by (simp add: kfdentry_quit_def kobject_decref_def)

lemma quit_vec_at: "kfdman_quit_vec rs es a = rs a - of_nat (refs_of es a)"
  by (induction es arbitrary: rs) (auto simp: quit_at)

lemma kfdman_quit_at: "kfdman_quit rs m a = rs a - of_nat (refs_of (all_entries m) a)"
  by (simp add: kfdman_quit_def quit_at quit_vec_at all_entries_def)

lemma undo_at: "kfdman_initcopy_undo rs fdv i a = rs a - of_nat (refs_of (take i fdv) a)"
  by (simp add: kfdman_initcopy_undo_def quit_vec_at)

lemma initcopyself_cases:
  assumes "kfdentry_initcopyself rs e = (err, rs')"
  shows "(err = KE_OK \<and> (\<forall>a. unat (rs' a) = unat (rs a) + refs_of [e] a)) \<or>
    (err = KE_OVERFLOW \<and> rs' = rs)"
  using assms
  by (auto simp: kfdentry_initcopyself_def kobject_incref_def unat_word_Suc split: if_splits)

lemma copy_vec_cases:
  assumes "kfdman_copy_vec rs es = (err, n, rs')"
  shows "n \<le> length es \<and> (\<forall>a. unat (rs' a) = unat (rs a) + refs_of (take n es) a)
    \<and> (err = KE_OK \<and> n = length es \<or> err = KE_OVERFLOW)"
  using assms
proof (induction es arbitrary: rs n err rs')
  case Nil
  then show ?case by simp
next
  case (Cons e es)
  show ?case
  proof (cases "fd_type e \<noteq> KFDTYPE_NONE")
    case True
    obtain err1 rs1 where one: "kfdentry_initcopyself rs e = (err1, rs1)" by force
    show ?thesis
    proof (cases "KE_ISERR err1")
      case True
      then show ?thesis using Cons.prems one initcopyself_cases [OF one] \<open>fd_type e \<noteq> KFDTYPE_NONE\<close>
        by auto
    next
      case False
      obtain err2 m rs2 where rest: "kfdman_copy_vec rs1 es = (err2, m, rs2)"
        by (cases "kfdman_copy_vec rs1 es")
      have "\<forall>a. unat (rs1 a) = unat (rs a) + refs_of [e] a"
        using initcopyself_cases [OF one] False by auto
      then show ?thesis using Cons.prems one False \<open>fd_type e \<noteq> KFDTYPE_NONE\<close> rest Cons.IH [OF rest]
        by auto
    qed
  next
    case False
    obtain err2 m rs2 where rest: "kfdman_copy_vec rs es = (err2, m, rs2)"
      by (cases "kfdman_copy_vec rs es")
    then show ?thesis using Cons.prems False Cons.IH [OF rest] by (auto simp: fd_counted_def)
  qed
qed

lemma unat_add_refs:
  assumes "\<forall>a. unat ((rs' :: refstore) a) = unat (rs a) + c a"
  shows "rs' a - of_nat (c a) = rs a"
proof -
  have "rs' a = of_nat (unat (rs a) + c a)" using assms by (metis of_nat_unat ucast_id)
  then show ?thesis by simp
qed

lemma undo_restores:
  assumes "\<forall>a. unat (rs' a) = unat (rs a) + refs_of (take i fdv) a"
  shows "kfdman_initcopy_undo rs' fdv i = rs"
  using unat_add_refs [of rs' rs "refs_of (take i fdv)"] assms by (auto simp: undo_at)

lemma quit_restores:
  assumes "\<forall>a. unat (rs' a) = unat (rs a) + refs_of [e] a"
  shows "kfdentry_quit rs' e = rs"
proof
  fix a
  have "kfdentry_quit rs' e a = rs' a - of_nat (refs_of [e] a)" by (simp add: quit_at)
  also have "\<dots> = rs a" using unat_add_refs [OF assms] .
  finally show "kfdentry_quit rs' e a = rs a" .
qed

text \<open>
  C15. Copying a descriptor table (for \<open>fork\<close>) is exact in its references and leaves nothing behind
  when it fails: on success the new table has the entries of the old one and every object gained
  exactly one reference for each entry that refers to it; on failure (no memory, or the overflow of
  some reference counter, at whichever entry it happens) all counters are as before. Destroying
  the copy gives every reference back.
\<close>

theorem kfdman_initcopy_exact:
  assumes "kfdman_initcopy mem rs right = (e, res, rs')"
  shows "(e = KE_OK \<and> (\<exists>copy. res = Some copy \<and> fdm_max copy = fdm_max right
      \<and> fdm_cnt copy = fdm_cnt right
      \<and> all_entries copy = (if fdm_cnt right = 0 then [] else fdm_fdv right)
          @ [fdm_root right, fdm_cwd right]
      \<and> (\<forall>a. unat (rs' a) = unat (rs a) + refs_of (all_entries copy) a)
      \<and> kfdman_quit rs' copy = rs))
    \<or> (e \<in> {KE_NOMEM, KE_OVERFLOW} \<and> res = None \<and> rs' = rs)"
proof (cases "fdm_cnt right \<noteq> 0 \<and> \<not> mem")
  case True
  then show ?thesis using assms by (auto simp: kfdman_initcopy_def)
next
  case False
  define fdv where "fdv = (if fdm_cnt right \<noteq> 0 then fdm_fdv right else [])"
  obtain e1 n rs1 where vec: "kfdman_copy_vec rs fdv = (e1, n, rs1)"
    by (cases "kfdman_copy_vec rs fdv")
  note vec' = copy_vec_cases [OF vec]
  obtain e2 rs2 where root: "kfdentry_initcopyself rs1 (fdm_root right) = (e2, rs2)" by force
  note root' = initcopyself_cases [OF root]
  obtain e3 rs3 where cwd: "kfdentry_initcopyself rs2 (fdm_cwd right) = (e3, rs3)" by force
  note cwd' = initcopyself_cases [OF cwd]
  note run = assms [unfolded kfdman_initcopy_def kfdentry_initcopy_def Let_def fdv_def [symmetric]]
  consider "e1 \<noteq> KE_OK" | "e1 = KE_OK" "e2 \<noteq> KE_OK" | "e1 = KE_OK" "e2 = KE_OK" "e3 \<noteq> KE_OK"
    | "e1 = KE_OK" "e2 = KE_OK" "e3 = KE_OK" by blast
  then show ?thesis
  proof cases
    case 1
    then show ?thesis using run False vec vec' undo_restores [of rs1 rs n fdv] by auto
  next
    case 2
    then have "rs2 = rs1" using root' by auto
    then show ?thesis using 2 run False vec vec' root root' undo_restores [of rs1 rs n fdv] by auto
  next
    case 3
    have "kfdentry_quit rs2 (fdm_root right) = rs1"
      by (rule quit_restores) (use root' 3 in auto)
    then show ?thesis
      using 3 run False vec vec' root cwd cwd' undo_restores [of rs1 rs n fdv] by auto
  next
    case 4
    define copy where "copy = \<lparr>fdm_cnt = fdm_cnt right, fdm_max = fdm_max right,
      fdm_fre = (if fdm_cnt right \<noteq> 0 then fdm_fre right else 0), fdm_fdv = fdv,
      fdm_root = fdm_root right, fdm_cwd = fdm_cwd right\<rparr>"
    have res: "e = KE_OK" "res = Some copy" "rs' = rs3"
      using 4 run False vec root cwd by (auto simp: copy_def)
    have all: "\<forall>a. unat (rs3 a) = unat (rs a) + refs_of (all_entries copy) a"
      using 4 vec' root' cwd' by (auto simp: copy_def all_entries_def)
    then have "kfdman_quit rs3 copy = rs" by (auto simp: kfdman_quit_at unat_add_refs)
    then show ?thesis using res all by (auto simp: copy_def all_entries_def fdv_def)
  qed
qed

text \<open>A table with two descriptors of object 5, one free slot and no root; object 5 has 3 references.\<close>

definition fdman_example :: kfdman where
  "fdman_example = \<lparr>fdm_cnt = 2, fdm_max = 8, fdm_fre = 2,
     fdm_fdv = [\<lparr>fd_type = KFDTYPE_FILE, fd_flag = 0, fd_data = 5\<rparr>, kfdentry_init,
       \<lparr>fd_type = KFDTYPE_FILE, fd_flag = FD_CLOEXEC, fd_data = 5\<rparr>],
     fdm_root = kfdentry_init, fdm_cwd = kfdentry_init\<rparr>"

theorem kfdman_initcopy_exact_witness:
  "\<exists>copy. kfdman_initcopy True (\<lambda>a. 3) fdman_example = (KE_OK, Some copy, (\<lambda>a. 3)(5 := 5))
    \<and> kfdman_quit ((\<lambda>a. 3)(5 := 5)) copy = (\<lambda>a. 3)"
proof -
  have "\<exists>res. kfdman_initcopy True (\<lambda>a. 3) fdman_example = (KE_OK, res, (\<lambda>a. 3)(5 := 5))"
    by (simp add: kfdman_initcopy_def fdman_example_def kfdentry_initcopyself_def
        kfdentry_initcopy_def kfdentry_init_def fd_counted_def kobject_incref_def)
  then show ?thesis using kfdman_initcopy_exact [of True "\<lambda>a. 3" fdman_example KE_OK] by auto
qed

end
