(* ===== verification/VarStore.thy ===== *)
theory VarStore
  imports Prelude
begin

text \<open>
  The contract of a component that keeps a table of named values behind operations that may fail:
  what a client can rely on for a lookup after any sequence of updates and removals.
\<close>

datatype ('k, 'v) store_op = Put 'k 'v | Del 'k

text \<open>Run a sequence of operations; the result has the error code of each of them.\<close>

primrec store_run ::
  "('s \<Rightarrow> 'k \<Rightarrow> 'v \<Rightarrow> kerrno \<times> 's) \<Rightarrow> ('s \<Rightarrow> 'k \<Rightarrow> kerrno \<times> 's) \<Rightarrow> 's \<Rightarrow> ('k, 'v) store_op list
    \<Rightarrow> kerrno list \<times> 's" where
  "store_run put del s [] = ([], s)"
| "store_run put del s (x # xs) =
     (case (case x of Put k v \<Rightarrow> put s k v | Del k \<Rightarrow> del s k) of
        (e, s') \<Rightarrow> (case store_run put del s' xs of (es, t) \<Rightarrow> (e # es, t)))"

text \<open>The specification: a finite map, updated by the operations that report success.\<close>

fun store_spec :: "('k \<rightharpoonup> 'v) \<Rightarrow> (('k, 'v) store_op \<times> kerrno) list \<Rightarrow> ('k \<rightharpoonup> 'v)" where
  "store_spec m [] = m"
| "store_spec m ((Put k v, e) # xs) = store_spec (if KE_ISOK e then m(k \<mapsto> v) else m) xs"
| "store_spec m ((Del k, e) # xs) = store_spec (m(k := None)) xs"

locale var_store =
  fixes ok :: "'s \<Rightarrow> bool" and key :: "'k \<Rightarrow> bool" and val :: "'v \<Rightarrow> bool"
    and lookup :: "'s \<Rightarrow> 'k \<Rightarrow> 'v option"
    and put :: "'s \<Rightarrow> 'k \<Rightarrow> 'v \<Rightarrow> kerrno \<times> 's" and del :: "'s \<Rightarrow> 'k \<Rightarrow> kerrno \<times> 's"
  assumes put_law: "ok s \<Longrightarrow> key k \<Longrightarrow> val v \<Longrightarrow> put s k v = (e, s') \<Longrightarrow>
      ok s' \<and> (if KE_ISOK e then lookup s' = (lookup s)(k \<mapsto> v) else s' = s)"
    and del_law: "ok s \<Longrightarrow> key k \<Longrightarrow> del s k = (e, s') \<Longrightarrow>
      ok s' \<and> lookup s' = (lookup s)(k := None) \<and> (KE_ISOK e \<longleftrightarrow> lookup s k \<noteq> None)"
begin

lemma put_lookup_same:
  "ok s \<Longrightarrow> key k \<Longrightarrow> val v \<Longrightarrow> put s k v = (e, s') \<Longrightarrow> KE_ISOK e \<Longrightarrow> lookup s' k = Some v"
  using put_law [of s k v e s'] by simp

lemma put_lookup_other:
  "ok s \<Longrightarrow> key k \<Longrightarrow> val v \<Longrightarrow> put s k v = (e, s') \<Longrightarrow> k' \<noteq> k \<Longrightarrow> lookup s' k' = lookup s k'"
  using put_law [of s k v e s'] by (auto split: if_splits)

lemma run_refines:
  assumes "ok s" and "\<forall>x \<in> set ops. case x of Put k v \<Rightarrow> key k \<and> val v | Del k \<Rightarrow> key k"
    and "store_run put del s ops = (es, t)"
  shows "ok t \<and> length es = length ops \<and> lookup t = store_spec (lookup s) (zip ops es)"
  using assms
proof (induction ops arbitrary: s es)
  case Nil
  then show ?case by simp
next
  case (Cons x ops)
  obtain e s' where one: "(case x of Put k v \<Rightarrow> put s k v | Del k \<Rightarrow> del s k) = (e, s')" by force
  obtain es' where rest: "store_run put del s' ops = (es', t)" and es: "es = e # es'"
    using Cons.prems(3) one by (auto split: prod.splits)
  have law: "ok s' \<and> lookup s' = store_spec (lookup s) [(x, e)]"
  proof (cases x)
    case (Put k v)
    then show ?thesis using one Cons.prems put_law [of s k v e s'] by (auto split: if_splits)
  next
    case (Del k)
    then show ?thesis using one Cons.prems del_law [of s k e s'] by auto
  qed
  have "store_spec (lookup s) ((x, e) # zip ops es') = store_spec (lookup s') (zip ops es')"
    using law by (cases x) auto
  then show ?case using Cons.IH [of s' es'] law rest es Cons.prems(2) by simp
qed

end

end
