(* ===== verification/FdOps.thy ===== *)
theory FdOps
  imports FdMan VarStore
begin

text \<open>
  What the descriptor operations of \<^verbatim>\<open>src/kernel/sched/proc-fdman.c.inl\<close> do to the descriptor table
  while they hold \<open>KPROC_LOCK_FDMAN\<close>. Theory \<open>Proc\<close> wraps them in the lock and drops the references of
  entries that were replaced or closed.

  \<open>debug\<close> says whether the kernel is built with \<open>__DEBUG__\<close>, the one place where that changes what the
  code does to its data: \<open>kproc_closefd\<close> then also clears the pointer of the closed slot. \<open>mem\<close> says
  whether the allocation the operation makes succeeds.
\<close>

section \<open>Operations\<close>

definition fd_used :: "kfdentry \<Rightarrow> bool" where
  "fd_used e \<longleftrightarrow> fd_type e \<noteq> KFDTYPE_NONE"

text \<open>Shrink the vector to its last used entry.\<close>

definition kproc_free_unused_fd_memory :: "bool \<Rightarrow> kfdman \<Rightarrow> kfdman" where
  "kproc_free_unused_fd_memory mem m =
     (let fdv = rev (dropWhile (\<lambda>e. fd_type e = KFDTYPE_NONE) (rev (fdm_fdv m))) in
      if length fdv \<noteq> fdm_fda m then
        if fdv \<noteq> [] then (if mem then m\<lparr>fdm_fdv := fdv\<rparr> else m) else m\<lparr>fdm_fdv := []\<rparr>
      else m)"

definition closefd_core ::
  "bool \<Rightarrow> bool \<Rightarrow> kfdman \<Rightarrow> int \<Rightarrow> kerrno \<times> kfdentry option \<times> kfdman" where
  "closefd_core debug mem m fd =
     (case kfdman_slot m fd of
        None \<Rightarrow> (KE_BADF, None, m)
      | Some s \<Rightarrow>
          let slot = slot_get m s in
          if fd_type slot = KFDTYPE_NONE then (KE_BADF, None, m)
          else
            let cleared = slot\<lparr>fd_type := KFDTYPE_NONE, fd_data := (if debug then 0 else fd_data slot)\<rparr>;
                m = slot_set (m\<lparr>fdm_cnt := fdm_cnt m - 1\<rparr>) s cleared
            in (KE_OK, Some slot, kproc_free_unused_fd_memory mem m))"

text \<open>The macro \<open>CLOSE\<close> of \<open>kproc_closeall\<close>, and its loop over \<open>n\<close> indices from \<open>i\<close>. The result has
  the closed entries in order.\<close>

definition closeall_CLOSE :: "kfdman \<Rightarrow> fdslot \<Rightarrow> kfdentry list \<times> kfdman" where
  "closeall_CLOSE m s =
     (let slot = slot_get m s in
      if fd_type slot \<noteq> KFDTYPE_NONE
      then ([slot], (slot_set m s (slot\<lparr>fd_type := KFDTYPE_NONE\<rparr>))\<lparr>fdm_cnt := fdm_cnt m - 1\<rparr>)
      else ([], m))"

fun closeall_loop :: "kfdman \<Rightarrow> nat \<Rightarrow> nat \<Rightarrow> (kfdentry list \<times> kfdman) outcome" where
  "closeall_loop m i 0 = Done ([], m)"
| "closeall_loop m i (Suc n) =
     (if i < fdm_fda m
      then let (c, m) = closeall_CLOSE m (Slot_Vec i) in
        andthen (closeall_loop m (Suc i) n) (\<lambda>(cs, m). Done (c @ cs, m))
      else Fault)"

text \<open>\<open>min(high, fdm_fda-1)+1u\<close>: with an empty table the subtraction wraps around, so that \<open>high\<close> is
  the minimum.\<close>

definition closeall_end :: "kfdman \<Rightarrow> int \<Rightarrow> nat" where
  "closeall_end m high =
     min (nat high) (if fdm_fda m = 0 then 2 ^ 32 - 1 else fdm_fda m - 1) + 1"

definition closeall_core ::
  "bool \<Rightarrow> kfdman \<Rightarrow> int \<Rightarrow> int \<Rightarrow> (kfdentry list \<times> kfdman) outcome" where
  "closeall_core mem m low high =
     (if high < low then Done ([], m)
      else andthen
        (if high \<ge> 0 then
           let start = nat (max 0 low); end_fd = closeall_end m high in
           if end_fd < start then Fault
           else andthen (closeall_loop m start (end_fd - start))
             (\<lambda>(cs, m). Done (cs, if cs \<noteq> [] then kproc_free_unused_fd_memory mem m else m))
         else Done ([], m))
        (\<lambda>(cs, m).
          let (c1, m) = (if low \<le> KFD_ROOT \<and> KFD_ROOT \<le> high then closeall_CLOSE m Slot_Root else ([], m));
              (c2, m) = (if low \<le> KFD_CWD \<and> KFD_CWD \<le> high then closeall_CLOSE m Slot_Cwd else ([], m))
          in Done (cs @ c1 @ c2, m)))"

text \<open>The search for a free slot of \<open>kproc_insfd_inherited\<close> goes round until it finds a slot whose
  pointer is \<open>NULL\<close>; without such a slot it never ends.\<close>

partial_function (option) insfd_search :: "kfdentry list \<Rightarrow> nat \<Rightarrow> nat option" where
  "insfd_search fdv fre =
     (let fre = (if fre \<ge> length fdv then 0 else fre) in
      if fd_data (fdv ! fre) = 0 then Some fre else insfd_search fdv (fre + 1))"

text \<open>When \<open>fdm_max\<close> was lowered below the size of a full table, the new size is smaller than the
  old one: the new slots are cleared and written outside the vector.\<close>

definition insfd_core ::
  "bool \<Rightarrow> kfdman \<Rightarrow> kfdentry \<Rightarrow> (kerrno \<times> int option \<times> kfdman) outcome" where
  "insfd_core mem m entry =
     (if unat (fdm_cnt m) \<noteq> fdm_fda m then
        (case insfd_search (fdm_fdv m) (unat (fdm_fre m)) of
           None \<Rightarrow> Blocked
         | Some i \<Rightarrow> Done (KE_OK, Some (int i), m\<lparr>fdm_fre := of_nat i, fdm_cnt := fdm_cnt m + 1,
             fdm_fdv := (fdm_fdv m)[i := entry]\<rparr>))
      else if fdm_cnt m = fdm_max m then Done (KE_MFILE, None, m)
      else
        let fda = fdm_fda m; newalloc = (if fda \<noteq> 0 then fda * 2 else 2);
            newalloc = (if newalloc > unat (fdm_max m) then unat (fdm_max m) else newalloc)
        in if \<not> mem then Done (KE_NOMEM, None, m)
        else if newalloc \<le> fda then Fault
        else Done (KE_OK, Some (int fda), m\<lparr>fdm_fre := of_nat fda + 1, fdm_cnt := fdm_cnt m + 1,
          fdm_fdv := (fdm_fdv m @ replicate (newalloc - fda) kfdentry_init)[fda := entry]\<rparr>))"

text \<open>The second component is the entry that was replaced, whose reference is dropped.\<close>

definition insfdat_core ::
  "bool \<Rightarrow> kfdman \<Rightarrow> int \<Rightarrow> kfdentry \<Rightarrow> kerrno \<times> kfdentry option \<times> kfdman" where
  "insfdat_core mem m fd entry =
     (if fd < 0 then
        (case kfdman_specialslot m fd of
           None \<Rightarrow> (KE_BADF, None, m)
         | Some s \<Rightarrow>
             let oldfd = slot_get m s; m = slot_set m s entry in
             if fd_type oldfd \<noteq> KFDTYPE_NONE then (KS_FOUND, Some oldfd, m) else (KE_OK, None, m))
      else if nat fd \<ge> unat (fdm_max m) then (KE_MFILE, None, m)
      else if nat fd < fdm_fda m then
        let oldfd = fdm_fdv m ! nat fd; fdv = (fdm_fdv m)[nat fd := entry] in
        if fd_data oldfd \<noteq> 0 then (KS_FOUND, Some oldfd, m\<lparr>fdm_fdv := fdv\<rparr>)
        else (KE_OK, None, m\<lparr>fdm_cnt := fdm_cnt m + 1, fdm_fdv := fdv\<rparr>)
      else if \<not> mem then (KE_NOMEM, None, m)
      else (KE_OK, None, m\<lparr>fdm_cnt := fdm_cnt m + 1,
        fdm_fdv := fdm_fdv m @ replicate (nat fd - fdm_fda m) kfdentry_init @ [entry]\<rparr>))"

definition insfdh_core ::
  "bool \<Rightarrow> kfdman \<Rightarrow> int \<Rightarrow> kfdentry \<Rightarrow> kerrno \<times> int option \<times> kfdman" where
  "insfdh_core mem m hint entry =
     (let hint = nat (max 0 hint) in
      case find (\<lambda>i. fd_type (fdm_fdv m ! i) = KFDTYPE_NONE) [hint..<fdm_fda m] of
        Some i \<Rightarrow> (KE_OK, Some (int i), m\<lparr>fdm_cnt := fdm_cnt m + 1, fdm_fdv := (fdm_fdv m)[i := entry]\<rparr>)
      | None \<Rightarrow>
          let hint = fdm_fda m in
          if hint \<ge> unat (fdm_max m) then (KE_MFILE, None, m)
          else if \<not> mem then (KE_NOMEM, None, m)
          else (KE_OK, Some (int hint),
            m\<lparr>fdm_cnt := fdm_cnt m + 1, fdm_fdv := fdm_fdv m @ [entry]\<rparr>))"

section \<open>The table as a map from descriptors to entries\<close>

definition fd_inv :: "kfdman \<Rightarrow> bool" where
  "fd_inv m \<longleftrightarrow> unat (fdm_cnt m) = count_if fd_used (fdm_fdv m)
     \<and> (\<forall>e \<in> set (fdm_fdv m). fd_used e \<longleftrightarrow> fd_data e \<noteq> 0)
     \<and> fdm_fda m \<le> unat (fdm_max m) \<and> unat (fdm_max m) < 2 ^ 31"

definition fd_entry_ok :: "kfdentry \<Rightarrow> bool" where
  "fd_entry_ok e \<longleftrightarrow> fd_used e \<and> fd_data e \<noteq> 0"

definition vec_lookup :: "kfdentry list \<Rightarrow> nat \<Rightarrow> kfdentry option" where
  "vec_lookup fdv i = (if i < length fdv \<and> fd_used (fdv ! i) then Some (fdv ! i) else None)"

definition fd_lookup :: "kfdman \<Rightarrow> int \<Rightarrow> kfdentry option" where
  "fd_lookup m fd =
     (if fd \<ge> 0 then vec_lookup (fdm_fdv m) (nat fd)
      else if fd = KFD_ROOT \<and> fd_used (fdm_root m) then Some (fdm_root m)
      else if fd = KFD_CWD \<and> fd_used (fdm_cwd m) then Some (fdm_cwd m) else None)"

lemma vec_lookup_update:
  assumes "i < length fdv" and "fd_used e"
  shows "vec_lookup (fdv[i := e]) = (vec_lookup fdv)(i \<mapsto> e)"
  using assms by (auto simp: vec_lookup_def fun_eq_iff nth_list_update)

lemma vec_lookup_clear:
  assumes "i < length fdv" and "\<not> fd_used e"
  shows "vec_lookup (fdv[i := e]) = (vec_lookup fdv)(i := None)"
  using assms by (auto simp: vec_lookup_def fun_eq_iff nth_list_update)

lemma not_used_init [simp]: "\<not> fd_used kfdentry_init" "fd_data kfdentry_init = 0"
  by (simp_all add: fd_used_def kfdentry_init_def)

lemma vec_lookup_append_unused:
  assumes "\<forall>e \<in> set es. \<not> fd_used e"
  shows "vec_lookup (fdv @ es) = vec_lookup fdv"
  using assms by (auto simp: vec_lookup_def fun_eq_iff nth_append)

lemma fd_lookup_vec:
  assumes "fdm_root m' = fdm_root m" and "fdm_cwd m' = fdm_cwd m" and "fd \<ge> 0"
    and "vec_lookup (fdm_fdv m') = (vec_lookup (fdm_fdv m))(nat fd := v)"
  shows "fd_lookup m' = (fd_lookup m)(fd := v)"
proof
  fix k
  have "vec_lookup (fdm_fdv m') (nat k) = (if nat k = nat fd then v else vec_lookup (fdm_fdv m) (nat k))"
    unfolding assms(4) by simp
  then show "fd_lookup m' k = ((fd_lookup m)(fd := v)) k"
    using assms(1-3) by (cases "k \<ge> 0") (simp_all add: fd_lookup_def eq_nat_nat_iff)
qed

text \<open>Trimming the vector only drops unused entries.\<close>

lemma trim_split:
  obtains es where "fdv = rev (dropWhile (\<lambda>e. fd_type e = KFDTYPE_NONE) (rev fdv)) @ es"
    and "\<forall>e \<in> set es. \<not> fd_used e"
proof
  let ?P = "\<lambda>e. fd_type e = KFDTYPE_NONE"
  show "fdv = rev (dropWhile ?P (rev fdv)) @ rev (takeWhile ?P (rev fdv))"
    by (metis rev_append rev_rev_ident takeWhile_dropWhile_id)
  show "\<forall>e \<in> set (rev (takeWhile ?P (rev fdv))). \<not> fd_used e"
    by (auto simp: fd_used_def dest: set_takeWhileD)
qed

lemma free_unused_cases:
  obtains es where "fdm_fdv m = fdm_fdv (kproc_free_unused_fd_memory mem m) @ es"
    and "\<forall>e \<in> set es. \<not> fd_used e"
    and "kproc_free_unused_fd_memory mem m = m\<lparr>fdm_fdv := fdm_fdv (kproc_free_unused_fd_memory mem m)\<rparr>"
proof -
  let ?fdv = "rev (dropWhile (\<lambda>e. fd_type e = KFDTYPE_NONE) (rev (fdm_fdv m)))"
  obtain es where es: "fdm_fdv m = ?fdv @ es" "\<forall>e \<in> set es. \<not> fd_used e"
    using trim_split [of "fdm_fdv m"] by blast
  show thesis
  proof (cases "kproc_free_unused_fd_memory mem m = m")
    case True
    then show ?thesis using that [of "[]"] by simp
  next
    case False
    then have "kproc_free_unused_fd_memory mem m = m\<lparr>fdm_fdv := ?fdv\<rparr>"
      by (auto simp: kproc_free_unused_fd_memory_def Let_def split: if_splits)
    then show ?thesis using that [of es] es by simp
  qed
qed

lemma free_unused_inv:
  assumes "fd_inv m"
  shows "fd_inv (kproc_free_unused_fd_memory mem m)"
proof -
  obtain es where es: "fdm_fdv m = fdm_fdv (kproc_free_unused_fd_memory mem m) @ es"
    "\<forall>e \<in> set es. \<not> fd_used e"
    and eq: "kproc_free_unused_fd_memory mem m = m\<lparr>fdm_fdv := fdm_fdv (kproc_free_unused_fd_memory mem m)\<rparr>"
    using free_unused_cases by blast
  have "count_if fd_used es = 0" using es(2) by (simp add: count_if_0_iff)
  then show ?thesis using assms es(1)
    by (subst eq) (auto simp: fd_inv_def fdm_fda_def)
qed

lemma free_unused_lookup: "fd_lookup (kproc_free_unused_fd_memory mem m) = fd_lookup m"
proof -
  obtain es where es: "fdm_fdv m = fdm_fdv (kproc_free_unused_fd_memory mem m) @ es"
    "\<forall>e \<in> set es. \<not> fd_used e"
    and eq: "kproc_free_unused_fd_memory mem m = m\<lparr>fdm_fdv := fdm_fdv (kproc_free_unused_fd_memory mem m)\<rparr>"
    using free_unused_cases by blast
  have "vec_lookup (fdm_fdv m) = vec_lookup (fdm_fdv (kproc_free_unused_fd_memory mem m))"
    by (subst es(1)) (rule vec_lookup_append_unused [OF es(2)])
  then show ?thesis by (subst eq) (rule ext, simp add: fd_lookup_def)
qed

subsection \<open>Inserting and closing\<close>

lemma fd_inv_cnt_Suc:
  assumes "fd_inv m"
  shows "unat (fdm_cnt m + 1) = Suc (count_if fd_used (fdm_fdv m))"
proof -
  have "unat (fdm_cnt m) < 2 ^ 31"
    using assms count_if_le_length [of fd_used "fdm_fdv m"] by (auto simp: fd_inv_def fdm_fda_def)
  then have "fdm_cnt m \<noteq> - 1" by (auto simp: unsigned_minus_1_eq_mask mask_eq_exp_minus_1)
  then show ?thesis using assms by (simp add: unat_word_Suc fd_inv_def)
qed

lemma fd_inv_replace:
  assumes "fd_inv m" and "i < fdm_fda m" and "fd_entry_ok e" and "fd_used (fdm_fdv m ! i)"
  shows "fd_inv (m\<lparr>fdm_fdv := (fdm_fdv m)[i := e]\<rparr>)"
proof -
  have "count_if fd_used ((fdm_fdv m)[i := e]) = count_if fd_used (fdm_fdv m)"
    using count_if_list_update [of i "fdm_fdv m" fd_used e] assms by (simp add: fdm_fda_def fd_entry_ok_def)
  moreover have "\<forall>x \<in> set ((fdm_fdv m)[i := e]). fd_used x \<longleftrightarrow> fd_data x \<noteq> 0"
    using assms set_update_subset_insert [of "fdm_fdv m" i e] by (auto simp: fd_inv_def fd_entry_ok_def)
  ultimately show ?thesis using assms by (simp add: fd_inv_def fdm_fda_def)
qed

lemma fd_inv_fill:
  assumes "fd_inv m" and "i < fdm_fda m" and "fd_entry_ok e" and "\<not> fd_used (fdm_fdv m ! i)"
  shows "fd_inv (m\<lparr>fdm_cnt := fdm_cnt m + 1, fdm_fdv := (fdm_fdv m)[i := e]\<rparr>)"
proof -
  have "count_if fd_used ((fdm_fdv m)[i := e]) = Suc (count_if fd_used (fdm_fdv m))"
    using count_if_list_update [of i "fdm_fdv m" fd_used e] assms by (simp add: fdm_fda_def fd_entry_ok_def)
  moreover have "\<forall>x \<in> set ((fdm_fdv m)[i := e]). fd_used x \<longleftrightarrow> fd_data x \<noteq> 0"
    using assms set_update_subset_insert [of "fdm_fdv m" i e] by (auto simp: fd_inv_def fd_entry_ok_def)
  ultimately show ?thesis using assms fd_inv_cnt_Suc [OF assms(1)] by (simp add: fd_inv_def fdm_fda_def)
qed

lemma fd_inv_extend:
  assumes "fd_inv m" and "fd_entry_ok e" and "fdm_fda m + k < unat (fdm_max m)"
  shows "fd_inv (m\<lparr>fdm_cnt := fdm_cnt m + 1,
    fdm_fdv := fdm_fdv m @ replicate k kfdentry_init @ [e]\<rparr>)"
  using assms fd_inv_cnt_Suc [OF assms(1)] by (auto simp: fd_inv_def fdm_fda_def fd_entry_ok_def)

lemma vec_lookup_extend:
  assumes "fd_used e"
  shows "vec_lookup (fdv @ replicate k kfdentry_init @ [e]) = (vec_lookup fdv)(length fdv + k \<mapsto> e)"
proof -
  let ?fdv = "fdv @ replicate (Suc k) kfdentry_init"
  have "fdv @ replicate k kfdentry_init @ [e] = ?fdv[length fdv + k := e]"
    by (simp add: list_update_append replicate_append_same [symmetric])
  then have "vec_lookup (fdv @ replicate k kfdentry_init @ [e]) = (vec_lookup ?fdv)(length fdv + k \<mapsto> e)"
    using vec_lookup_update [of "length fdv + k" ?fdv e] assms by simp
  then show ?thesis using vec_lookup_append_unused [of "replicate (Suc k) kfdentry_init" fdv] by simp
qed

lemma fd_used_data:
  assumes "fd_inv m" and "i < fdm_fda m"
  shows "fd_data (fdm_fdv m ! i) = 0 \<longleftrightarrow> \<not> fd_used (fdm_fdv m ! i)"
  using assms by (auto simp: fd_inv_def fdm_fda_def)

lemma insfdat_law:
  assumes "fd_inv m" and "fd \<ge> 0" and "fd_entry_ok e" and "insfdat_core mem m fd e = (err, old, m')"
  shows "fd_inv m' \<and> (if KE_ISOK err then fd_lookup m' = (fd_lookup m)(fd \<mapsto> e) else m' = m)
    \<and> old = (if KE_ISOK err then fd_lookup m fd else None)"
proof (cases "nat fd \<ge> unat (fdm_max m)")
  case True
  then show ?thesis using assms by (auto simp: insfdat_core_def)
next
  case max: False
  show ?thesis
  proof (cases "nat fd < fdm_fda m")
    case True
    have lk: "vec_lookup ((fdm_fdv m)[nat fd := e]) = (vec_lookup (fdm_fdv m))(nat fd \<mapsto> e)"
      using True assms(3) by (intro vec_lookup_update) (auto simp: fdm_fda_def fd_entry_ok_def)
    have eq: "fd_lookup m' = (fd_lookup m)(fd \<mapsto> e)"
      using assms(2,4) max True lk
      by (intro fd_lookup_vec) (auto simp: insfdat_core_def Let_def split: if_splits)
    show ?thesis
    proof (cases "fd_used (fdm_fdv m ! nat fd)")
      case used: True
      then show ?thesis
        using assms max True eq fd_used_data [OF assms(1) True] fd_inv_replace [OF assms(1) True assms(3) used]
        by (auto simp: insfdat_core_def Let_def fd_lookup_def vec_lookup_def fdm_fda_def)
    next
      case unused: False
      then show ?thesis
        using assms max True eq fd_used_data [OF assms(1) True]
          fd_inv_fill [OF assms(1) True assms(3) unused]
        by (auto simp: insfdat_core_def Let_def fd_lookup_def vec_lookup_def fdm_fda_def)
    qed
  next
    case False
    show ?thesis
    proof (cases mem)
      case True
      have lk: "vec_lookup (fdm_fdv m @ replicate (nat fd - fdm_fda m) kfdentry_init @ [e]) =
          (vec_lookup (fdm_fdv m))(nat fd \<mapsto> e)"
        using vec_lookup_extend [of e "fdm_fdv m" "nat fd - fdm_fda m"] False assms(3)
        by (simp add: fdm_fda_def fd_entry_ok_def)
      have eq: "fd_lookup m' = (fd_lookup m)(fd \<mapsto> e)"
        using assms(2,4) max False True lk
        by (intro fd_lookup_vec) (auto simp: insfdat_core_def Let_def split: if_splits)
      show ?thesis
        using assms max False True eq fd_inv_extend [OF assms(1,3), of "nat fd - fdm_fda m"]
        by (auto simp: insfdat_core_def fd_lookup_def vec_lookup_def fdm_fda_def)
    next
      case mem: False
      then show ?thesis using assms max False by (auto simp: insfdat_core_def)
    qed
  qed
qed

lemma closefd_law:
  assumes "fd_inv m" and "fd \<ge> 0" and "closefd_core True mem m fd = (err, old, m')"
  shows "fd_inv m' \<and> fd_lookup m' = (fd_lookup m)(fd := None) \<and> old = fd_lookup m fd
    \<and> (if fd_lookup m fd = None then err = KE_BADF \<and> m' = m else err = KE_OK)"
proof (cases "nat fd < fdm_fda m \<and> fd_used (fdm_fdv m ! nat fd)")
  case False
  then have "fd_lookup m fd = None" using assms(2) by (auto simp: fd_lookup_def vec_lookup_def fdm_fda_def)
  moreover have "err = KE_BADF \<and> old = None \<and> m' = m"
    using False assms(2,3)
    by (auto simp: closefd_core_def kfdman_slot_def slot_get_def fd_used_def Let_def split: if_splits)
  ultimately show ?thesis using assms(1) by auto
next
  case True
  let ?e = "(fdm_fdv m ! nat fd)\<lparr>fd_type := KFDTYPE_NONE, fd_data := 0\<rparr>"
  let ?m = "m\<lparr>fdm_cnt := fdm_cnt m - 1, fdm_fdv := (fdm_fdv m)[nat fd := ?e]\<rparr>"
  have res: "err = KE_OK" "old = Some (fdm_fdv m ! nat fd)" "m' = kproc_free_unused_fd_memory mem ?m"
    using True assms(2,3)
    by (auto simp: closefd_core_def kfdman_slot_def slot_get_def slot_set_def fd_used_def Let_def)
  have unused: "\<not> fd_used ?e" by (simp add: fd_used_def)
  have cnt: "count_if fd_used ((fdm_fdv m)[nat fd := ?e]) + 1 = count_if fd_used (fdm_fdv m)"
    using count_if_list_update [of "nat fd" "fdm_fdv m" fd_used ?e] True unused
    by (simp add: fdm_fda_def)
  have "fdm_cnt m \<noteq> 0" using cnt assms(1) by (auto simp: fd_inv_def)
  then have "unat (fdm_cnt m - 1) + 1 = count_if fd_used (fdm_fdv m)"
    using assms(1) word_gt_0_unat [of "fdm_cnt m"] by (simp add: unat_minus_one fd_inv_def)
  moreover have "\<forall>x \<in> set ((fdm_fdv m)[nat fd := ?e]). fd_used x \<longleftrightarrow> fd_data x \<noteq> 0"
    using assms(1) set_update_subset_insert [of "fdm_fdv m" "nat fd" ?e] unused
    by (auto simp: fd_inv_def)
  ultimately have "fd_inv ?m" using cnt assms(1) by (auto simp: fd_inv_def fdm_fda_def)
  moreover have "fd_lookup ?m = (fd_lookup m)(fd := None)"
    using True assms(2) vec_lookup_clear [of "nat fd" "fdm_fdv m" ?e] unused
    by (intro fd_lookup_vec) (auto simp: fdm_fda_def)
  moreover have "fd_lookup m fd = Some (fdm_fdv m ! nat fd)"
    using True assms(2) by (simp add: fd_lookup_def vec_lookup_def fdm_fda_def)
  ultimately show ?thesis using res free_unused_inv [of ?m mem] free_unused_lookup [of mem ?m] by simp
qed

interpretation fd_store: var_store fd_inv "\<lambda>fd. fd \<ge> 0" fd_entry_ok fd_lookup
  "\<lambda>m fd e. case insfdat_core mem m fd e of (err, old, m') \<Rightarrow> (err, m')"
  "\<lambda>m fd. case closefd_core True mem m fd of (err, old, m') \<Rightarrow> (err, m')"
  for mem
proof
  fix m m' :: kfdman and fd :: int and e err
  assume inv: "fd_inv m" and fd: "fd \<ge> 0"
  show "fd_inv m' \<and> (if KE_ISOK err then fd_lookup m' = (fd_lookup m)(fd \<mapsto> e) else m' = m)"
    if "fd_entry_ok e" "(case insfdat_core mem m fd e of (err, old, m') \<Rightarrow> (err, m')) = (err, m')"
    using insfdat_law [OF inv fd that(1)] that(2) by (auto split: prod.splits)
  show "fd_inv m' \<and> fd_lookup m' = (fd_lookup m)(fd := None) \<and> (KE_ISOK err \<longleftrightarrow> fd_lookup m fd \<noteq> None)"
    if "(case closefd_core True mem m fd of (err, old, m') \<Rightarrow> (err, m')) = (err, m')"
  proof -
    note run = that
    obtain old where "closefd_core True mem m fd = (err, old, m')"
      using run by (cases "closefd_core True mem m fd") auto
    from closefd_law [OF inv fd this] show ?thesis by (auto split: if_splits)
  qed
qed

subsection \<open>The search for a free slot\<close>

lemma insfd_search_sound:
  assumes "insfd_search fdv fre = Some i" and "fdv \<noteq> []"
  shows "i < length fdv \<and> fd_data (fdv ! i) = 0"
proof -
  have "fdv \<noteq> [] \<longrightarrow> i < length fdv \<and> fd_data (fdv ! i) = 0"
    by (rule insfd_search.raw_induct [OF _ assms(1), where
          P = "\<lambda>fdv fre i. fdv \<noteq> [] \<longrightarrow> i < length fdv \<and> fd_data (fdv ! i) = 0"])
      (fastforce simp: Let_def split: if_splits)
  then show ?thesis using assms(2) by blast
qed

lemma insfd_search_ahead:
  assumes "fre \<le> j" and "j < length fdv" and "fd_data (fdv ! j) = 0"
  shows "\<exists>i. insfd_search fdv fre = Some i"
  using assms
proof (induction "j - fre" arbitrary: fre)
  case 0
  then show ?case by (subst insfd_search.simps) simp
next
  case (Suc n)
  then have "\<exists>i. insfd_search fdv (fre + 1) = Some i" by (intro Suc.hyps(1)) auto
  then show ?case using Suc by (subst insfd_search.simps) (auto simp: Let_def)
qed

lemma insfd_search_total:
  assumes "j < length fdv" and "fd_data (fdv ! j) = 0"
  shows "\<exists>i. insfd_search fdv fre = Some i \<and> i < length fdv \<and> fd_data (fdv ! i) = 0"
proof -
  have "\<exists>i. insfd_search fdv fre = Some i"
  proof (induction "length fdv - fre" arbitrary: fre)
    case 0
    have "insfd_search fdv fre = insfd_search fdv 0"
      using 0 by (subst (1 2) insfd_search.simps) (simp add: Let_def)
    then show ?case using insfd_search_ahead [of 0 j fdv] assms by simp
  next
    case (Suc n)
    then have "\<exists>i. insfd_search fdv (fre + 1) = Some i" by (intro Suc.hyps(1)) simp
    then show ?case using Suc by (subst insfd_search.simps) (auto simp: Let_def)
  qed
  then show ?thesis using insfd_search_sound assms(1) by fastforce
qed

lemma insfd_search_stuck:
  assumes "fdv \<noteq> []" and "\<forall>e \<in> set fdv. fd_data e \<noteq> 0"
  shows "insfd_search fdv fre = None"
proof (rule ccontr)
  assume "insfd_search fdv fre \<noteq> None"
  then obtain i where "insfd_search fdv fre = Some i" by blast
  then show False using insfd_search_sound [OF _ assms(1)] assms(2) nth_mem by blast
qed

lemma fd_inv_fre [simp]: "fd_inv (m\<lparr>fdm_fre := r\<rparr>) = fd_inv m" "fd_lookup (m\<lparr>fdm_fre := r\<rparr>) = fd_lookup m"
  by (simp add: fd_inv_def fdm_fda_def) (rule ext, simp add: fd_lookup_def)

lemma grow_vector:
  assumes "length fdv < n"
  shows "(fdv @ replicate (n - length fdv) kfdentry_init)[length fdv := e] =
    fdv @ [e] @ replicate (n - length fdv - 1) kfdentry_init"
  using assms by (cases "n - length fdv") auto


definition file_entry :: "addr \<Rightarrow> kfdentry" where
  "file_entry a = \<lparr>fd_type = KFDTYPE_FILE, fd_flag = 0, fd_data = a\<rparr>"

lemma file_entry_ok: "a \<noteq> 0 \<Longrightarrow> fd_entry_ok (file_entry a)"
  by (simp add: fd_entry_ok_def file_entry_def fd_used_def)

lemma init_inv: "unat mx < 2 ^ 31 \<Longrightarrow> fd_inv (kfdman_init mx)"
  by (simp add: fd_inv_def kfdman_init_def fdm_fda_def)




section \<open>What goes wrong\<close>

text \<open>
  C27. Without \<open>__DEBUG__\<close> a closed slot keeps its pointer, so \<open>kproc_insfd_inherited\<close> does not recognise it
  as free: after closing any but the last descriptor of a full table the next insertion never
  returns (and holds the descriptor lock).
\<close>

theorem insfd_release_hangs:
  assumes "fd_inv m" and "count_if fd_used (fdm_fdv m) = fdm_fda m" and "0 \<le> fd"
    and "Suc (nat fd) < fdm_fda m" and "closefd_core False mem m fd = (err, old, m')"
  shows "insfd_core mem2 m' e = Blocked"
proof -
  let ?c = "(fdm_fdv m ! nat fd)\<lparr>fd_type := KFDTYPE_NONE\<rparr>"
  let ?fdv = "(fdm_fdv m)[nat fd := ?c]"
  let ?m = "m\<lparr>fdm_cnt := fdm_cnt m - 1, fdm_fdv := ?fdv\<rparr>"
  have used: "\<forall>x \<in> set (fdm_fdv m). fd_used x" using assms(2) by (simp add: count_if_full_iff fdm_fda_def)
  have lt: "nat fd < length (fdm_fdv m)" "?fdv \<noteq> []" using assms(4) by (auto simp: fdm_fda_def)
  have "last ?fdv = last (fdm_fdv m)"
    using assms(4) lt by (subst last_list_update) (auto simp: fdm_fda_def)
  then have "fd_type (last ?fdv) \<noteq> KFDTYPE_NONE" using used lt by (auto simp: fd_used_def)
  then have keep: "rev (dropWhile (\<lambda>e. fd_type e = KFDTYPE_NONE) (rev ?fdv)) = ?fdv"
    using lt(2) by (cases "?fdv" rule: rev_cases) simp_all
  have "fd_used (fdm_fdv m ! nat fd)" using used lt by simp
  then have m': "m' = ?m"
    using assms(3,5) lt keep
    by (auto simp: closefd_core_def kfdman_slot_def slot_get_def slot_set_def fd_used_def Let_def
        fdm_fda_def kproc_free_unused_fd_memory_def)
  have "\<forall>x \<in> set (fdm_fdv m). fd_data x \<noteq> 0" using used assms(1) by (auto simp: fd_inv_def)
  then have data: "\<forall>x \<in> set ?fdv. fd_data x \<noteq> 0"
    using lt(1) set_update_subset_insert [of "fdm_fdv m" "nat fd" ?c] by auto
  have cnt: "unat (fdm_cnt m) = fdm_fda m" using assms(1,2) by (simp add: fd_inv_def)
  then have "unat (fdm_cnt m - 1) \<noteq> fdm_fda m"
    using assms(4) word_gt_0_unat [of "fdm_cnt m"] by (simp add: unat_minus_one)
  then show ?thesis using insfd_search_stuck [OF lt(2) data] m'
    by (simp add: insfd_core_def fdm_fda_def)
qed

theorem insfd_release_hangs_witness:
  "\<exists>m err old m'. closefd_core False True m 0 = (err, old, m') \<and> fd_inv m
    \<and> insfd_core True m' (file_entry 7) = Blocked"
proof -
  define m where "m = (kfdman_init 8)\<lparr>fdm_cnt := 2, fdm_fdv := [file_entry 5, file_entry 6]\<rparr>"
  have inv: "fd_inv m" by (simp add: m_def fd_inv_def kfdman_init_def fdm_fda_def file_entry_def fd_used_def)
  obtain err old m' where run: "closefd_core False True m 0 = (err, old, m')"
    by (cases "closefd_core False True m 0")
  have "insfd_core True m' (file_entry 7) = Blocked"
    by (rule insfd_release_hangs [OF inv _ _ _ run])
      (simp_all add: m_def fdm_fda_def file_entry_def fd_used_def)
  then show ?thesis using run inv by blast
qed

text \<open>
  \<open>KPERM_NAME_FDMAX\<close> lets a process lower \<open>fdm_max\<close> below the size of its table; opening one more
  descriptor in a full table then writes outside the vector, because the limit is only tested for
  equality with the count.
\<close>

theorem insfd_lowered_max_faults:
  assumes "unat (fdm_cnt m) = fdm_fda m" and "unat (fdm_max m) < fdm_fda m"
  shows "insfd_core True m e = Fault"
proof -
  have "fdm_cnt m \<noteq> fdm_max m" using assms by auto
  then show ?thesis using assms by (auto simp: insfd_core_def Let_def)
qed

theorem insfd_lowered_max_faults_witness:
  "insfd_core True ((kfdman_init 1)\<lparr>fdm_cnt := 2, fdm_fdv := [file_entry 5, file_entry 6]\<rparr>)
    (file_entry 7) = Fault"
  by (rule insfd_lowered_max_faults) (simp_all add: fdm_fda_def kfdman_init_def)

text \<open>
  \<open>kproc_closefd\<close> counts the special descriptors, although inserting them does not: closing the
  working directory takes one off \<open>fdm_cnt\<close> while the number of used entries of the table is the same.
\<close>

theorem closefd_special_miscounts:
  assumes "fd_used (fdm_cwd m)" and "closefd_core debug mem m KFD_CWD = (err, old, m')"
  shows "err = KE_OK \<and> fdm_cnt m' = fdm_cnt m - 1
    \<and> count_if fd_used (fdm_fdv m') = count_if fd_used (fdm_fdv m)"
proof -
  have ne: "KFD_CWD \<noteq> KFD_ROOT" "KFD_CWD < 0"
    by (simp_all add: KFD_CWD_def KFD_ROOT_def KFD_INTERNAL_def)
  define m1 where "m1 = m\<lparr>fdm_cnt := fdm_cnt m - 1, fdm_cwd := (fdm_cwd m)\<lparr>fd_type := KFDTYPE_NONE,
    fd_data := if debug then 0 else fd_data (fdm_cwd m)\<rparr>\<rparr>"
  have res: "err = KE_OK" "m' = kproc_free_unused_fd_memory mem m1"
    using assms ne
    by (auto simp: closefd_core_def kfdman_slot_def kfdman_specialslot_def slot_get_def slot_set_def
        fd_used_def Let_def m1_def)
  obtain es where es: "fdm_fdv m1 = fdm_fdv m' @ es" "\<forall>x \<in> set es. \<not> fd_used x"
    and eq: "m' = m1\<lparr>fdm_fdv := fdm_fdv m'\<rparr>"
    using free_unused_cases [of m1 mem] res(2) by blast
  have "count_if fd_used es = 0" using es(2) by (simp add: count_if_0_iff)
  moreover have "fdm_fdv m = fdm_fdv m' @ es" using es(1) by (simp add: m1_def)
  moreover have "fdm_cnt m' = fdm_cnt m1" by (subst eq) simp
  ultimately show ?thesis using res(1) by (simp add: m1_def)
qed

theorem closefd_special_miscounts_witness:
  "\<exists>err old m'. closefd_core True True ((kfdman_init 8)\<lparr>fdm_cwd := file_entry 5\<rparr>) KFD_CWD = (err, old, m')
    \<and> fdm_cnt m' = 0 - 1"
proof -
  let ?m = "(kfdman_init 8)\<lparr>fdm_cwd := file_entry 5\<rparr>"
  obtain err old m' where run: "closefd_core True True ?m KFD_CWD = (err, old, m')"
    by (cases "closefd_core True True ?m KFD_CWD")
  from closefd_special_miscounts [OF _ run] run show ?thesis
    by (simp add: kfdman_init_def file_entry_def fd_used_def)
qed

text \<open>
  C28. \<open>kproc_closeall\<close> of a range that starts at 0 runs outside the vector when no regular descriptor is
  open, because the bound \<open>fdm_fda-1\<close> wraps around.
\<close>

theorem closeall_empty_faults:
  assumes "fdm_fdv m = []" and "0 \<le> high"
  shows "closeall_core mem m 0 high = Fault"
  using assms by (simp add: closeall_core_def closeall_end_def fdm_fda_def Let_def)

theorem closeall_empty_faults_witness: "closeall_core True (kfdman_init 8) 0 100 = Fault"
  by (rule closeall_empty_faults) (simp_all add: kfdman_init_def)

end
