(* ===== verification/ProcEnv.thy ===== *)
theory ProcEnv
  imports VarStore
begin

text \<open>
  The environment of a process: arguments and environment variables
  (\<^verbatim>\<open>include/kos/kernel/procenv.h\<close>, \<^verbatim>\<open>src/kernel/procenv.c\<close>).

  A C string is the list of its bytes up to and without the terminating zero; \<open>strnlen\<close> of a
  pointer into longer memory is the length of \<open>cstr\<close>. The hash map has 16 buckets, each a linked
  list of entries. Whether an allocation succeeds is a parameter: a single flag for an operation
  that allocates once, a function of the number of earlier allocations otherwise.
\<close>

section \<open>Strings\<close>

type_synonym cbytes = "u8 list"

definition cstr :: "cbytes \<Rightarrow> nat \<Rightarrow> cbytes" where
  "cstr text n = takeWhile (\<lambda>b. b \<noteq> 0) (take n text)"

lemma cstr_no_zero [simp]: "0 \<notin> set (cstr text n)"
  by (auto simp: cstr_def dest: set_takeWhileD)

lemma cstr_id: "0 \<notin> set text \<Longrightarrow> length text \<le> n \<Longrightarrow> cstr text n = text"
  by (simp add: cstr_def takeWhile_eq_all_conv) metis

section \<open>State\<close>

definition kenventry_hashof :: "cbytes \<Rightarrow> size_t" where
  "kenventry_hashof text = foldl (\<lambda>r b. r * 263 + scast b) 1 text"

record kenventry =
  ee_namhash :: size_t
  ee_name :: cbytes
  ee_value :: cbytes

definition kenventry_new :: "bool \<Rightarrow> cbytes \<Rightarrow> cbytes \<Rightarrow> size_t \<Rightarrow> kenventry option" where
  "kenventry_new mem name value hash =
     (if mem then Some \<lparr>ee_namhash = hash, ee_name = name, ee_value = value\<rparr> else None)"

definition memsz :: "cbytes \<Rightarrow> cbytes \<Rightarrow> nat" where
  "memsz name value = length name + length value + 2"

definition kenventry_memsz :: "kenventry \<Rightarrow> size_t" where
  "kenventry_memsz e = of_nat (memsz (ee_name e) (ee_value e))"

abbreviation KPROCENV_HASH_SIZE :: nat where "KPROCENV_HASH_SIZE \<equiv> 16"
abbreviation sizeof_ptr :: nat where "sizeof_ptr \<equiv> 4"

record kprocenv =
  pe_memmax :: size_t
  pe_memcur :: size_t
  pe_argv :: "cbytes list"
  pe_map :: "kenventry list list"

definition pe_argc :: "kprocenv \<Rightarrow> nat" where
  "pe_argc env = length (pe_argv env)"

definition kprocenv_initroot :: kprocenv where
  "kprocenv_initroot = \<lparr>pe_memmax = - 1, pe_memcur = 0, pe_argv = [],
     pe_map = replicate KPROCENV_HASH_SIZE []\<rparr>"

definition kprocenv_clear_c :: "kprocenv \<Rightarrow> kprocenv" where
  "kprocenv_clear_c env = \<lparr>pe_memmax = pe_memmax env, pe_memcur = 0, pe_argv = [],
     pe_map = replicate KPROCENV_HASH_SIZE []\<rparr>"

section \<open>Variables\<close>

definition bucket_of :: "size_t \<Rightarrow> nat" where
  "bucket_of hash = unat hash mod KPROCENV_HASH_SIZE"

definition entry_matches :: "size_t \<Rightarrow> cbytes \<Rightarrow> kenventry \<Rightarrow> bool" where
  "entry_matches hash name e \<longleftrightarrow>
     hash = ee_namhash e \<and> length name = length (ee_name e) \<and> ee_name e = name"

fun bucket_find :: "size_t \<Rightarrow> cbytes \<Rightarrow> kenventry list \<Rightarrow> kenventry option" where
  "bucket_find hash name [] = None"
| "bucket_find hash name (b # bs) =
     (if entry_matches hash name b then Some b else bucket_find hash name bs)"

fun bucket_replace :: "size_t \<Rightarrow> cbytes \<Rightarrow> kenventry \<Rightarrow> kenventry list \<Rightarrow> kenventry list" where
  "bucket_replace hash name new [] = []"
| "bucket_replace hash name new (b # bs) =
     (if entry_matches hash name b then new # bs else b # bucket_replace hash name new bs)"

fun bucket_delete :: "size_t \<Rightarrow> cbytes \<Rightarrow> kenventry list \<Rightarrow> kenventry list" where
  "bucket_delete hash name [] = []"
| "bucket_delete hash name (b # bs) =
     (if entry_matches hash name b then bs else b # bucket_delete hash name bs)"

definition kprocenv_getenv :: "kprocenv \<Rightarrow> cbytes \<Rightarrow> nat \<Rightarrow> cbytes option" where
  "kprocenv_getenv env name name_max =
     (let name = cstr name name_max; hash = kenventry_hashof name in
      map_option ee_value (bucket_find hash name (pe_map env ! bucket_of hash)))"

definition kprocenv_kernel_setenv_c ::
  "bool \<Rightarrow> kprocenv \<Rightarrow> cbytes \<Rightarrow> nat \<Rightarrow> cbytes \<Rightarrow> nat \<Rightarrow> bool \<Rightarrow> kerrno \<times> kprocenv" where
  "kprocenv_kernel_setenv_c mem env name name_max value value_max override =
     (let name = cstr name name_max; value = cstr value value_max;
          hash = kenventry_hashof name; i = bucket_of hash; buck = pe_map env ! i;
          add = of_nat (memsz name value)
      in case bucket_find hash name buck of
        Some bucket \<Rightarrow>
          if \<not> override then (KE_EXISTS, env)
          else let newmem = pe_memcur env - kenventry_memsz bucket + add in
            if newmem > pe_memmax env then (KE_ACCES, env)
            else (case kenventry_new mem name value hash of
                None \<Rightarrow> (KE_NOMEM, env)
              | Some new \<Rightarrow> (KS_FOUND, env\<lparr>pe_memcur := newmem,
                  pe_map := (pe_map env)[i := bucket_replace hash name new buck]\<rparr>))
      | None \<Rightarrow>
          let newmem = pe_memcur env + add in
          if newmem > pe_memmax env then (KE_ACCES, env)
          else (case kenventry_new mem name value hash of
              None \<Rightarrow> (KE_NOMEM, env)
            | Some new \<Rightarrow> (KE_OK, env\<lparr>pe_memcur := newmem,
                pe_map := (pe_map env)[i := new # buck]\<rparr>)))"

definition kprocenv_delenv_c :: "kprocenv \<Rightarrow> cbytes \<Rightarrow> nat \<Rightarrow> kerrno \<times> kprocenv" where
  "kprocenv_delenv_c env name name_max =
     (let name = cstr name name_max; hash = kenventry_hashof name; i = bucket_of hash;
          buck = pe_map env ! i
      in case bucket_find hash name buck of
        Some bucket \<Rightarrow> (KE_OK, env\<lparr>pe_memcur := pe_memcur env - kenventry_memsz bucket,
          pe_map := (pe_map env)[i := bucket_delete hash name buck]\<rparr>)
      | None \<Rightarrow> (KE_NOENT, env))"

text \<open>\<open>strnchr(text, text_max, '=')\<close>: the text before the first equals sign and the text after it.\<close>

definition split_at_char :: "u8 \<Rightarrow> cbytes \<Rightarrow> (cbytes \<times> cbytes) option" where
  "split_at_char c text =
     (if c \<in> set text
      then Some (takeWhile (\<lambda>b. b \<noteq> c) text, tl (dropWhile (\<lambda>b. b \<noteq> c) text)) else None)"

text \<open>\<open>kprocenv_putenv_c\<close> passes the whole text, not what follows the equals sign, as the value.\<close>

definition kprocenv_putenv_c :: "bool \<Rightarrow> kprocenv \<Rightarrow> cbytes \<Rightarrow> nat \<Rightarrow> kerrno \<times> kprocenv" where
  "kprocenv_putenv_c mem env text text_max =
     (case split_at_char 61 (cstr text text_max) of
        None \<Rightarrow> kprocenv_delenv_c env text text_max
      | Some (name, _) \<Rightarrow>
          kprocenv_kernel_setenv_c mem env text (length name) text (length text) True)"

text \<open>Two routines the source leaves as stubs.\<close>

definition kprocenv_user_setenv_c :: "kprocenv \<Rightarrow> kerrno \<times> kprocenv" where
  "kprocenv_user_setenv_c env = (KE_NOSYS, env)"

definition kprocenv_setenvv_uc :: "kprocenv \<Rightarrow> kerrno \<times> kprocenv" where
  "kprocenv_setenvv_uc env = (KE_OK, env)"

section \<open>Arguments\<close>

text \<open>Bytes the argument strings take, with their terminators.\<close>

definition args_mem :: "cbytes list \<Rightarrow> nat" where
  "args_mem args = sum_list (map (\<lambda>a. length a + 1) args)"

definition kprocenv_prepend_argv ::
  "(nat \<Rightarrow> bool) \<Rightarrow> kprocenv \<Rightarrow> cbytes list \<Rightarrow> kerrno \<times> kprocenv" where
  "kprocenv_prepend_argv alloc env argv =
     (if argv = [] then (KE_OK, env)
      else let total_memreq = of_nat (length argv * sizeof_ptr + args_mem argv) + pe_memcur env in
        if total_memreq < pe_memcur env \<or> total_memreq > pe_memmax env then (KE_ACCES, env)
        else if \<not> alloc 0 then (KE_NOMEM, env)
        else if \<exists>i \<in> set [0..<length argv]. \<not> alloc (Suc i) then (KE_NOMEM, env)
        else (KE_OK, env\<lparr>pe_argv := argv @ pe_argv env, pe_memcur := total_memreq\<rparr>))"

text \<open>The copy loop of \<open>kprocenv_setargv_c\<close>; \<open>i\<close> allocations have been made.\<close>

fun setargv_loop ::
  "(nat \<Rightarrow> bool) \<Rightarrow> size_t \<Rightarrow> nat \<Rightarrow> size_t \<Rightarrow> cbytes list \<Rightarrow> (kerrno \<times> size_t \<times> cbytes list)" where
  "setargv_loop alloc memmax i newmem [] = (KE_OK, newmem, [])"
| "setargv_loop alloc memmax i newmem (arg # args) =
     (let newmem = newmem + of_nat (length arg + 1) in
      if newmem \<ge> memmax then (KE_ACCES, newmem, [])
      else if \<not> alloc i then (KE_NOMEM, newmem, [])
      else case setargv_loop alloc memmax (Suc i) newmem args of
        (error, newmem, rest) \<Rightarrow> (error, newmem, arg # rest))"

text \<open>\<open>argv\<close> is the vector up to its terminating \<open>NULL\<close>; \<open>max_arglenv\<close> bounds each argument when given.\<close>

definition kprocenv_setargv_c ::
  "(nat \<Rightarrow> bool) \<Rightarrow> kprocenv \<Rightarrow> nat \<Rightarrow> cbytes list \<Rightarrow> nat list option \<Rightarrow> kerrno \<times> kprocenv" where
  "kprocenv_setargv_c alloc env max_argc argv max_arglenv =
     (let real_argc = min (length argv) max_argc;
          args = (case max_arglenv of
              None \<Rightarrow> map (\<lambda>a. cstr a (length a)) (take real_argc argv)
            | Some ls \<Rightarrow> map2 cstr (take real_argc argv) ls);
          newmem = pe_memcur env + of_nat (real_argc * sizeof_ptr)
      in if newmem > pe_memmax env then (KE_ACCES, env)
      else if \<not> alloc 0 then (KE_NOMEM, env)
      else case setargv_loop alloc (pe_memmax env) 1 newmem args of
        (error, newmem, new_argv) \<Rightarrow>
          if KE_ISERR error then (error, env)
          else (KE_OK, env\<lparr>pe_argv := new_argv, pe_memcur := newmem\<rparr>))"

text \<open>
  What reading one element of a user vector gives: a fault, the terminating \<open>NULL\<close>, or a string; the
  string itself may still fault when it is copied.
\<close>

datatype uarg = U_fault | U_null | U_arg cbytes bool

text \<open>The loop of \<open>kprocenv_setargv_cu\<close>: \<open>k\<close> allocations have been made, the vector \<open>acc\<close> has space for
  \<open>arga\<close> entries, \<open>max_argc\<close> is the number of user entries still to be read.\<close>

primrec setargv_cu_loop ::
  "(nat \<Rightarrow> bool) \<Rightarrow> size_t \<Rightarrow> nat \<Rightarrow> size_t \<Rightarrow> nat \<Rightarrow> nat \<Rightarrow> cbytes list \<Rightarrow> uarg list
    \<Rightarrow> kerrno \<times> size_t \<times> cbytes list" where
  "setargv_cu_loop alloc memmax k newmem arga max_argc acc [] =
     (if max_argc = 0 then KE_OK else KE_FAULT, newmem, acc)"
| "setargv_cu_loop alloc memmax k newmem arga max_argc acc (u # argv) =
     (if max_argc = 0 then (KE_OK, newmem, acc)
      else case u of
        U_fault \<Rightarrow> (KE_FAULT, newmem, acc)
      | U_null \<Rightarrow> (KE_OK, newmem, acc)
      | U_arg arg readable \<Rightarrow>
          let newmem = newmem + of_nat (length arg + 1) in
          if newmem + of_nat sizeof_ptr \<ge> memmax then (KE_ACCES, newmem, acc)
          else if \<not> alloc k then (KE_NOMEM, newmem, acc)
          else if \<not> readable then (KE_FAULT, newmem, acc)
          else if length acc = arga then
            let max_more_entries = unat ((memmax - newmem) div of_nat sizeof_ptr) in
            if max_more_entries = 0 then (KE_ACCES, newmem, acc)
            else if \<not> alloc (Suc k) then (KE_NOMEM, newmem, acc)
            else
              let new_arga = min (if arga \<noteq> 0 then arga * 2 else 2) (arga + max_more_entries);
                  new_arga = min new_arga (length acc + max_argc)
              in setargv_cu_loop alloc memmax (k + 2) (newmem + of_nat sizeof_ptr) new_arga
                   (max_argc - 1) (acc @ [arg]) argv
          else setargv_cu_loop alloc memmax (Suc k) (newmem + of_nat sizeof_ptr) arga
                 (max_argc - 1) (acc @ [arg]) argv)"

definition kprocenv_setargv_cu ::
  "(nat \<Rightarrow> bool) \<Rightarrow> kprocenv \<Rightarrow> nat \<Rightarrow> uarg list \<Rightarrow> kerrno \<times> kprocenv" where
  "kprocenv_setargv_cu alloc env max_argc argv =
     (case setargv_cu_loop alloc (pe_memmax env) 0 (pe_memcur env) 0 max_argc [] argv of
        (error, newmem, new_argv) \<Rightarrow>
          if KE_ISERR error then (error, env)
          else (KE_OK, env\<lparr>pe_argv := new_argv, pe_memcur := newmem\<rparr>))"

section \<open>Copies\<close>

text \<open>
  \<open>kprocenv_initcopy\<close>. When duplicating an argument fails, the clean-up loop frees all \<open>pe_argc\<close> slots
  of the new vector, also those that were never written: that is a fault, unless the failing
  argument is the last one (its slot holds \<open>NULL\<close>). The entries of the map are copied without
  a fault; \<open>alloc\<close> is indexed by the allocations made before.
\<close>

definition first_fail :: "(nat \<Rightarrow> bool) \<Rightarrow> nat \<Rightarrow> nat \<Rightarrow> nat option" where
  "first_fail alloc from n = find (\<lambda>i. \<not> alloc (from + i)) [0..<n]"

definition env_entries :: "kprocenv \<Rightarrow> kenventry list" where
  "env_entries env = concat (pe_map env)"

definition kprocenv_initcopy ::
  "(nat \<Rightarrow> bool) \<Rightarrow> kprocenv \<Rightarrow> (kerrno \<times> kprocenv option) outcome" where
  "kprocenv_initcopy alloc right =
     (let argc = pe_argc right; used = (if argc = 0 then 0 else Suc argc) in
      if argc \<noteq> 0 \<and> \<not> alloc 0 then Done (KE_NOMEM, None)
      else case (if argc = 0 then None else first_fail alloc 1 argc) of
        Some i \<Rightarrow> if Suc i < argc then Fault else Done (KE_NOMEM, None)
      | None \<Rightarrow> (case first_fail alloc used (length (env_entries right)) of
            Some _ \<Rightarrow> Done (KE_NOMEM, None)
          | None \<Rightarrow> Done (KE_OK, Some right)))"

definition kprocenv_install_after_exec :: "kprocenv \<Rightarrow> kprocenv \<Rightarrow> bool \<Rightarrow> kprocenv" where
  "kprocenv_install_after_exec self newenv args_only =
     (if \<not> args_only then newenv
      else let argv_size = of_nat (pe_argc self * sizeof_ptr)
               + sum_list (map (\<lambda>a. of_nat (length a)) (pe_argv self))
        in self\<lparr>pe_memcur := pe_memcur self - argv_size + pe_memcur newenv,
             pe_argv := pe_argv newenv\<rparr>)"

section \<open>The kernel command line\<close>

definition isspace_byte :: "u8 \<Rightarrow> bool" where
  "isspace_byte c \<longleftrightarrow> c \<in> {9, 10, 11, 12, 13, 32}"

definition trim :: "cbytes \<Rightarrow> cbytes" where
  "trim arg = rev (dropWhile isspace_byte (rev (dropWhile isspace_byte arg)))"

definition skip_dash :: "cbytes \<Rightarrow> cbytes" where
  "skip_dash arg = (case arg of [] \<Rightarrow> [] | c # cs \<Rightarrow> if c = 45 then cs else arg)"

text \<open>The variable and value an argument defines, and whether the argument counts as valid.\<close>

definition parse_arg :: "cbytes \<Rightarrow> bool \<times> (cbytes \<times> cbytes) option" where
  "parse_arg arg =
     (let arg = trim arg in
      if arg = [] then (False, None)
      else case split_at_char 61 arg of
        Some _ \<Rightarrow> (True, split_at_char 61 (skip_dash (skip_dash arg)))
      | None \<Rightarrow>
          if hd arg = 45 then
            let arg = (if length arg \<ge> 2 \<and> arg ! 1 = 45 then tl arg else arg) in
            if length arg = 1 then (True, None) else (True, Some (tl arg, [49]))
          else (False, None))"

definition kernel_parse_arg :: "bool \<Rightarrow> kprocenv \<Rightarrow> cbytes \<Rightarrow> bool \<times> kprocenv" where
  "kernel_parse_arg mem env arg =
     (case parse_arg arg of
        (valid, None) \<Rightarrow> (valid, env)
      | (valid, Some (name, value)) \<Rightarrow>
          (valid, snd (kprocenv_kernel_setenv_c mem env name (length name) value (length value) False)))"

fun split_spaces :: "cbytes \<Rightarrow> cbytes list" where
  "split_spaces [] = [[]]"
| "split_spaces (c # cs) =
     (if c = 32 then [] # split_spaces cs
      else case split_spaces cs of [] \<Rightarrow> [[c]] | w # ws \<Rightarrow> (c # w) # ws)"

definition kernel_initialize_cmdline :: "bool \<Rightarrow> kprocenv \<Rightarrow> cbytes \<Rightarrow> kprocenv" where
  "kernel_initialize_cmdline mem env cmd =
     (if cmd = [] then env
      else foldl (\<lambda>env arg. snd (kernel_parse_arg mem env arg)) env (split_spaces cmd))"

section \<open>The map of variables\<close>

definition bucket_ok :: "nat \<Rightarrow> kenventry list \<Rightarrow> bool" where
  "bucket_ok i bs \<longleftrightarrow> (\<forall>e \<in> set bs. ee_namhash e = kenventry_hashof (ee_name e)
     \<and> bucket_of (ee_namhash e) = i \<and> 0 \<notin> set (ee_name e) \<and> 0 \<notin> set (ee_value e))
   \<and> distinct (map ee_name bs)"

definition env_ok :: "kprocenv \<Rightarrow> bool" where
  "env_ok env \<longleftrightarrow> length (pe_map env) = KPROCENV_HASH_SIZE
     \<and> (\<forall>i < KPROCENV_HASH_SIZE. bucket_ok i (pe_map env ! i))"

definition env_bucket :: "kprocenv \<Rightarrow> cbytes \<Rightarrow> kenventry list" where
  "env_bucket env name = pe_map env ! bucket_of (kenventry_hashof name)"

definition env_lookup :: "kprocenv \<Rightarrow> cbytes \<Rightarrow> cbytes option" where
  "env_lookup env name =
     map_option ee_value (bucket_find (kenventry_hashof name) name (env_bucket env name))"

lemma getenv_lookup: "kprocenv_getenv env name n = env_lookup env (cstr name n)"
  by (simp add: kprocenv_getenv_def env_lookup_def env_bucket_def Let_def)

lemma bucket_of_lt [simp]: "bucket_of h < KPROCENV_HASH_SIZE"
  by (simp add: bucket_of_def)

lemma bucket_ok_matches:
  "bucket_ok i bs \<Longrightarrow> e \<in> set bs \<Longrightarrow> entry_matches (kenventry_hashof name) name e \<longleftrightarrow> ee_name e = name"
  by (auto simp: bucket_ok_def entry_matches_def)

lemma bucket_ok_Cons:
  "bucket_ok i (b # bs) \<longleftrightarrow> ee_namhash b = kenventry_hashof (ee_name b)
    \<and> bucket_of (ee_namhash b) = i \<and> 0 \<notin> set (ee_name b) \<and> 0 \<notin> set (ee_value b)
    \<and> ee_name b \<notin> ee_name ` set bs \<and> bucket_ok i bs"
  by (auto simp: bucket_ok_def)

lemma bucket_ok_head:
  "bucket_ok i (b # bs) \<Longrightarrow> entry_matches (kenventry_hashof name) name b \<longleftrightarrow> ee_name b = name"
  by (rule bucket_ok_matches) auto

lemma bucket_ok_tl: "bucket_ok i (b # bs) \<Longrightarrow> bucket_ok i bs"
  by (simp only: bucket_ok_Cons)

lemma bucket_ok_fresh: "bucket_ok i (b # bs) \<Longrightarrow> ee_name b \<notin> ee_name ` set bs"
  by (simp add: bucket_ok_def)

lemmas bucket_ok_dest = bucket_ok_head bucket_ok_tl bucket_ok_fresh

lemma bucket_find_Some:
  assumes "bucket_ok i bs" and "bucket_find (kenventry_hashof name) name bs = Some e"
  shows "e \<in> set bs \<and> ee_name e = name"
  using assms
proof (induction bs)
  case (Cons b bs)
  then show ?case using bucket_ok_dest [OF Cons.prems(1)] by (auto split: if_splits)
qed simp

lemma bucket_find_None:
  assumes "bucket_ok i bs"
  shows "bucket_find (kenventry_hashof name) name bs = None \<longleftrightarrow> name \<notin> ee_name ` set bs"
  using assms
proof (induction bs)
  case (Cons b bs)
  then show ?case using bucket_ok_dest [OF Cons.prems(1)] by auto
qed simp

lemma bucket_replace_names:
  assumes "bucket_ok i bs" and "ee_name new = name"
  shows "map ee_name (bucket_replace (kenventry_hashof name) name new bs) = map ee_name bs"
  using assms(1)
proof (induction bs)
  case (Cons b bs)
  then show ?case using bucket_ok_dest [OF Cons.prems(1)] assms(2) by auto
qed simp

lemma bucket_replace_ok:
  assumes "bucket_ok i bs" and "bucket_ok i [new]" and "ee_name new = name"
  shows "bucket_ok i (bucket_replace (kenventry_hashof name) name new bs)"
proof -
  have "set (bucket_replace (kenventry_hashof name) name new bs) \<subseteq> insert new (set bs)"
    by (induction bs) auto
  moreover have "distinct (map ee_name (bucket_replace (kenventry_hashof name) name new bs))"
    using bucket_replace_names [OF assms(1,3)] assms(1) by (simp add: bucket_ok_def)
  ultimately show ?thesis using assms(1,2) unfolding bucket_ok_def by auto
qed

lemma bucket_replace_find:
  assumes "bucket_ok i bs" and "bucket_ok i [new]" and "ee_name new = name" and "name \<in> ee_name ` set bs"
  shows "bucket_find (kenventry_hashof k) k (bucket_replace (kenventry_hashof name) name new bs) =
    (if k = name then Some new else bucket_find (kenventry_hashof k) k bs)"
  using assms(1,4)
proof (induction bs)
  case (Cons b bs)
  then show ?case
    using bucket_ok_dest [OF Cons.prems(1)] bucket_ok_head [OF assms(2)] assms(3) by auto
qed simp

lemma bucket_delete_set:
  assumes "bucket_ok i bs"
  shows "bucket_delete (kenventry_hashof name) name bs = filter (\<lambda>e. ee_name e \<noteq> name) bs"
  using assms
proof (induction bs)
  case (Cons b bs)
  have "ee_name b = name \<Longrightarrow> filter (\<lambda>e. ee_name e \<noteq> name) bs = bs"
    using bucket_ok_fresh [OF Cons.prems] by (intro filter_True) (auto simp: image_iff)
  then show ?case using Cons bucket_ok_dest [OF Cons.prems] by auto
qed simp

lemma bucket_filter_ok: "bucket_ok i bs \<Longrightarrow> bucket_ok i (filter P bs)"
  by (auto simp: bucket_ok_def distinct_map_filter)

lemma bucket_filter_find:
  assumes "bucket_ok i bs"
  shows "bucket_find (kenventry_hashof k) k (filter (\<lambda>e. ee_name e \<noteq> name) bs) =
    (if k = name then None else bucket_find (kenventry_hashof k) k bs)"
  using assms
proof (induction bs)
  case (Cons b bs)
  then show ?case using bucket_ok_dest [OF Cons.prems] by auto
qed simp

text \<open>Updating one bucket.\<close>

definition set_bucket :: "kprocenv \<Rightarrow> cbytes \<Rightarrow> kenventry list \<Rightarrow> size_t \<Rightarrow> kprocenv" where
  "set_bucket env name bs mem = env\<lparr>pe_memcur := mem,
     pe_map := (pe_map env)[bucket_of (kenventry_hashof name) := bs]\<rparr>"

lemma set_bucket_ok:
  assumes "env_ok env" and "bucket_ok (bucket_of (kenventry_hashof name)) bs"
  shows "env_ok (set_bucket env name bs mem)"
  using assms by (auto simp: env_ok_def set_bucket_def nth_list_update)

lemma set_bucket_lookup:
  assumes "env_ok env"
    and "\<And>k. bucket_of (kenventry_hashof k) = bucket_of (kenventry_hashof name) \<Longrightarrow>
      map_option ee_value (bucket_find (kenventry_hashof k) k bs) = ((env_lookup env)(name := v)) k"
  shows "env_lookup (set_bucket env name bs mem) = (env_lookup env)(name := v)"
proof
  fix k
  show "env_lookup (set_bucket env name bs mem) k = ((env_lookup env)(name := v)) k"
  proof (cases "bucket_of (kenventry_hashof k) = bucket_of (kenventry_hashof name)")
    case True
    then show ?thesis using assms(2) [OF True] assms(1)
      by (simp add: env_lookup_def env_bucket_def set_bucket_def env_ok_def)
  next
    case False
    then show ?thesis
      by (auto simp: env_lookup_def env_bucket_def set_bucket_def)
  qed
qed

text \<open>Memory an environment takes, as \<open>pe_memcur\<close> is documented to count it.\<close>

definition entry_mem :: "kenventry \<Rightarrow> nat" where
  "entry_mem e = memsz (ee_name e) (ee_value e)"

definition env_mem :: "kprocenv \<Rightarrow> nat" where
  "env_mem env = weight (weight entry_mem) (pe_map env) + sizeof_ptr * pe_argc env
     + args_mem (pe_argv env)"

definition env_inv :: "kprocenv \<Rightarrow> bool" where
  "env_inv env \<longleftrightarrow> env_ok env \<and> unat (pe_memcur env) = env_mem env \<and> pe_memcur env \<le> pe_memmax env"

lemma set_bucket_mem:
  assumes "env_ok env"
  shows "env_mem (set_bucket env name bs m) + weight entry_mem (env_bucket env name) =
    env_mem env + weight entry_mem bs"
proof -
  let ?i = "bucket_of (kenventry_hashof name)"
  have "weight (weight entry_mem) ((pe_map env)[?i := bs]) + weight entry_mem (pe_map env ! ?i) =
      weight (weight entry_mem) (pe_map env) + weight entry_mem bs"
    by (rule weight_list_update) (use assms in \<open>simp add: env_ok_def\<close>)
  then show ?thesis by (simp add: env_mem_def set_bucket_def env_bucket_def pe_argc_def)
qed

lemma weight_Cons [simp]: "weight w (x # xs) = w x + weight w xs" "weight w [] = 0"
  by (simp_all add: weight_def)

lemma bucket_replace_mem:
  assumes "bucket_find hash name bs = Some e"
  shows "weight entry_mem (bucket_replace hash name new bs) + entry_mem e =
    weight entry_mem bs + entry_mem new"
  using assms by (induction bs) (auto split: if_splits)

lemma bucket_delete_mem:
  assumes "bucket_find hash name bs = Some e"
  shows "weight entry_mem (bucket_delete hash name bs) + entry_mem e = weight entry_mem bs"
  using assms by (induction bs) (auto split: if_splits)

lemma env_bucket_mem_le:
  assumes "env_ok env"
  shows "weight entry_mem (env_bucket env name) \<le> env_mem env"
  using assms weight_ge [of "bucket_of (kenventry_hashof name)" "pe_map env" "weight entry_mem"]
  by (simp add: env_ok_def env_bucket_def env_mem_def)

definition new_entry :: "cbytes \<Rightarrow> cbytes \<Rightarrow> kenventry" where
  "new_entry name value = \<lparr>ee_namhash = kenventry_hashof name, ee_name = name, ee_value = value\<rparr>"

text \<open>The operations on canonical names, bucket by bucket.\<close>

lemma setenv_unfold:
  assumes "n = cstr name nmax" and "v = cstr value vmax"
  shows "kprocenv_kernel_setenv_c mem env name nmax value vmax override =
    (case bucket_find (kenventry_hashof n) n (env_bucket env n) of
       Some b \<Rightarrow>
         let newmem = pe_memcur env - kenventry_memsz b + of_nat (memsz n v) in
         if \<not> override then (KE_EXISTS, env)
         else if newmem > pe_memmax env then (KE_ACCES, env)
         else if \<not> mem then (KE_NOMEM, env)
         else (KS_FOUND, set_bucket env n
           (bucket_replace (kenventry_hashof n) n (new_entry n v) (env_bucket env n)) newmem)
     | None \<Rightarrow>
         let newmem = pe_memcur env + of_nat (memsz n v) in
         if newmem > pe_memmax env then (KE_ACCES, env)
         else if \<not> mem then (KE_NOMEM, env)
         else (KE_OK, set_bucket env n (new_entry n v # env_bucket env n) newmem))"
  unfolding kprocenv_kernel_setenv_c_def assms [symmetric] Let_def
  by (auto simp: env_bucket_def set_bucket_def kenventry_new_def new_entry_def split: option.splits)

lemma delenv_unfold:
  assumes "n = cstr name nmax"
  shows "kprocenv_delenv_c env name nmax =
    (case bucket_find (kenventry_hashof n) n (env_bucket env n) of
       Some b \<Rightarrow> (KE_OK, set_bucket env n (bucket_delete (kenventry_hashof n) n (env_bucket env n))
         (pe_memcur env - kenventry_memsz b))
     | None \<Rightarrow> (KE_NOENT, env))"
  unfolding kprocenv_delenv_c_def assms [symmetric] Let_def
  by (simp add: env_bucket_def set_bucket_def split: option.splits)

lemma env_bucket_ok: "env_ok env \<Longrightarrow> bucket_ok (bucket_of (kenventry_hashof n)) (env_bucket env n)"
  by (simp add: env_ok_def env_bucket_def)

lemma new_entry_ok:
  "0 \<notin> set n \<Longrightarrow> 0 \<notin> set v \<Longrightarrow> bucket_ok (bucket_of (kenventry_hashof n)) [new_entry n v]"
  by (simp add: bucket_ok_def new_entry_def)

lemma setenv_found_ok:
  assumes "env_ok env" and "0 \<notin> set n" and "0 \<notin> set v" and "n \<in> ee_name ` set (env_bucket env n)"
  defines "bs \<equiv> bucket_replace (kenventry_hashof n) n (new_entry n v) (env_bucket env n)"
  shows "env_ok (set_bucket env n bs m) \<and> env_lookup (set_bucket env n bs m) = (env_lookup env)(n \<mapsto> v)"
proof
  note ok = env_bucket_ok [OF assms(1), of n] and new = new_entry_ok [OF assms(2,3)]
  have name: "ee_name (new_entry n v) = n" by (simp add: new_entry_def)
  show "env_ok (set_bucket env n bs m)"
    unfolding bs_def by (rule set_bucket_ok [OF assms(1) bucket_replace_ok [OF ok new name]])
  show "env_lookup (set_bucket env n bs m) = (env_lookup env)(n \<mapsto> v)"
  proof (rule set_bucket_lookup [OF assms(1)])
    fix k assume "bucket_of (kenventry_hashof k) = bucket_of (kenventry_hashof n)"
    then show "map_option ee_value (bucket_find (kenventry_hashof k) k bs) = ((env_lookup env)(n \<mapsto> v)) k"
      unfolding bs_def bucket_replace_find [OF ok new name assms(4)]
      by (simp add: env_lookup_def env_bucket_def new_entry_def)
  qed
qed

lemma setenv_new_ok:
  assumes "env_ok env" and "0 \<notin> set n" and "0 \<notin> set v" and "n \<notin> ee_name ` set (env_bucket env n)"
  defines "bs \<equiv> new_entry n v # env_bucket env n"
  shows "env_ok (set_bucket env n bs m) \<and> env_lookup (set_bucket env n bs m) = (env_lookup env)(n \<mapsto> v)"
proof
  have ok: "bucket_ok (bucket_of (kenventry_hashof n)) bs"
    using env_bucket_ok [OF assms(1), of n] new_entry_ok [OF assms(2,3)] assms(4)
    by (simp add: bs_def bucket_ok_Cons new_entry_def)
  show "env_ok (set_bucket env n bs m)" by (rule set_bucket_ok [OF assms(1) ok])
  show "env_lookup (set_bucket env n bs m) = (env_lookup env)(n \<mapsto> v)"
  proof (rule set_bucket_lookup [OF assms(1)])
    fix k assume "bucket_of (kenventry_hashof k) = bucket_of (kenventry_hashof n)"
    then show "map_option ee_value (bucket_find (kenventry_hashof k) k bs) = ((env_lookup env)(n \<mapsto> v)) k"
      using bucket_ok_head [OF ok [unfolded bs_def], of k]
      by (auto simp: bs_def env_lookup_def env_bucket_def new_entry_def)
  qed
qed

lemma setenv_law:
  assumes "env_ok env" and "kprocenv_kernel_setenv_c mem env name nmax value vmax override = (e, env')"
    and "n = cstr name nmax" and "v = cstr value vmax"
  shows "env_ok env' \<and> (if KE_ISOK e then env_lookup env' = (env_lookup env)(n \<mapsto> v) else env' = env)"
proof -
  have nz: "0 \<notin> set n" "0 \<notin> set v" using assms(3,4) by auto
  note none = bucket_find_None [OF env_bucket_ok [OF assms(1), of n], of n]
  show ?thesis
  proof (cases "n \<in> ee_name ` set (env_bucket env n)")
    case True
    then show ?thesis
      using assms(1,2) none setenv_found_ok [OF assms(1) nz True]
      unfolding setenv_unfold [OF assms(3,4)] by (auto simp: Let_def split: option.splits if_splits)
  next
    case False
    then show ?thesis
      using assms(1,2) none setenv_new_ok [OF assms(1) nz False]
      unfolding setenv_unfold [OF assms(3,4)] by (auto simp: Let_def split: option.splits if_splits)
  qed
qed

lemma delenv_law:
  assumes "env_ok env" and "kprocenv_delenv_c env name nmax = (e, env')" and "n = cstr name nmax"
  shows "env_ok env' \<and> env_lookup env' = (env_lookup env)(n := None)
    \<and> (KE_ISOK e \<longleftrightarrow> env_lookup env n \<noteq> None)"
proof (cases "bucket_find (kenventry_hashof n) n (env_bucket env n)")
  case None
  then show ?thesis using assms(1,2) unfolding delenv_unfold [OF assms(3)]
    by (auto simp: env_lookup_def)
next
  case (Some b)
  note ok = env_bucket_ok [OF assms(1), of n]
  let ?bs = "filter (\<lambda>e. ee_name e \<noteq> n) (env_bucket env n)"
  have env': "env' = set_bucket env n ?bs (pe_memcur env - kenventry_memsz b)" and e: "e = KE_OK"
    using assms(2) Some unfolding delenv_unfold [OF assms(3)] bucket_delete_set [OF ok] by simp_all
  have "env_lookup env' = (env_lookup env)(n := None)"
    unfolding env'
  proof (rule set_bucket_lookup [OF assms(1)])
    fix k assume "bucket_of (kenventry_hashof k) = bucket_of (kenventry_hashof n)"
    then show "map_option ee_value (bucket_find (kenventry_hashof k) k ?bs) =
        ((env_lookup env)(n := None)) k"
      unfolding bucket_filter_find [OF ok] by (simp add: env_lookup_def env_bucket_def)
  qed
  moreover have "env_ok env'"
    unfolding env' by (rule set_bucket_ok [OF assms(1) bucket_filter_ok [OF ok]])
  ultimately show ?thesis using e Some by (simp add: env_lookup_def)
qed

interpretation env_store: var_store env_ok "\<lambda>n. 0 \<notin> set n" "\<lambda>v. 0 \<notin> set v" env_lookup
  "\<lambda>env n v. kprocenv_kernel_setenv_c mem env n (length n) v (length v) True"
  "\<lambda>env n. kprocenv_delenv_c env n (length n)"
  for mem
proof
  fix env env' :: kprocenv and n v :: cbytes and e
  assume ok: "env_ok env" and n: "0 \<notin> set n"
  show "env_ok env' \<and> (if KE_ISOK e then env_lookup env' = (env_lookup env)(n \<mapsto> v) else env' = env)"
    if "0 \<notin> set v" "kprocenv_kernel_setenv_c mem env n (length n) v (length v) True = (e, env')"
    using setenv_law [OF ok that(2), of n v] n that(1) by (simp add: cstr_id)
  show "env_ok env' \<and> env_lookup env' = (env_lookup env)(n := None)
      \<and> (KE_ISOK e \<longleftrightarrow> env_lookup env n \<noteq> None)"
    if "kprocenv_delenv_c env n (length n) = (e, env')"
    using delenv_law [OF ok that, of n] n by (simp add: cstr_id)
qed

text \<open>
  C3. The hash table of environment variables behaves as a finite map: after any sequence of
  \<open>kprocenv_kernel_setenv_c\<close> (overriding) and \<open>kprocenv_delenv_c\<close> calls, whatever the allocator does,
  \<open>kprocenv_getenv\<close> returns for every name what the map returns that was updated by exactly the calls
  that reported success; the table stays well-formed.
\<close>

theorem kprocenv_refines_map:
  assumes "env_ok env"
    and "\<forall>x \<in> set ops. case x of Put n v \<Rightarrow> 0 \<notin> set n \<and> 0 \<notin> set v | Del n \<Rightarrow> 0 \<notin> set n"
    and "store_run (\<lambda>env n v. kprocenv_kernel_setenv_c mem env n (length n) v (length v) True)
      (\<lambda>env n. kprocenv_delenv_c env n (length n)) env ops = (es, env')"
  shows "env_ok env' \<and> kprocenv_getenv env' name name_max =
    store_spec (env_lookup env) (zip ops es) (cstr name name_max)"
  using env_store.run_refines [OF assms] by (simp add: getenv_lookup)

theorem kprocenv_refines_map_witness:
  "\<exists>es env'. store_run (\<lambda>env n v. kprocenv_kernel_setenv_c True env n (length n) v (length v) True)
      (\<lambda>env n. kprocenv_delenv_c env n (length n)) kprocenv_initroot
      [Put [65] [49], Put [66] [50], Del [65]] = (es, env')
    \<and> env_ok env' \<and> kprocenv_getenv env' [66] 5 =
      store_spec (env_lookup kprocenv_initroot) (zip [Put [65] [49], Put [66] [50], Del [65]] es)
        (cstr [66] 5)"
proof -
  let ?run = "store_run (\<lambda>env n v. kprocenv_kernel_setenv_c True env n (length n) v (length v) True)
    (\<lambda>env n. kprocenv_delenv_c env n (length n)) kprocenv_initroot
    [Put [65] [49], Put [66] [50], Del [65]]"
  have ok: "env_ok kprocenv_initroot" by (simp add: env_ok_def kprocenv_initroot_def bucket_ok_def)
  obtain es env' where run: "?run = (es, env')" by (cases ?run)
  then show ?thesis using kprocenv_refines_map [OF ok _ run, of "[66]" 5] by auto
qed

lemma unat_of_nat_small: "n < 2 ^ 32 \<Longrightarrow> unat (of_nat n :: size_t) = n"
  by (simp add: unat_of_nat take_bit_nat_eq_self)

lemma of_nat_unat_eq: "unat (w :: size_t) = n \<Longrightarrow> w = of_nat n"
  by (metis of_nat_unat ucast_id)

lemma mem_replace:
  assumes "unat (w :: size_t) = m" and "b \<le> m" and "m - b + c < 2 ^ 32"
  shows "unat (w - of_nat b + of_nat c) = m - b + c"
proof -
  have "w - of_nat b + of_nat c = of_nat (m - b + c)"
    using of_nat_unat_eq [OF assms(1)] assms(2) by (simp add: of_nat_diff)
  then show ?thesis using unat_of_nat_small [OF assms(3)] by simp
qed

lemma entry_mem_le:
  assumes "bucket_find h n bs = Some b"
  shows "entry_mem b \<le> weight entry_mem bs"
  using assms by (induction bs) (auto split: if_splits)

lemma set_bucket_fields [simp]:
  "pe_memcur (set_bucket env n bs m) = m" "pe_memmax (set_bucket env n bs m) = pe_memmax env"
  by (simp_all add: set_bucket_def)

text \<open>
  C21. \<open>pe_memcur\<close> is exact and the quota is kept: setting or deleting a variable leaves \<open>pe_memcur\<close>
  equal to the bytes of all variables and arguments and not above \<open>pe_memmax\<close>, provided the total
  fits the 32-bit address space.
\<close>

theorem kprocenv_setenv_mem:
  assumes inv: "env_inv env"
    and fits: "env_mem env + memsz (cstr name nmax) (cstr value vmax) < 2 ^ 32"
    and set: "kprocenv_kernel_setenv_c mem env name nmax value vmax override = (e, env')"
    and del: "kprocenv_delenv_c env name nmax = (e2, env2)"
  shows "env_inv env' \<and> env_inv env2"
proof
  let ?n = "cstr name nmax" and ?v = "cstr value vmax"
  let ?bs = "env_bucket env ?n"
  have ok: "env_ok env" and cur: "unat (pe_memcur env) = env_mem env"
    and le: "pe_memcur env \<le> pe_memmax env"
    using inv by (auto simp: env_inv_def)
  have new: "entry_mem (new_entry ?n ?v) = memsz ?n ?v" by (simp add: entry_mem_def new_entry_def)
  note bmem = set_bucket_mem [OF ok, of ?n] and bmem_le = env_bucket_mem_le [OF ok, of ?n]
  have ok': "env_ok env'" using setenv_law [OF ok set refl refl] by simp
  have ok2: "env_ok env2" using delenv_law [OF ok del refl] by simp
  show "env_inv env'"
  proof (cases "bucket_find (kenventry_hashof ?n) ?n ?bs")
    case None
    have "unat (pe_memcur env - of_nat 0 + of_nat (memsz ?n ?v)) = env_mem env - 0 + memsz ?n ?v"
      by (rule mem_replace [OF cur]) (use fits in auto)
    then show ?thesis
      using set None inv ok' bmem [of "new_entry ?n ?v # ?bs"] new
      unfolding setenv_unfold [OF refl refl]
      by (auto simp: env_inv_def Let_def not_less split: if_splits)
  next
    case (Some b)
    let ?new = "bucket_replace (kenventry_hashof ?n) ?n (new_entry ?n ?v) ?bs"
    have bl: "entry_mem b \<le> env_mem env" using entry_mem_le [OF Some] bmem_le by linarith
    have "unat (pe_memcur env - of_nat (entry_mem b) + of_nat (memsz ?n ?v)) =
        env_mem env - entry_mem b + memsz ?n ?v"
      by (rule mem_replace [OF cur bl]) (use fits in linarith)
    moreover have "env_mem (set_bucket env ?n ?new m) = env_mem env - entry_mem b + memsz ?n ?v" for m
      using bmem [of ?new m] bucket_replace_mem [OF Some, of "new_entry ?n ?v"] bl new
        entry_mem_le [OF Some] by linarith
    ultimately show ?thesis
      using set Some inv ok' unfolding setenv_unfold [OF refl refl]
      by (auto simp: env_inv_def Let_def not_less kenventry_memsz_def entry_mem_def split: if_splits)
  qed
  show "env_inv env2"
  proof (cases "bucket_find (kenventry_hashof ?n) ?n ?bs")
    case None
    then show ?thesis using del inv unfolding delenv_unfold [OF refl] by simp
  next
    case (Some b)
    let ?new = "bucket_delete (kenventry_hashof ?n) ?n ?bs"
    have bl: "entry_mem b \<le> env_mem env" using entry_mem_le [OF Some] bmem_le by linarith
    have "unat (pe_memcur env - of_nat (entry_mem b) + of_nat 0) = env_mem env - entry_mem b + 0"
      by (rule mem_replace [OF cur bl]) (use fits in linarith)
    moreover have "env_mem (set_bucket env ?n ?new m) = env_mem env - entry_mem b" for m
      using bmem [of ?new m] bucket_delete_mem [OF Some] bl by linarith
    moreover have "pe_memcur env - of_nat (entry_mem b) \<le> pe_memmax env"
      using calculation(1) le cur by (simp add: word_le_nat_alt)
    ultimately show ?thesis
      using del Some ok2 unfolding delenv_unfold [OF refl]
      by (auto simp: env_inv_def kenventry_memsz_def entry_mem_def)
  qed
qed

lemma initroot_inv: "env_inv kprocenv_initroot"
  by (simp add: env_inv_def env_ok_def env_mem_def kprocenv_initroot_def bucket_ok_def
      weight_replicate args_mem_def pe_argc_def)

theorem kprocenv_setenv_mem_witness:
  "env_inv (snd (kprocenv_kernel_setenv_c True kprocenv_initroot [65] 1 [49, 50] 2 True))
    \<and> env_inv (snd (kprocenv_delenv_c kprocenv_initroot [65] 1))"
proof (rule kprocenv_setenv_mem [OF initroot_inv _ prod.collapse [symmetric] prod.collapse [symmetric]])
  show "env_mem kprocenv_initroot + memsz (cstr [65] 1) (cstr [49, 50] 2) < 2 ^ 32"
    by (simp add: env_mem_def kprocenv_initroot_def weight_replicate args_mem_def pe_argc_def
        memsz_def cstr_def)
qed

lemma args_mem_simps [simp]:
  "args_mem [] = 0" "args_mem (a # as) = length a + 1 + args_mem as"
  "args_mem (as @ bs) = args_mem as + args_mem bs"
  by (simp_all add: args_mem_def)

lemma unat_add_small:
  "unat (w :: size_t) + n < 2 ^ 32 \<Longrightarrow> unat (w + of_nat n) = unat w + n"
  using mem_replace [of w "unat w" 0 n] by simp

lemma setargv_loop_cases:
  assumes "setargv_loop alloc memmax i newmem args = (e, m', rest)"
    and "unat newmem + args_mem args < 2 ^ 32"
  shows "(e = KE_OK \<and> rest = args \<and> unat m' = unat newmem + args_mem args
      \<and> (args \<noteq> [] \<longrightarrow> m' \<le> memmax)) \<or> KE_ISERR e"
  using assms
proof (induction args arbitrary: i newmem rest)
  case Nil
  then show ?case by simp
next
  case (Cons a args)
  let ?m = "newmem + of_nat (length a + 1)"
  have m: "unat ?m = unat newmem + (length a + 1)"
    by (rule unat_add_small) (use Cons.prems(2) in simp)
  obtain e1 m1 rest1 where rec: "setargv_loop alloc memmax (Suc i) ?m args = (e1, m1, rest1)"
    by (cases "setargv_loop alloc memmax (Suc i) ?m args")
  have "unat ?m + args_mem args < 2 ^ 32" using m Cons.prems(2) by simp
  note IH = Cons.IH [OF _ this, of "Suc i"]
  show ?case
  proof (cases "memmax \<le> ?m \<or> \<not> alloc i")
    case True
    then show ?thesis using Cons.prems(1) by (auto simp: Let_def split: if_splits)
  next
    case False
    then have "e = e1" "m' = m1" "rest = a # rest1"
      using Cons.prems(1) rec by (auto simp: Let_def)
    then show ?thesis using IH [of rest1] rec m False by (cases args) auto
  qed
qed



text \<open>
  \<open>kprocenv_putenv_c\<close> given \<open>name=value\<close> stores the whole text, not the part after the equals
  sign, as the value of the variable.
\<close>

theorem kprocenv_putenv_value:
  assumes "env_ok env" and "0 \<notin> set name" and "61 \<notin> set name" and "0 \<notin> set val"
    and "text = name @ 61 # val"
    and "kprocenv_putenv_c mem env text (length text) = (e, env')" and "KE_ISOK e"
  shows "kprocenv_getenv env' name (length name) = Some text"
proof -
  have split: "split_at_char 61 (cstr text (length text)) = Some (name, val)"
  proof -
    have "cstr text (length text) = text" using assms by (intro cstr_id) auto
    moreover have "takeWhile (\<lambda>b. b \<noteq> 61) text = name" "dropWhile (\<lambda>b. b \<noteq> 61) text = 61 # val"
      using assms(3,5) by (auto simp: takeWhile_append dropWhile_append)
    ultimately show ?thesis using assms(5) by (simp add: split_at_char_def)
  qed
  have name: "cstr text (length name) = name" using assms by (simp add: cstr_def takeWhile_eq_all_conv) metis
  have whole: "cstr text (length text) = text" using assms by (intro cstr_id) auto
  have "kprocenv_kernel_setenv_c mem env text (length name) text (length text) True = (e, env')"
    using assms(6) split by (simp add: kprocenv_putenv_c_def)
  then have "env_lookup env' = (env_lookup env)(name \<mapsto> text)"
    using setenv_law [OF assms(1) _ name [symmetric] whole [symmetric]] assms(7) by metis
  then show ?thesis using assms(2) by (simp add: getenv_lookup cstr_id)
qed

theorem kprocenv_putenv_value_witness:
  "kprocenv_getenv (snd (kprocenv_putenv_c True kprocenv_initroot [65, 61, 49] (Suc (Suc (Suc 0))))) [65] 1
    = Some [65, 61, 49]"
proof -
  let ?put = "kprocenv_putenv_c True kprocenv_initroot [65, 61, 49] (length [65, 61, 49 :: u8])"
  have ok: "env_ok kprocenv_initroot" using initroot_inv by (simp add: env_inv_def)
  have "KE_ISOK (fst ?put)"
    by (simp add: kprocenv_putenv_c_def split_at_char_def cstr_def kprocenv_kernel_setenv_c_def
        kprocenv_initroot_def kenventry_new_def Let_def)
  then show ?thesis
    using kprocenv_putenv_value [OF ok _ _ _ _ prod.collapse [symmetric], of "[65]" "[49]" "[65, 61, 49]" True]
    by simp
qed

text \<open>
  Replacing only the arguments after \<open>exec\<close> leaves \<open>pe_memcur\<close> too large: the terminating zeros of the
  old arguments stay accounted for, one byte for each old argument, because the loop that gives the
  memory back adds up \<open>strlen\<close>.
\<close>

theorem kprocenv_install_leaks:
  assumes "env_inv self" and "env_inv newenv" and "weight (weight entry_mem) (pe_map newenv) = 0"
    and "env_mem self + env_mem newenv < 2 ^ 32"
  shows "unat (pe_memcur (kprocenv_install_after_exec self newenv True)) =
    env_mem (kprocenv_install_after_exec self newenv True) + pe_argc self"
proof -
  have sum: "sum_list (map (\<lambda>a. of_nat (length a)) as) + of_nat (length as) = (of_nat (args_mem as) :: size_t)"
    for as by (induction as) (auto simp: algebra_simps)
  define freed where "freed = sizeof_ptr * pe_argc self + args_mem (pe_argv self) - pe_argc self"
  have ge: "pe_argc self \<le> args_mem (pe_argv self)"
    unfolding pe_argc_def by (induction "pe_argv self") (auto simp: args_mem_def sum_list_Suc)
  have size: "of_nat (pe_argc self * sizeof_ptr) + sum_list (map (\<lambda>a. of_nat (length a)) (pe_argv self)) =
      (of_nat freed :: size_t)"
    using sum [of "pe_argv self"] ge by (simp add: freed_def pe_argc_def of_nat_diff algebra_simps)
  have le: "freed \<le> env_mem self" by (simp add: freed_def env_mem_def)
  have cur: "unat (pe_memcur self) = env_mem self" "unat (pe_memcur newenv) = env_mem newenv"
    using assms by (auto simp: env_inv_def)
  have "unat (pe_memcur self - of_nat freed + of_nat (env_mem newenv)) = env_mem self - freed + env_mem newenv"
    by (rule mem_replace [OF cur(1) le]) (use assms(4) in linarith)
  moreover have newcur: "pe_memcur newenv = of_nat (env_mem newenv)"
    using cur(2) by (rule of_nat_unat_eq)
  have "pe_memcur (kprocenv_install_after_exec self newenv True) =
      pe_memcur self - of_nat freed + of_nat (env_mem newenv)"
    unfolding kprocenv_install_after_exec_def Let_def size newcur by simp
  moreover have "env_mem (kprocenv_install_after_exec self newenv True) + pe_argc self =
      env_mem self - freed + env_mem newenv"
    using ge assms(3)
    by (simp add: kprocenv_install_after_exec_def Let_def env_mem_def pe_argc_def freed_def)
  ultimately show ?thesis by simp
qed

theorem kprocenv_install_leaks_witness:
  "unat (pe_memcur (kprocenv_install_after_exec
      (kprocenv_initroot\<lparr>pe_argv := [[97]], pe_memcur := 6\<rparr>) kprocenv_initroot True)) = 0 + 1"
proof -
  let ?old = "kprocenv_initroot\<lparr>pe_argv := [[97]], pe_memcur := 6\<rparr>"
  have "env_inv ?old"
    using initroot_inv by (simp add: env_inv_def env_ok_def env_mem_def kprocenv_initroot_def
        weight_replicate pe_argc_def)
  then show ?thesis
    using kprocenv_install_leaks [OF _ initroot_inv, of ?old]
    by (simp add: env_mem_def kprocenv_initroot_def weight_replicate pe_argc_def
        kprocenv_install_after_exec_def)
qed

end
