(* ===== verification/ProcPerm.thy ===== *)
theory ProcPerm
  imports Refcount
begin

text \<open>
  Process permissions and sandbox barriers (\<^verbatim>\<open>include/kos/kernel/procperm.h\<close>,
  \<^verbatim>\<open>src/kernel/procperm.c\<close>), with the ancestor test of \<^verbatim>\<open>src/kernel/sched/task.c\<close>. Priorities are
  signed 16-bit numbers, kept as words and compared by their signed value.
\<close>

section \<open>The task tree\<close>

text \<open>
  \<open>parent\<close> maps a task to its parent; a root task is its own parent. The loop only ends if the walk up
  the tree meets the wanted task or a root; otherwise the value is \<^const>\<open>None\<close>.
\<close>

partial_function (option) ktask_ischildof :: "(addr \<Rightarrow> addr) \<Rightarrow> addr \<Rightarrow> addr \<Rightarrow> bool option" where
  "ktask_ischildof parent self p =
     (let nxt = parent self in
      if nxt = p then Some True
      else if nxt = self then Some False
      else ktask_ischildof parent nxt p)"

section \<open>State\<close>

type_synonym prio = "16 word"

record kprocperm =
  pp_barriers :: "addr list"
  pp_priomin :: prio
  pp_priomax :: prio
  pp_namemax :: size_t
  pp_pipemax :: size_t
  pp_thrdmax :: size_t
  pp_flags :: "u16 list"
  pp_state :: u32

abbreviation KSANDBOX_BARRIER_COUNT :: nat where "KSANDBOX_BARRIER_COUNT \<equiv> 4"
abbreviation KPERM_FLAG_GROUPCOUNT :: nat where "KPERM_FLAG_GROUPCOUNT \<equiv> 4"
abbreviation KSANDBOX_BARRIER_NOSETMEM :: u32 where "KSANDBOX_BARRIER_NOSETMEM \<equiv> 8"
abbreviation KSANDBOX_BARRIER_NOGETMEM :: u32 where "KSANDBOX_BARRIER_NOGETMEM \<equiv> 4"
abbreviation KSANDBOX_BARRIER_NOSETPROP :: u32 where "KSANDBOX_BARRIER_NOSETPROP \<equiv> 2"
abbreviation KSANDBOX_BARRIER_NOGETPROP :: u32 where "KSANDBOX_BARRIER_NOGETPROP \<equiv> 1"
abbreviation KTASKPRIO_MIN :: prio where "KTASKPRIO_MIN \<equiv> 0x8000"
abbreviation KTASKPRIO_MAX :: prio where "KTASKPRIO_MAX \<equiv> 0x7FFF"
abbreviation KPROCSTATE_SHIFT_LOGPRIV :: nat where "KPROCSTATE_SHIFT_LOGPRIV \<equiv> 28"
abbreviation KPROCSTATE_MASK_LOGPRIV :: u32 where "KPROCSTATE_MASK_LOGPRIV \<equiv> 0xF0000000"

definition pp_gpbarrier :: "kprocperm \<Rightarrow> addr" where "pp_gpbarrier p = pp_barriers p ! 0"
definition pp_spbarrier :: "kprocperm \<Rightarrow> addr" where "pp_spbarrier p = pp_barriers p ! 1"
definition pp_gmbarrier :: "kprocperm \<Rightarrow> addr" where "pp_gmbarrier p = pp_barriers p ! 2"
definition pp_smbarrier :: "kprocperm \<Rightarrow> addr" where "pp_smbarrier p = pp_barriers p ! 3"

definition kprocperm_getpriomin :: "kprocperm \<Rightarrow> prio" where "kprocperm_getpriomin p = pp_priomin p"
definition kprocperm_getpriomax :: "kprocperm \<Rightarrow> prio" where "kprocperm_getpriomax p = pp_priomax p"
definition kprocperm_getnamemax :: "kprocperm \<Rightarrow> size_t" where "kprocperm_getnamemax p = pp_namemax p"
definition kprocperm_getpipemax :: "kprocperm \<Rightarrow> size_t" where "kprocperm_getpipemax p = pp_pipemax p"

text \<open>The macro \<open>kprocperm_getthrdmax\<close> reads the pipe limit.\<close>

definition kprocperm_getthrdmax :: "kprocperm \<Rightarrow> size_t" where "kprocperm_getthrdmax p = pp_pipemax p"

definition kprocperm_getlogpriv :: "kprocperm \<Rightarrow> int" where
  "kprocperm_getlogpriv p = uint (drop_bit KPROCSTATE_SHIFT_LOGPRIV (pp_state p))"

definition kprocperm_hasflag :: "kprocperm \<Rightarrow> u32 \<Rightarrow> bool" where
  "kprocperm_hasflag p flag =
     (let group = unat (drop_bit 16 (flag AND 0xFFFF0000)); msk = (ucast (flag AND 0xFFFF) :: u16)
      in (pp_flags p ! group) AND msk = msk)"

section \<open>Construction and destruction\<close>

definition kprocperm_initroot :: "refstore \<Rightarrow> addr \<Rightarrow> kerrno \<times> kprocperm option \<times> refstore" where
  "kprocperm_initroot rs taskzero =
     (if rs taskzero > - 1 - of_nat KSANDBOX_BARRIER_COUNT then (KE_OVERFLOW, None, rs)
      else (KE_OK,
        Some \<lparr>pp_barriers = replicate KSANDBOX_BARRIER_COUNT taskzero,
              pp_priomin = KTASKPRIO_MIN, pp_priomax = KTASKPRIO_MAX,
              pp_namemax = - 1, pp_pipemax = - 1, pp_thrdmax = - 1,
              pp_flags = replicate KPERM_FLAG_GROUPCOUNT 0xFFFF, pp_state = 0\<rparr>,
        rs(taskzero := rs taskzero + of_nat KSANDBOX_BARRIER_COUNT)))"

text \<open>The loop of \<open>kprocperm_initcopy\<close>; \<open>taken\<close> are the barriers already referenced, latest first.\<close>

fun copy_barriers :: "refstore \<Rightarrow> addr list \<Rightarrow> addr list \<Rightarrow> kerrno \<times> refstore" where
  "copy_barriers rs taken [] = (KE_OK, rs)"
| "copy_barriers rs taken (task # rest) =
     (case kobject_incref rs task of
        (error, rs') \<Rightarrow>
          if KE_ISERR error then (error, fold (\<lambda>t rs. snd (kobject_decref rs t)) taken rs')
          else copy_barriers rs' (task # taken) rest)"

definition kprocperm_initcopy ::
  "refstore \<Rightarrow> kprocperm \<Rightarrow> kerrno \<times> kprocperm option \<times> refstore" where
  "kprocperm_initcopy rs right =
     (case copy_barriers rs [] (pp_barriers right) of
        (error, rs') \<Rightarrow>
          if KE_ISERR error then (error, None, rs')
          else (KE_OK, Some (right\<lparr>pp_priomax :=
            (if sint (pp_priomax right) < sint (pp_priomin right) then pp_priomin right
             else pp_priomax right)\<rparr>), rs'))"

definition kprocperm_quit :: "refstore \<Rightarrow> kprocperm \<Rightarrow> refstore" where
  "kprocperm_quit rs p = fold (\<lambda>t rs. snd (kobject_decref rs t)) (pp_barriers p) rs"

section \<open>Barriers\<close>

definition requested_barriers :: "kprocperm \<Rightarrow> u32 \<Rightarrow> addr list" where
  "requested_barriers p barrier =
     (if barrier AND KSANDBOX_BARRIER_NOSETMEM \<noteq> 0 then [pp_smbarrier p] else [])
     @ (if barrier AND KSANDBOX_BARRIER_NOGETMEM \<noteq> 0 then [pp_gmbarrier p] else [])
     @ (if barrier AND KSANDBOX_BARRIER_NOSETPROP \<noteq> 0 then [pp_spbarrier p] else [])
     @ (if barrier AND KSANDBOX_BARRIER_NOGETPROP \<noteq> 0 then [pp_gpbarrier p] else [])"

fun select_barrier :: "(addr \<Rightarrow> addr) \<Rightarrow> addr \<Rightarrow> addr list \<Rightarrow> addr option" where
  "select_barrier parent result [] = Some result"
| "select_barrier parent result (b # bs) =
     (if b = result then select_barrier parent result bs
      else (case ktask_ischildof parent b result of
          None \<Rightarrow> None
        | Some child \<Rightarrow> select_barrier parent (if child then b else result) bs))"

definition kprocperm_getmaxbarrier :: "(addr \<Rightarrow> addr) \<Rightarrow> kprocperm \<Rightarrow> u32 \<Rightarrow> addr option" where
  "kprocperm_getmaxbarrier parent p barrier =
     (case requested_barriers p barrier of
        [] \<Rightarrow> None
      | b # bs \<Rightarrow> select_barrier parent b bs)"

definition kprocperm_constant_getmaxbarrier ::
  "(addr \<Rightarrow> addr) \<Rightarrow> kprocperm \<Rightarrow> u32 \<Rightarrow> addr option" where
  "kprocperm_constant_getmaxbarrier parent p barrier =
     (if barrier = KSANDBOX_BARRIER_NOSETMEM then Some (pp_smbarrier p)
      else if barrier = KSANDBOX_BARRIER_NOGETMEM then Some (pp_gmbarrier p)
      else if barrier = KSANDBOX_BARRIER_NOSETPROP then Some (pp_spbarrier p)
      else if barrier = KSANDBOX_BARRIER_NOGETPROP then Some (pp_gpbarrier p)
      else kprocperm_getmaxbarrier parent p barrier)"

section \<open>The ancestor test\<close>

definition ancestor :: "(addr \<Rightarrow> addr) \<Rightarrow> addr \<Rightarrow> addr \<Rightarrow> bool" where
  "ancestor parent t a \<longleftrightarrow> (\<exists>k. (parent ^^ Suc k) t = a)"

lemma ancestor_step:
  "ancestor parent t a \<longleftrightarrow> parent t = a \<or> ancestor parent (parent t) a"
proof
  assume "ancestor parent t a"
  then obtain k where "(parent ^^ Suc k) t = a" by (auto simp: ancestor_def)
  then show "parent t = a \<or> ancestor parent (parent t) a"
    by (cases k) (auto simp: ancestor_def funpow_swap1)
next
  assume "parent t = a \<or> ancestor parent (parent t) a"
  then show "ancestor parent t a"
  proof
    assume "parent t = a"
    then show ?thesis unfolding ancestor_def by (intro exI [of _ 0]) simp
  next
    assume "ancestor parent (parent t) a"
    then obtain k where "(parent ^^ Suc k) (parent t) = a" by (auto simp: ancestor_def)
    then show ?thesis unfolding ancestor_def by (intro exI [of _ "Suc k"]) (simp add: funpow_swap1)
  qed
qed

lemma ancestor_root: "parent t = t \<Longrightarrow> ancestor parent t a \<longleftrightarrow> a = t"
proof -
  assume root: "parent t = t"
  have "(parent ^^ k) t = t" for k by (induction k) (simp_all add: root)
  then show ?thesis using root by (auto simp: ancestor_def)
qed

lemma ischildof_Some:
  assumes "parent ((parent ^^ n) self) = (parent ^^ n) self"
  shows "ktask_ischildof parent self p = Some (ancestor parent self p)"
  using assms
proof (induction n arbitrary: self)
  case 0
  then show ?case
    by (subst ktask_ischildof.simps) (auto simp: Let_def ancestor_root)
next
  case (Suc n)
  have "ktask_ischildof parent (parent self) p = Some (ancestor parent (parent self) p)"
    using Suc by (simp add: funpow_swap1)
  then show ?case
    by (subst ktask_ischildof.simps, subst ancestor_step)
      (auto simp: Let_def ancestor_root)
qed

lemma ancestor_trans:
  assumes "ancestor parent a b" and "ancestor parent b c"
  shows "ancestor parent a c"
proof -
  obtain j k where jk: "(parent ^^ Suc j) a = b" "(parent ^^ Suc k) b = c"
    using assms unfolding ancestor_def by blast
  have "(parent ^^ (Suc k + Suc j)) a = c"
    unfolding funpow_add o_apply jk ..
  then show ?thesis unfolding ancestor_def add_Suc by blast
qed

text \<open>A task whose walk up the tree ends at a root.\<close>

definition rooted :: "(addr \<Rightarrow> addr) \<Rightarrow> addr \<Rightarrow> bool" where
  "rooted parent t \<longleftrightarrow> (\<exists>n. parent ((parent ^^ n) t) = (parent ^^ n) t)"

definition below :: "(addr \<Rightarrow> addr) \<Rightarrow> addr \<Rightarrow> addr \<Rightarrow> bool" where
  "below parent a b \<longleftrightarrow> a = b \<or> ancestor parent a b"

lemma below_trans: "below parent a b \<Longrightarrow> below parent b c \<Longrightarrow> below parent a c"
  by (auto simp: below_def intro: ancestor_trans)

lemma select_barrier_lowest:
  assumes "\<forall>b \<in> set bs. rooted parent b"
    and "\<forall>x \<in> insert r (set bs). \<forall>y \<in> insert r (set bs). below parent x y \<or> below parent y x"
  shows "\<exists>b \<in> insert r (set bs). select_barrier parent r bs = Some b
    \<and> (\<forall>x \<in> insert r (set bs). below parent b x)"
  using assms
proof (induction bs arbitrary: r)
  case Nil
  then show ?case by (simp add: below_def)
next
  case (Cons c bs)
  obtain n where "parent ((parent ^^ n) c) = (parent ^^ n) c"
    using Cons.prems(1) by (auto simp: rooted_def)
  then have child: "ktask_ischildof parent c r = Some (ancestor parent c r)" by (rule ischildof_Some)
  define r' where "r' = (if ancestor parent c r then c else r)"
  have sel: "select_barrier parent r (c # bs) = select_barrier parent r' bs"
    using child by (auto simp: r'_def)
  have low: "below parent r' r" "below parent r' c"
    using Cons.prems(2) by (auto simp: r'_def below_def)
  have sub: "r' \<in> {r, c}" by (simp add: r'_def)
  have "\<exists>b \<in> insert r' (set bs). select_barrier parent r' bs = Some b
      \<and> (\<forall>x \<in> insert r' (set bs). below parent b x)"
    by (rule Cons.IH) (use Cons.prems sub in auto)
  then obtain b where "b \<in> insert r' (set bs)" "select_barrier parent r' bs = Some b"
    and "\<forall>x \<in> insert r' (set bs). below parent b x" by blast
  then show ?case using sel sub low by (auto intro: below_trans)
qed

text \<open>
  C19. \<open>kprocperm_getmaxbarrier\<close> ends and returns the most restrictive of the requested barriers: in a
  task tree in which the walk up from every requested barrier ends at a root, and for barriers that
  lie on one path (as \<open>kproc_barrier\<close> nests them), the result is one of the requested barriers and is
  equal to or a descendant of each of them. For a single barrier the shortcut for compile-time
  constants agrees with it.
\<close>

theorem kprocperm_getmaxbarrier_lowest:
  assumes "requested_barriers p barrier \<noteq> []"
    and "\<forall>b \<in> set (requested_barriers p barrier). rooted parent b"
    and "\<forall>x \<in> set (requested_barriers p barrier). \<forall>y \<in> set (requested_barriers p barrier).
      below parent x y \<or> below parent y x"
  shows "\<exists>b \<in> set (requested_barriers p barrier). kprocperm_getmaxbarrier parent p barrier = Some b
    \<and> (\<forall>x \<in> set (requested_barriers p barrier). below parent b x)
    \<and> kprocperm_constant_getmaxbarrier parent p barrier = Some b"
proof -
  obtain r bs where req: "requested_barriers p barrier = r # bs"
    using assms(1) by (cases "requested_barriers p barrier") auto
  obtain b where b: "b \<in> insert r (set bs)" "select_barrier parent r bs = Some b"
    "\<forall>x \<in> insert r (set bs). below parent b x"
    using select_barrier_lowest [of bs parent r] assms(2,3) req by auto
  then have max: "kprocperm_getmaxbarrier parent p barrier = Some b"
    by (simp add: kprocperm_getmaxbarrier_def req)
  moreover have "kprocperm_constant_getmaxbarrier parent p barrier = Some b"
    using max unfolding kprocperm_constant_getmaxbarrier_def kprocperm_getmaxbarrier_def
    by (auto simp: requested_barriers_def)
  ultimately show ?thesis using b req by auto
qed

text \<open>Task 3 below task 2 below the root 1; the write barriers are lower than the read barriers.\<close>

theorem kprocperm_getmaxbarrier_lowest_witness:
  "\<exists>p. requested_barriers p 12 = [3, 2] \<and> kprocperm_getmaxbarrier (\<lambda>t. if t = 0 then 0 else max 1 (t - 1)) p 12 = Some 3"
proof -
  let ?up = "\<lambda>t :: addr. if t = 0 then 0 else max 1 (t - 1)"
  define p where "p = \<lparr>pp_barriers = [1, 1, 2, 3], pp_priomin = 0, pp_priomax = 0, pp_namemax = 0,
    pp_pipemax = 0, pp_thrdmax = 0, pp_flags = [], pp_state = 0\<rparr>"
  have req: "requested_barriers p 12 = [3, 2]"
    by (simp add: p_def requested_barriers_def pp_smbarrier_def pp_gmbarrier_def)
  have up: "ancestor ?up 3 2" unfolding ancestor_def by (intro exI [of _ 0]) simp
  have root: "rooted ?up 3" "rooted ?up 2"
    unfolding rooted_def by (intro exI [of _ 2], simp add: numeral_2_eq_2) (intro exI [of _ 1], simp)
  have not: "\<not> ancestor ?up 2 3"
  proof -
    have "(?up ^^ k) 2 \<le> 2" for k by (induction k) auto
    then show ?thesis unfolding ancestor_def by (metis Suc_n_not_le_n eval_nat_numeral(3))
  qed
  have "\<exists>b \<in> set (requested_barriers p 12). kprocperm_getmaxbarrier ?up p 12 = Some b
      \<and> (\<forall>x \<in> set (requested_barriers p 12). below ?up b x)
      \<and> kprocperm_constant_getmaxbarrier ?up p 12 = Some b"
    by (rule kprocperm_getmaxbarrier_lowest) (use req root up in \<open>auto simp: below_def\<close>)
  then have "kprocperm_getmaxbarrier ?up p 12 = Some 3" using req not by (auto simp: below_def)
  then show ?thesis using req by blast
qed

section \<open>Reference accounting\<close>

lemma decref_fold_at:
  "fold (\<lambda>t rs. snd (kobject_decref rs t)) ts rs a = rs a - of_nat (count_list ts a)"
  by (induction ts arbitrary: rs) (auto simp: kobject_decref_def)

lemma copy_barriers_cases:
  assumes "copy_barriers rs taken bs = (e, rs')"
  shows "(e = KE_OK \<and> (\<forall>a. unat (rs' a) = unat (rs a) + count_list bs a)) \<or>
    (e = KE_OVERFLOW \<and> (\<forall>a. rs' a = rs a - of_nat (count_list taken a)))"
  using assms
proof (induction bs arbitrary: rs taken)
  case Nil
  then show ?case by simp
next
  case (Cons b bs)
  obtain e1 rs1 where one: "kobject_incref rs b = (e1, rs1)" by force
  show ?case
  proof (cases "rs b = - 1")
    case True
    then have "e1 = KE_OVERFLOW" "rs1 = rs" using one by (auto simp: kobject_incref_def)
    then show ?thesis using Cons.prems one by (auto simp: decref_fold_at)
  next
    case False
    then have ok: "e1 = KE_OK" and rs1: "rs1 = rs(b := rs b + 1)"
      using one by (auto simp: kobject_incref_def)
    have "copy_barriers rs1 (b # taken) bs = (e, rs')" using Cons.prems one ok by simp
    from Cons.IH [OF this] show ?thesis
    proof
      assume "e = KE_OK \<and> (\<forall>a. unat (rs' a) = unat (rs1 a) + count_list bs a)"
      then show ?thesis using rs1 unat_word_Suc [OF False] by auto
    next
      assume over: "e = KE_OVERFLOW \<and> (\<forall>a. rs' a = rs1 a - of_nat (count_list (b # taken) a))"
      have "rs' a = rs a - of_nat (count_list taken a)" for a
        using over rs1 by (cases "a = b") auto
      then show ?thesis using over by blast
    qed
  qed
qed

text \<open>
  C20. Copying permissions takes exactly one reference of a task for each barrier that names it, or, when
  a reference counter would overflow, fails with every counter as before; destroying the copy gives
  the references back. A copy never has more priority range than the original. Initialising root
  permissions takes its four references at once, never past the end of the counter.
\<close>

theorem kprocperm_copy_exact:
  assumes "kprocperm_initcopy rs right = (e, res, rs')"
    and "kprocperm_initroot rs z = (e2, res2, rs2)"
  shows "(e = KE_OK \<and> (\<exists>copy. res = Some copy
      \<and> (\<forall>a. unat (rs' a) = unat (rs a) + count_list (pp_barriers right) a)
      \<and> kprocperm_quit rs' copy = rs \<and> pp_barriers copy = pp_barriers right
      \<and> pp_flags copy = pp_flags right \<and> pp_priomin copy = pp_priomin right
      \<and> sint (pp_priomin copy) \<le> sint (pp_priomax copy))
     \<or> e = KE_OVERFLOW \<and> res = None \<and> rs' = rs)
    \<and> (e2 = KE_OK \<and> unat (rs2 z) = unat (rs z) + 4 \<and> (\<forall>a. a \<noteq> z \<longrightarrow> rs2 a = rs a)
     \<or> e2 = KE_OVERFLOW \<and> rs2 = rs \<and> 2 ^ 32 - 4 \<le> unat (rs z))"
proof
  obtain e1 rs1 where cp: "copy_barriers rs [] (pp_barriers right) = (e1, rs1)" by force
  note cases = copy_barriers_cases [OF cp]
  have rest: "fold (\<lambda>t rs. snd (kobject_decref rs t)) (pp_barriers right) rs1 = rs"
    if "\<forall>a. unat (rs1 a) = unat (rs a) + count_list (pp_barriers right) a"
  proof
    fix a
    have "rs1 a = of_nat (unat (rs a) + count_list (pp_barriers right) a)"
      using that by (metis of_nat_unat ucast_id)
    then show "fold (\<lambda>t rs. snd (kobject_decref rs t)) (pp_barriers right) rs1 a = rs a"
      by (simp add: decref_fold_at)
  qed
  show "e = KE_OK \<and> (\<exists>copy. res = Some copy
      \<and> (\<forall>a. unat (rs' a) = unat (rs a) + count_list (pp_barriers right) a)
      \<and> kprocperm_quit rs' copy = rs \<and> pp_barriers copy = pp_barriers right
      \<and> pp_flags copy = pp_flags right \<and> pp_priomin copy = pp_priomin right
      \<and> sint (pp_priomin copy) \<le> sint (pp_priomax copy))
     \<or> e = KE_OVERFLOW \<and> res = None \<and> rs' = rs"
    using cases
  proof
    assume ok: "e1 = KE_OK \<and> (\<forall>a. unat (rs1 a) = unat (rs a) + count_list (pp_barriers right) a)"
    then show ?thesis using assms(1) cp rest
      by (auto simp: kprocperm_initcopy_def kprocperm_quit_def)
  next
    assume over: "e1 = KE_OVERFLOW \<and> (\<forall>a. rs1 a = rs a - of_nat (count_list [] a))"
    then have "rs1 = rs" by auto
    then show ?thesis using assms(1) cp over by (auto simp: kprocperm_initcopy_def)
  qed
  have "unat (- 5 :: u32) = 2 ^ 32 - 5" by simp
  moreover have "unat (rs z + 4) = unat (rs z) + 4" if "unat (rs z) \<le> 2 ^ 32 - 5"
    using unat_plus_if' [of "rs z" 4] that by simp
  ultimately show "e2 = KE_OK \<and> unat (rs2 z) = unat (rs z) + 4 \<and> (\<forall>a. a \<noteq> z \<longrightarrow> rs2 a = rs a)
     \<or> e2 = KE_OVERFLOW \<and> rs2 = rs \<and> 2 ^ 32 - 4 \<le> unat (rs z)"
    using assms(2)
    by (auto simp: kprocperm_initroot_def word_less_nat_alt split: if_splits)
qed

theorem kprocperm_copy_exact_witness:
  "\<exists>p rs. kprocperm_initroot (\<lambda>a. 1) 7 = (KE_OK, Some p, rs) \<and> unat (rs 7) = unat (1 :: u32) + 4
    \<and> fst (kprocperm_initcopy rs p) = KE_OK"
proof -
  obtain p rs where root: "kprocperm_initroot (\<lambda>a. 1) 7 = (KE_OK, Some p, rs)"
    by (simp add: kprocperm_initroot_def word_less_nat_alt)
  have rep: "replicate 4 x = [x, x, x, x]" for x :: addr by (simp add: numeral_eq_Suc)
  have "rs = (\<lambda>a. 1)(7 := 5)" "pp_barriers p = [7, 7, 7, 7]"
    using root rep by (auto simp: kprocperm_initroot_def split: if_splits)
  then have "fst (kprocperm_initcopy rs p) = KE_OK"
    by (simp add: kprocperm_initcopy_def kobject_incref_def)
  moreover obtain e res rs' where "kprocperm_initcopy (\<lambda>a. 1) p = (e, res, rs')"
    by (cases "kprocperm_initcopy (\<lambda>a. 1) p")
  from kprocperm_copy_exact [OF this root] have "unat (rs 7) = unat (1 :: u32) + 4" by auto
  ultimately show ?thesis using root by blast
qed

end
