(* ===== verification/Proc.thy ===== *)
theory Proc
  imports Locks FdOps ProcEnv ProcPerm
begin

text \<open>
  Processes (\<^verbatim>\<open>struct kproc\<close> of \<^verbatim>\<open>include/kos/kernel/proc.h\<close>): the operations on descriptors
  (\<^verbatim>\<open>src/kernel/sched/proc-fdman.c.inl\<close>), on the environment (\<^verbatim>\<open>proc-environ.c.inl\<close>) and on permissions
  (\<^verbatim>\<open>src/kernel/procperm-getset.c.inl\<close>), each with the locks it takes and the references it drops.

  The world of an operation is the process it works on and the reference counters of all objects.
  \<open>kctx\<close> collects what the rest of the kernel provides: the calling task and its process, the result
  of rescheduling a task, whether the operation's allocation succeeds, and the build mode.
\<close>

section \<open>State\<close>

record kproc =
  p_lock :: kmmutex
  p_fdman :: kfdman
  p_perm :: kprocperm
  p_threads :: "addr list"
  p_environ :: kprocenv

record kworld =
  w_proc :: kproc
  w_refs :: refstore

record kctx =
  c_self :: task
  c_root :: task
  c_proc :: addr
  c_resched :: "task \<Rightarrow> kerrno"
  c_mem :: bool
  c_debug :: bool

definition KPROC_LOCK_MODS :: u16 where "KPROC_LOCK_MODS = KMMUTEX_LOCK 0"
definition KPROC_LOCK_FDMAN :: u16 where "KPROC_LOCK_FDMAN = KMMUTEX_LOCK 1"
definition KPROC_LOCK_PERM :: u16 where "KPROC_LOCK_PERM = KMMUTEX_LOCK 2"
definition KPROC_LOCK_THREADS :: u16 where "KPROC_LOCK_THREADS = KMMUTEX_LOCK 3"
definition KPROC_LOCK_ENVIRON :: u16 where "KPROC_LOCK_ENVIRON = KMMUTEX_LOCK 4"

definition kproc_islocked :: "kproc \<Rightarrow> u16 \<Rightarrow> bool" where
  "kproc_islocked p l = kmmutex_islocked (p_lock p) l"

definition kproc_lock :: "kctx \<Rightarrow> kworld \<Rightarrow> u16 \<Rightarrow> (kerrno \<times> kworld) outcome" where
  "kproc_lock k w l =
     andthen (kmmutex_lock (c_self k) [] (p_lock (w_proc w)) l)
       (\<lambda>(e, m). Done (e, w\<lparr>w_proc := (w_proc w)\<lparr>p_lock := m\<rparr>\<rparr>))"

definition kproc_unlock :: "kctx \<Rightarrow> kworld \<Rightarrow> u16 \<Rightarrow> kworld outcome" where
  "kproc_unlock k w l =
     andthen (kmmutex_unlock (c_resched k) (p_lock (w_proc w)) l)
       (\<lambda>(e, m). Done (w\<lparr>w_proc := (w_proc w)\<lparr>p_lock := m\<rparr>\<rparr>))"

definition set_fdman :: "kworld \<Rightarrow> kfdman \<Rightarrow> kworld" where
  "set_fdman w m = w\<lparr>w_proc := (w_proc w)\<lparr>p_fdman := m\<rparr>\<rparr>"

definition set_environ :: "kworld \<Rightarrow> kprocenv \<Rightarrow> kworld" where
  "set_environ w env = w\<lparr>w_proc := (w_proc w)\<lparr>p_environ := env\<rparr>\<rparr>"

definition set_perm :: "kworld \<Rightarrow> kprocperm \<Rightarrow> kworld" where
  "set_perm w p = w\<lparr>w_proc := (w_proc w)\<lparr>p_perm := p\<rparr>\<rparr>"

definition quit_entries :: "kworld \<Rightarrow> kfdentry list \<Rightarrow> kworld" where
  "quit_entries w es = w\<lparr>w_refs := kfdman_quit_vec (w_refs w) es\<rparr>"

section \<open>Descriptors\<close>

definition kproc_closefd :: "kctx \<Rightarrow> kworld \<Rightarrow> int \<Rightarrow> (kerrno \<times> kworld) outcome" where
  "kproc_closefd k w fd =
     andthen (kproc_lock k w KPROC_LOCK_FDMAN) (\<lambda>(error, w).
       if KE_ISOK error then
         (case closefd_core (c_debug k) (c_mem k) (p_fdman (w_proc w)) fd of
            (err, old, m) \<Rightarrow>
              andthen (kproc_unlock k (set_fdman w m) KPROC_LOCK_FDMAN) (\<lambda>w.
                case old of
                  None \<Rightarrow> Done (err, w)
                | Some slotcopy \<Rightarrow> Done (error, quit_entries w [slotcopy])))
       else Done (error, w))"

text \<open>The source drops the lock around each dropped reference; the entries are dropped in order.\<close>

definition kproc_closeall :: "kctx \<Rightarrow> kworld \<Rightarrow> int \<Rightarrow> int \<Rightarrow> (nat \<times> kworld) outcome" where
  "kproc_closeall k w low high =
     (if high < low then Done (0, w)
      else andthen (kproc_lock k w KPROC_LOCK_FDMAN) (\<lambda>(error, w).
        if KE_ISERR error then Done (0, w)
        else andthen (closeall_core (c_mem k) (p_fdman (w_proc w)) low high) (\<lambda>(cs, m).
          andthen (kproc_unlock k (set_fdman w m) KPROC_LOCK_FDMAN) (\<lambda>w.
            Done (length cs, quit_entries w cs)))))"

definition kproc_getresourceaddr_c :: "kctx \<Rightarrow> kworld \<Rightarrow> int \<Rightarrow> (addr \<times> kworld) outcome" where
  "kproc_getresourceaddr_c k w fd =
     (if fd = KFD_TASKSELF then Done (c_self k, w)
      else if fd = KFD_TASKROOT then Done (c_root k, w)
      else if fd = KFD_PROCSELF then Done (c_proc k, w)
      else andthen (kproc_lock k w KPROC_LOCK_FDMAN) (\<lambda>(error, w).
        if KE_ISERR error then Done (0, w)
        else
          let m = p_fdman (w_proc w);
              result = (case kfdman_slot m fd of None \<Rightarrow> 0 | Some s \<Rightarrow> fd_data (slot_get m s))
          in andthen (kproc_unlock k w KPROC_LOCK_FDMAN) (\<lambda>w. Done (result, w))))"

definition kproc_getfd ::
  "kctx \<Rightarrow> kworld \<Rightarrow> int \<Rightarrow> ((kerrno \<times> kfdentry option) \<times> kworld) outcome" where
  "kproc_getfd k w fd =
     (if fd = KFD_TASKSELF \<or> fd = KFD_TASKROOT \<or> fd = KFD_PROCSELF then
        let obj = (if fd = KFD_TASKSELF then c_self k else if fd = KFD_TASKROOT then c_root k else c_proc k);
            type = (if fd = KFD_PROCSELF then KFDTYPE_PROC else KFDTYPE_TASK);
            (e, rs) = kobject_incref (w_refs w) obj
        in Done ((e, Some \<lparr>fd_type = type, fd_flag = 0, fd_data = obj\<rparr>), w\<lparr>w_refs := rs\<rparr>)
      else andthen (kproc_lock k w KPROC_LOCK_FDMAN) (\<lambda>(error, w).
        if KE_ISOK error then
          let m = p_fdman (w_proc w);
              (error, res, rs) = (case kfdman_slot m fd of
                  None \<Rightarrow> (KE_BADF, None, w_refs w)
                | Some s \<Rightarrow> (case kfdentry_initcopy (w_refs w) (slot_get m s) of
                    (e, entry, rs) \<Rightarrow> (e, Some entry, rs)))
          in andthen (kproc_unlock k (w\<lparr>w_refs := rs\<rparr>) KPROC_LOCK_FDMAN) (\<lambda>w. Done ((error, res), w))
        else Done ((error, None), w)))"

definition kproc_insfd_inherited ::
  "kctx \<Rightarrow> kworld \<Rightarrow> kfdentry \<Rightarrow> ((kerrno \<times> int option) \<times> kworld) outcome" where
  "kproc_insfd_inherited k w entry =
     andthen (kproc_lock k w KPROC_LOCK_FDMAN) (\<lambda>(error, w).
       if KE_ISERR error then Done ((error, None), w)
       else andthen (insfd_core (c_mem k) (p_fdman (w_proc w)) entry) (\<lambda>(error, fd, m).
         andthen (kproc_unlock k (set_fdman w m) KPROC_LOCK_FDMAN) (\<lambda>w. Done ((error, fd), w))))"

definition kproc_insfdat_inherited ::
  "kctx \<Rightarrow> kworld \<Rightarrow> int \<Rightarrow> kfdentry \<Rightarrow> (kerrno \<times> kworld) outcome" where
  "kproc_insfdat_inherited k w fd entry =
     andthen (kproc_lock k w KPROC_LOCK_FDMAN) (\<lambda>(error, w).
       if KE_ISERR error then Done (error, w)
       else case insfdat_core (c_mem k) (p_fdman (w_proc w)) fd entry of
         (error, old, m) \<Rightarrow>
           andthen (kproc_unlock k (set_fdman w m) KPROC_LOCK_FDMAN) (\<lambda>w.
             Done (error, case old of None \<Rightarrow> w | Some oldfd \<Rightarrow> quit_entries w [oldfd])))"

definition kproc_insfdh_inherited ::
  "kctx \<Rightarrow> kworld \<Rightarrow> int \<Rightarrow> kfdentry \<Rightarrow> ((kerrno \<times> int option) \<times> kworld) outcome" where
  "kproc_insfdh_inherited k w hint entry =
     andthen (kproc_lock k w KPROC_LOCK_FDMAN) (\<lambda>(error, w).
       if KE_ISERR error then Done ((error, None), w)
       else case insfdh_core (c_mem k) (p_fdman (w_proc w)) hint entry of
         (error, fd, m) \<Rightarrow>
           andthen (kproc_unlock k (set_fdman w m) KPROC_LOCK_FDMAN) (\<lambda>w. Done ((error, fd), w)))"

text \<open>The three \<open>dup\<close> operations: copy the entry, set its flags, insert it, drop it on failure.\<close>

definition kproc_dupfd_c ::
  "kctx \<Rightarrow> kworld \<Rightarrow> int \<Rightarrow> u16 \<Rightarrow> ((kerrno \<times> int option) \<times> kworld) outcome" where
  "kproc_dupfd_c k w oldfd flags =
     andthen (kproc_getfd k w oldfd) (\<lambda>((error, res), w).
       case res of
         Some e \<Rightarrow>
           if KE_ISERR error then Done ((error, None), w)
           else let e = e\<lparr>fd_flag := flags\<rparr> in
             andthen (kproc_insfd_inherited k w e) (\<lambda>((error, fd), w).
               Done ((error, fd), if KE_ISERR error then quit_entries w [e] else w))
       | None \<Rightarrow> Done ((error, None), w))"

definition kproc_dupfd2_c ::
  "kctx \<Rightarrow> kworld \<Rightarrow> int \<Rightarrow> int \<Rightarrow> u16 \<Rightarrow> (kerrno \<times> kworld) outcome" where
  "kproc_dupfd2_c k w oldfd newfd flags =
     andthen (kproc_getfd k w oldfd) (\<lambda>((error, res), w).
       case res of
         Some e \<Rightarrow>
           if KE_ISERR error then Done (error, w)
           else let e = e\<lparr>fd_flag := flags\<rparr> in
             andthen (kproc_insfdat_inherited k w newfd e) (\<lambda>(error, w).
               Done (error, if KE_ISERR error then quit_entries w [e] else w))
       | None \<Rightarrow> Done (error, w))"

definition kproc_dupfdh_c ::
  "kctx \<Rightarrow> kworld \<Rightarrow> int \<Rightarrow> int \<Rightarrow> u16 \<Rightarrow> ((kerrno \<times> int option) \<times> kworld) outcome" where
  "kproc_dupfdh_c k w oldfd hintfd flags =
     andthen (kproc_getfd k w oldfd) (\<lambda>((error, res), w).
       case res of
         Some e \<Rightarrow>
           if KE_ISERR error then Done ((error, None), w)
           else let e = e\<lparr>fd_flag := flags\<rparr> in
             andthen (kproc_insfdh_inherited k w hintfd e) (\<lambda>((error, fd), w).
               Done ((error, fd), if KE_ISERR error then quit_entries w [e] else w))
       | None \<Rightarrow> Done ((error, None), w))"

abbreviation F_DUPFD :: int where "F_DUPFD \<equiv> 0"
abbreviation F_GETFD :: int where "F_GETFD \<equiv> 1"
abbreviation F_SETFD :: int where "F_SETFD \<equiv> 2"
abbreviation F_DUPFD_CLOEXEC :: int where "F_DUPFD_CLOEXEC \<equiv> 1030"
abbreviation F_GETYPE :: int where "F_GETYPE \<equiv> 10000"

definition fcntl_gettype :: "kfdman \<Rightarrow> int \<Rightarrow> kerrno" where
  "fcntl_gettype m fd =
     (if fd < 0 then
        if fd = KFD_ROOT \<or> fd = KFD_CWD then uint KFDTYPE_FILE
        else if fd = KFD_TASKSELF \<or> fd = KFD_TASKROOT then uint KFDTYPE_TASK
        else if fd = KFD_PROCSELF then uint KFDTYPE_PROC else KE_BADF
      else if nat fd \<ge> fdm_fda m then KE_BADF
      else let error = uint (fd_type (fdm_fdv m ! nat fd)) in if error = 0 then KE_BADF else error)"

definition kproc_user_fcntlfd_c ::
  "kctx \<Rightarrow> kworld \<Rightarrow> int \<Rightarrow> int \<Rightarrow> u32 \<Rightarrow> (kerrno \<times> kworld) outcome" where
  "kproc_user_fcntlfd_c k w fd cmd arg =
     (if cmd = F_DUPFD \<or> cmd = F_DUPFD_CLOEXEC then
        andthen (kproc_dupfdh_c k w fd (sint arg) (if cmd = F_DUPFD then 0 else FD_CLOEXEC))
          (\<lambda>((error, res), w). Done (case res of Some resfd \<Rightarrow> resfd | None \<Rightarrow> error, w))
      else if cmd = F_GETFD \<or> cmd = F_SETFD \<or> cmd = F_GETYPE then
        andthen (kproc_lock k w KPROC_LOCK_FDMAN) (\<lambda>(error, w).
          if KE_ISERR error then Done (error, w)
          else
            let m = p_fdman (w_proc w);
                (error, m) =
                  (if cmd = F_GETFD then
                     (case kfdman_getflags m fd of
                        (e, Some fl, m) \<Rightarrow> (uint fl, m) | (e, None, m) \<Rightarrow> (e, m))
                   else if cmd = F_SETFD then
                     (case kfdman_setflags m fd (ucast arg) of (e, x, m) \<Rightarrow> (e, m))
                   else (fcntl_gettype m fd, m))
            in andthen (kproc_unlock k (set_fdman w m) KPROC_LOCK_FDMAN) (\<lambda>w. Done (error, w)))
      else Done (KE_NOSYS, w))"

definition kproc_getfdfile :: "kctx \<Rightarrow> kworld \<Rightarrow> int \<Rightarrow> (addr \<times> kworld) outcome" where
  "kproc_getfdfile k w fd =
     andthen (kproc_getfd k w fd) (\<lambda>((error, res), w).
       case res of
         Some e \<Rightarrow>
           if KE_ISERR error then Done (0, w)
           else if fd_type e = KFDTYPE_FILE then Done (fd_data e, w)
           else Done (0, quit_entries w [e])
       | None \<Rightarrow> Done (0, w))"

text \<open>The first thread of the process that can be referenced. (Threads that are gone are \<open>NULL\<close>.)\<close>

fun first_thread :: "refstore \<Rightarrow> addr list \<Rightarrow> addr \<times> refstore" where
  "first_thread rs [] = (0, rs)"
| "first_thread rs (t # ts) =
     (if t \<noteq> 0 then
        (case kobject_incref rs t of
           (e, rs') \<Rightarrow> if KE_ISOK e then (t, rs') else if ts = [] then (t, rs') else first_thread rs' ts)
      else first_thread rs ts)"

definition kproc_getroottask :: "kctx \<Rightarrow> kworld \<Rightarrow> (addr \<times> kworld) outcome" where
  "kproc_getroottask k w =
     andthen (kproc_lock k w KPROC_LOCK_THREADS) (\<lambda>(error, w).
       if KE_ISERR error then Done (0, w)
       else case first_thread (w_refs w) (p_threads (w_proc w)) of
         (result, rs) \<Rightarrow>
           andthen (kproc_unlock k (w\<lparr>w_refs := rs\<rparr>) KPROC_LOCK_THREADS) (\<lambda>w. Done (result, w)))"

section \<open>Environment\<close>

text \<open>The buffer of \<open>kproc_getenv_ck\<close>: what it holds at the end, and the required size.\<close>

definition kproc_getenv_ck ::
  "kctx \<Rightarrow> kworld \<Rightarrow> cbytes \<Rightarrow> nat \<Rightarrow> nat \<Rightarrow> ((kerrno \<times> cbytes \<times> nat option) \<times> kworld) outcome" where
  "kproc_getenv_ck k w name namemax bufsize =
     andthen (kproc_lock k w KPROC_LOCK_ENVIRON) (\<lambda>(error, w).
       if KE_ISERR error then Done ((error, [], None), w)
       else
         let (error, buf, reqsize) =
           (case kprocenv_getenv (p_environ (w_proc w)) name namemax of
              None \<Rightarrow> (KE_NOENT, [], None)
            | Some envvalue \<Rightarrow>
                let valsize = length envvalue + 1 in
                (error, take (min valsize bufsize) (envvalue @ [0]), Some valsize))
         in andthen (kproc_unlock k w KPROC_LOCK_ENVIRON) (\<lambda>w. Done ((error, buf, reqsize), w)))"

definition kproc_setenv_ck ::
  "kctx \<Rightarrow> kworld \<Rightarrow> cbytes \<Rightarrow> nat \<Rightarrow> cbytes \<Rightarrow> nat \<Rightarrow> bool \<Rightarrow> (kerrno \<times> kworld) outcome" where
  "kproc_setenv_ck k w name namemax value valuemax override =
     andthen (kproc_lock k w KPROC_LOCK_ENVIRON) (\<lambda>(error, w).
       if KE_ISERR error then Done (error, w)
       else case kprocenv_kernel_setenv_c (c_mem k) (p_environ (w_proc w)) name namemax value valuemax
           override of
         (error, env) \<Rightarrow>
           andthen (kproc_unlock k (set_environ w env) KPROC_LOCK_ENVIRON) (\<lambda>w. Done (error, w)))"

definition kproc_delenv_ck :: "kctx \<Rightarrow> kworld \<Rightarrow> cbytes \<Rightarrow> nat \<Rightarrow> (kerrno \<times> kworld) outcome" where
  "kproc_delenv_ck k w name namemax =
     andthen (kproc_lock k w KPROC_LOCK_ENVIRON) (\<lambda>(error, w).
       if KE_ISERR error then Done (error, w)
       else case kprocenv_delenv_c (p_environ (w_proc w)) name namemax of
         (error, env) \<Rightarrow>
           andthen (kproc_unlock k (set_environ w env) KPROC_LOCK_ENVIRON) (\<lambda>w. Done (error, w)))"

text \<open>Enumeration: the callback is a function of the entry and its own state; it stops at the first
  non-zero result.\<close>

fun enum_loop :: "('a \<Rightarrow> 's \<Rightarrow> kerrno \<times> 's) \<Rightarrow> kerrno \<Rightarrow> 'a list \<Rightarrow> 's \<Rightarrow> kerrno \<times> 's" where
  "enum_loop callback error [] closure = (error, closure)"
| "enum_loop callback error (x # xs) closure =
     (case callback x closure of
        (error, closure) \<Rightarrow>
          if error \<noteq> 0 then (error, closure) else enum_loop callback error xs closure)"

definition kproc_enumenv_ck ::
  "kctx \<Rightarrow> kworld \<Rightarrow> (cbytes \<times> cbytes \<Rightarrow> 's \<Rightarrow> kerrno \<times> 's) \<Rightarrow> 's
    \<Rightarrow> ((kerrno \<times> 's) \<times> kworld) outcome" where
  "kproc_enumenv_ck k w callback closure =
     andthen (kproc_lock k w KPROC_LOCK_ENVIRON) (\<lambda>(error, w).
       if KE_ISERR error then Done ((error, closure), w)
       else
         let res = enum_loop callback error
           (map (\<lambda>e. (ee_name e, ee_value e)) (concat (pe_map (p_environ (w_proc w))))) closure
         in andthen (kproc_unlock k w KPROC_LOCK_ENVIRON) (\<lambda>w. Done (res, w)))"

definition kproc_enumcmd_ck ::
  "kctx \<Rightarrow> kworld \<Rightarrow> (cbytes \<Rightarrow> 's \<Rightarrow> kerrno \<times> 's) \<Rightarrow> 's \<Rightarrow> ((kerrno \<times> 's) \<times> kworld) outcome" where
  "kproc_enumcmd_ck k w callback closure =
     andthen (kproc_lock k w KPROC_LOCK_ENVIRON) (\<lambda>(error, w).
       if KE_ISERR error then Done ((error, closure), w)
       else
         let res = enum_loop callback error (pe_argv (p_environ (w_proc w))) closure
         in andthen (kproc_unlock k w KPROC_LOCK_ENVIRON) (\<lambda>w. Done (res, w)))"

section \<open>Permissions\<close>

text \<open>The data block of \<open>struct kperm\<close> is a union; it is the 32-bit word \<open>p_data\<close>, read and written through
  its members.\<close>

record kperm =
  p_id :: nat
  p_size :: nat
  p_data :: u32

abbreviation KPERM_NAME_FLAG :: nat where "KPERM_NAME_FLAG \<equiv> 1"
abbreviation KPERM_NAME_PRIO_MIN :: nat where "KPERM_NAME_PRIO_MIN \<equiv> 2"
abbreviation KPERM_NAME_PRIO_MAX :: nat where "KPERM_NAME_PRIO_MAX \<equiv> 3"
abbreviation KPERM_NAME_TASKNAME_MAX :: nat where "KPERM_NAME_TASKNAME_MAX \<equiv> 4"
abbreviation KPERM_NAME_PIPE_MAX :: nat where "KPERM_NAME_PIPE_MAX \<equiv> 5"
abbreviation KPERM_NAME_SYSLOG :: nat where "KPERM_NAME_SYSLOG \<equiv> 6"
abbreviation KPERM_NAME_FDMAX :: nat where "KPERM_NAME_FDMAX \<equiv> 7"
abbreviation KPERM_NAME_ENV_MEMMAX :: nat where "KPERM_NAME_ENV_MEMMAX \<equiv> 8"
abbreviation KPERM_NAME_MAXTHREADS :: nat where "KPERM_NAME_MAXTHREADS \<equiv> 9"
abbreviation KPERM_NAME_MAXMEM :: nat where "KPERM_NAME_MAXMEM \<equiv> 10"
abbreviation KPERM_NAME_MAXMEM_RW :: nat where "KPERM_NAME_MAXMEM_RW \<equiv> 11"

definition d_prio :: "kperm \<Rightarrow> prio" where "d_prio p = ucast (p_data p)"
definition d_flag_mask :: "kperm \<Rightarrow> u16" where "d_flag_mask p = ucast (p_data p)"
definition d_flag_group :: "kperm \<Rightarrow> u16" where "d_flag_group p = ucast (drop_bit 16 (p_data p))"
definition d_size :: "kperm \<Rightarrow> size_t" where "d_size p = p_data p"
definition d_int :: "kperm \<Rightarrow> int" where "d_int p = sint (p_data p)"

definition set_low16 :: "u16 \<Rightarrow> kperm \<Rightarrow> kperm" where
  "set_low16 v p = p\<lparr>p_data := (p_data p AND 0xFFFF0000) OR ucast v\<rparr>"

text \<open>The template \<^verbatim>\<open>procperm-getset.c.inl\<close> is compiled three times.\<close>

datatype pmode = GET | SET | XCH

definition perm_prio_min :: "pmode \<Rightarrow> kprocperm \<Rightarrow> kperm \<Rightarrow> kerrno \<times> kperm \<times> kprocperm" where
  "perm_prio_min mode pp perm =
     (if mode = GET then (KE_OK, (set_low16 (pp_priomin pp) perm)\<lparr>p_size := 2\<rparr>, pp)
      else if p_size perm < 2 then (KE_BUFSIZ, perm, pp)
      else if sint (d_prio perm) < sint (pp_priomin pp) then (KE_ACCES, perm, pp)
      else
        let new_val = (if sint (d_prio perm) < sint (pp_priomax pp) then d_prio perm else pp_priomax pp)
        in (KE_OK, if mode = XCH then set_low16 (pp_priomin pp) perm else perm,
            pp\<lparr>pp_priomin := new_val\<rparr>))"

definition perm_prio_max :: "pmode \<Rightarrow> kprocperm \<Rightarrow> kperm \<Rightarrow> kerrno \<times> kperm \<times> kprocperm" where
  "perm_prio_max mode pp perm =
     (if mode = GET then (KE_OK, (set_low16 (pp_priomax pp) perm)\<lparr>p_size := 2\<rparr>, pp)
      else if p_size perm < 2 then (KE_BUFSIZ, perm, pp)
      else if sint (d_prio perm) > sint (pp_priomax pp) then (KE_ACCES, perm, pp)
      else
        let new_val = (if sint (d_prio perm) > sint (pp_priomin pp) then d_prio perm else pp_priomin pp)
        in (KE_OK, if mode = XCH then set_low16 (pp_priomax pp) perm else perm,
            pp\<lparr>pp_priomax := new_val\<rparr>))"

definition perm_flag :: "pmode \<Rightarrow> kprocperm \<Rightarrow> kperm \<Rightarrow> kerrno \<times> kperm \<times> kprocperm" where
  "perm_flag mode pp perm =
     (let group = unat (d_flag_group perm) in
      if mode = GET then
        if group \<ge> KPERM_FLAG_GROUPCOUNT then (KE_INVAL, (set_low16 0xFFFF perm)\<lparr>p_size := 4\<rparr>, pp)
        else (KE_OK, (set_low16 (pp_flags pp ! group) perm)\<lparr>p_size := 4\<rparr>, pp)
      else if p_size perm < 4 then (KE_BUFSIZ, perm, pp)
      else if group \<ge> KPERM_FLAG_GROUPCOUNT then
        (KE_INVAL, if mode = XCH then set_low16 0xFFFF perm else perm, pp)
      else
        let old = pp_flags pp ! group in
        (KE_OK, if mode = XCH then set_low16 old perm else perm,
         pp\<lparr>pp_flags := (pp_flags pp)[group := old AND NOT (d_flag_mask perm)]\<rparr>))"

text \<open>\<open>atomic_size_field\<close>, for the field with value \<open>old\<close> and update \<open>upd\<close>.\<close>

definition perm_size_field ::
  "pmode \<Rightarrow> size_t \<Rightarrow> (size_t \<Rightarrow> 'p) \<Rightarrow> 'p \<Rightarrow> kperm \<Rightarrow> kerrno \<times> kperm \<times> 'p" where
  "perm_size_field mode old upd pp perm =
     (if mode = GET then (KE_OK, perm\<lparr>p_data := old, p_size := 4\<rparr>, pp)
      else if p_size perm < 4 then (KE_BUFSIZ, perm, pp)
      else if d_size perm > old then (KE_ACCES, perm, pp)
      else (KE_OK, if mode = XCH then perm\<lparr>p_data := old\<rparr> else perm, upd (d_size perm)))"

definition perm_maxmem :: "pmode \<Rightarrow> kprocperm \<Rightarrow> kperm \<Rightarrow> kerrno \<times> kperm \<times> kprocperm" where
  "perm_maxmem mode pp perm =
     (if mode = GET then (KE_OK, perm\<lparr>p_data := - 1, p_size := 4\<rparr>, pp)
      else if p_size perm < 4 then (KE_BUFSIZ, perm, pp)
      else (KE_OK, if mode = XCH then perm\<lparr>p_data := - 1\<rparr> else perm, pp))"

definition perm_syslog :: "pmode \<Rightarrow> kprocperm \<Rightarrow> kperm \<Rightarrow> kerrno \<times> kperm \<times> kprocperm" where
  "perm_syslog mode pp perm =
     (let oldstate = pp_state pp; oldlev = drop_bit KPROCSTATE_SHIFT_LOGPRIV oldstate in
      if mode = GET then (KE_OK, perm\<lparr>p_data := oldlev, p_size := 4\<rparr>, pp)
      else if p_size perm < 4 then (KE_BUFSIZ, perm, pp)
      else if d_int perm < uint oldlev then (KE_ACCES, perm, pp)
      else
        let newstate = (oldstate AND NOT KPROCSTATE_MASK_LOGPRIV)
              OR push_bit KPROCSTATE_SHIFT_LOGPRIV (p_data perm)
        in (KE_OK, if mode = XCH then perm\<lparr>p_data := oldlev\<rparr> else perm, pp\<lparr>pp_state := newstate\<rparr>))"

text \<open>
  The two cases that take a lock. The early returns with \<open>KE_BUFSIZ\<close> and \<open>KE_ACCES\<close> do not release it.
\<close>

definition perm_locked ::
  "kctx \<Rightarrow> kworld \<Rightarrow> u16 \<Rightarrow> pmode \<Rightarrow> kperm \<Rightarrow> (kworld \<Rightarrow> size_t) \<Rightarrow> (kworld \<Rightarrow> size_t \<Rightarrow> kworld)
    \<Rightarrow> ((kerrno \<times> kperm) \<times> kworld) outcome" where
  "perm_locked k w l mode perm rd wr =
     andthen (kproc_lock k w l) (\<lambda>(error, w).
       if KE_ISERR error then Done ((error, perm), w)
       else case perm_size_field mode (rd w) (wr w) w perm of
         (error, perm, w) \<Rightarrow>
           if KE_ISERR error then Done ((error, perm), w)
           else andthen (kproc_unlock k w l) (\<lambda>w. Done ((KE_OK, perm), w)))"

definition set_memmax :: "kworld \<Rightarrow> size_t \<Rightarrow> kworld" where
  "set_memmax w v = set_environ w ((p_environ (w_proc w))\<lparr>pe_memmax := v\<rparr>)"

definition set_fdmax :: "kworld \<Rightarrow> size_t \<Rightarrow> kworld" where
  "set_fdmax w v = set_fdman w ((p_fdman (w_proc w))\<lparr>fdm_max := v\<rparr>)"

definition kproc_perm ::
  "pmode \<Rightarrow> kctx \<Rightarrow> kworld \<Rightarrow> kperm \<Rightarrow> ((kerrno \<times> kperm) \<times> kworld) outcome" where
  "kproc_perm mode k w perm =
     (let pp = p_perm (w_proc w);
          atomic = (\<lambda>(error, perm, pp). Done ((error, perm), set_perm w pp))
      in
      if p_id perm = KPERM_NAME_PRIO_MIN then atomic (perm_prio_min mode pp perm)
      else if p_id perm = KPERM_NAME_PRIO_MAX then atomic (perm_prio_max mode pp perm)
      else if p_id perm = KPERM_NAME_FLAG then atomic (perm_flag mode pp perm)
      else if p_id perm = KPERM_NAME_ENV_MEMMAX then
        perm_locked k w KPROC_LOCK_ENVIRON mode perm (\<lambda>w. pe_memmax (p_environ (w_proc w))) set_memmax
      else if p_id perm = KPERM_NAME_TASKNAME_MAX then
        atomic (perm_size_field mode (pp_namemax pp) (\<lambda>v. pp\<lparr>pp_namemax := v\<rparr>) pp perm)
      else if p_id perm = KPERM_NAME_PIPE_MAX then
        atomic (perm_size_field mode (pp_pipemax pp) (\<lambda>v. pp\<lparr>pp_pipemax := v\<rparr>) pp perm)
      else if p_id perm = KPERM_NAME_MAXTHREADS then
        atomic (perm_size_field mode (pp_thrdmax pp) (\<lambda>v. pp\<lparr>pp_thrdmax := v\<rparr>) pp perm)
      else if p_id perm = KPERM_NAME_MAXMEM \<or> p_id perm = KPERM_NAME_MAXMEM_RW then
        atomic (perm_maxmem mode pp perm)
      else if p_id perm = KPERM_NAME_SYSLOG then atomic (perm_syslog mode pp perm)
      else if p_id perm = KPERM_NAME_FDMAX then
        perm_locked k w KPROC_LOCK_FDMAN mode perm (\<lambda>w. fdm_max (p_fdman (w_proc w))) set_fdmax
      else Done ((KE_INVAL, perm), w))"

section \<open>Locking\<close>

text \<open>The world without the lock, and a world in which a lock can be taken without waiting.\<close>

definition nolock :: "kworld \<Rightarrow> kworld" where
  "nolock w = w\<lparr>w_proc := (w_proc w)\<lparr>p_lock := kmmutex_init\<rparr>\<rparr>"

definition lock_idle :: "kworld \<Rightarrow> bool" where
  "lock_idle w \<longleftrightarrow> sig_idle (mmx_sig (p_lock (w_proc w)))"

definition released :: "kworld \<Rightarrow> kworld \<Rightarrow> bool" where
  "released w w' \<longleftrightarrow> lock_idle w' \<and> mmx_locks (p_lock (w_proc w')) = mmx_locks (p_lock (w_proc w))"

definition lockw :: "kworld \<Rightarrow> u16 \<Rightarrow> kworld" where
  "lockw w l = w\<lparr>w_proc := (w_proc w)\<lparr>p_lock :=
     mmx_locks_set (mmx_locks (p_lock (w_proc w)) OR l) (p_lock (w_proc w))\<rparr>\<rparr>"

lemma lockw_simps [simp]:
  "w_refs (lockw w l) = w_refs w" "p_fdman (w_proc (lockw w l)) = p_fdman (w_proc w)"
  "p_environ (w_proc (lockw w l)) = p_environ (w_proc w)" "p_perm (w_proc (lockw w l)) = p_perm (w_proc w)"
  "p_threads (w_proc (lockw w l)) = p_threads (w_proc w)"
  by (simp_all add: lockw_def)

lemma kproc_lock_free:
  assumes "\<not> kproc_islocked (w_proc w) l"
  shows "kproc_lock k w l = Done (KE_OK, lockw w l)"
  using assms
  by (simp add: kproc_lock_def kproc_islocked_def kmmutex_lock_def kmmutex_lock_with.simps mmutex_defs
      lockw_def)

lemma kproc_unlock_released:
  assumes "lock_idle w" and "\<not> kproc_islocked (w_proc w) l"
    and "p_lock (w_proc w2) = p_lock (w_proc (lockw w l))"
  shows "\<exists>w3. kproc_unlock k w2 l = Done w3 \<and> released w w3 \<and> nolock w3 = nolock w2"
proof -
  let ?m = "p_lock (w_proc w)"
  have idle: "sig_idle (mmx_sig (p_lock (w_proc w2)))"
    using assms(1,3) by (simp add: lockw_def lock_idle_def mmx_locks_set_def)
  obtain e m' where m': "kmmutex_unlock (c_resched k) (p_lock (w_proc w2)) l = Done (e, m')"
    "sig_idle (mmx_sig m')" "mmx_locks m' = mmx_locks (p_lock (w_proc w2)) AND NOT l"
    using kmmutex_unlock_idle [OF idle, of "c_resched k" l] by blast
  have "mmx_locks (p_lock (w_proc w2)) AND NOT l = mmx_locks ?m"
    using assms(2,3) mask_set_clear [of "mmx_locks ?m" l]
    by (simp add: lockw_def kproc_islocked_def mmutex_defs)
  then show ?thesis
    using m' by (simp add: kproc_unlock_def released_def lock_idle_def nolock_def)
qed

lemma nolock_frame [simp]:
  "w_refs (nolock w) = w_refs w" "p_fdman (w_proc (nolock w)) = p_fdman (w_proc w)"
  "p_environ (w_proc (nolock w)) = p_environ (w_proc w)" "p_perm (w_proc (nolock w)) = p_perm (w_proc w)"
  "p_threads (w_proc (nolock w)) = p_threads (w_proc w)" "nolock (lockw w l) = nolock w"
  by (simp_all add: nolock_def lockw_def)

lemma set_frame [simp]:
  "p_lock (w_proc (set_fdman w m)) = p_lock (w_proc w)" "p_fdman (w_proc (set_fdman w m)) = m"
  "w_refs (set_fdman w m) = w_refs w" "nolock (set_fdman w m) = set_fdman (nolock w) m"
  "p_lock (w_proc (set_environ w env)) = p_lock (w_proc w)" "p_environ (w_proc (set_environ w env)) = env"
  "nolock (set_environ w env) = set_environ (nolock w) env"
  "p_lock (w_proc (quit_entries w es)) = p_lock (w_proc w)"
  "nolock (quit_entries w es) = quit_entries (nolock w) es"
  "p_fdman (w_proc (quit_entries w es)) = p_fdman (w_proc w)"
  "p_lock (w_proc (w\<lparr>w_refs := rs\<rparr>)) = p_lock (w_proc w)"
  "nolock (w\<lparr>w_refs := rs\<rparr>) = (nolock w)\<lparr>w_refs := rs\<rparr>"
  by (simp_all add: set_fdman_def set_environ_def quit_entries_def nolock_def)

lemma released_frame [simp]: "released w (quit_entries w' es) = released w w'"
  by (simp add: released_def lock_idle_def)

text \<open>The four shapes of a locked section.\<close>

lemma closefd_run:
  assumes "lock_idle w" and "\<not> kproc_islocked (w_proc w) KPROC_LOCK_FDMAN"
    and "closefd_core (c_debug k) (c_mem k) (p_fdman (w_proc w)) fd = (err, old, m)"
  shows "\<exists>w'. kproc_closefd k w fd = Done (if old = None then err else KE_OK, w') \<and> released w w'
    \<and> nolock w' = (case old of None \<Rightarrow> set_fdman (nolock w) m
        | Some e \<Rightarrow> quit_entries (set_fdman (nolock w) m) [e])"
proof -
  obtain w3 where "kproc_unlock k (set_fdman (lockw w KPROC_LOCK_FDMAN) m) KPROC_LOCK_FDMAN = Done w3"
    and "released w w3" and "nolock w3 = set_fdman (nolock w) m"
    using kproc_unlock_released [OF assms(1,2), of "set_fdman (lockw w KPROC_LOCK_FDMAN) m" k] by auto
  then show ?thesis using assms
    by (cases old) (auto simp: kproc_closefd_def kproc_lock_free)
qed

lemma insfdat_run:
  assumes "lock_idle w" and "\<not> kproc_islocked (w_proc w) KPROC_LOCK_FDMAN"
    and "insfdat_core (c_mem k) (p_fdman (w_proc w)) fd entry = (err, old, m)"
  shows "\<exists>w'. kproc_insfdat_inherited k w fd entry = Done (err, w') \<and> released w w'
    \<and> nolock w' = (case old of None \<Rightarrow> set_fdman (nolock w) m
        | Some e \<Rightarrow> quit_entries (set_fdman (nolock w) m) [e])"
proof -
  obtain w3 where "kproc_unlock k (set_fdman (lockw w KPROC_LOCK_FDMAN) m) KPROC_LOCK_FDMAN = Done w3"
    and "released w w3" and "nolock w3 = set_fdman (nolock w) m"
    using kproc_unlock_released [OF assms(1,2), of "set_fdman (lockw w KPROC_LOCK_FDMAN) m" k] by auto
  then show ?thesis using assms
    by (cases old) (auto simp: kproc_insfdat_inherited_def kproc_lock_free)
qed

lemma special_negative: "KFD_TASKSELF < 0" "KFD_TASKROOT < 0" "KFD_PROCSELF < 0" "KFD_ROOT < 0" "KFD_CWD < 0"
  by (simp_all add: KFD_TASKSELF_def KFD_TASKROOT_def KFD_PROCSELF_def KFD_ROOT_def KFD_CWD_def
      KFD_INTERNAL_def)

lemma getfd_run:
  assumes "lock_idle w" and "\<not> kproc_islocked (w_proc w) KPROC_LOCK_FDMAN" and "0 \<le> fd"
    and "nat fd < fdm_fda (p_fdman (w_proc w))"
    and "kfdentry_initcopyself (w_refs w) (fdm_fdv (p_fdman (w_proc w)) ! nat fd) = (err, rs)"
  shows "\<exists>w'. kproc_getfd k w fd = Done ((err, Some (fdm_fdv (p_fdman (w_proc w)) ! nat fd)), w')
    \<and> released w w' \<and> nolock w' = (nolock w)\<lparr>w_refs := rs\<rparr>"
proof -
  let ?w2 = "(lockw w KPROC_LOCK_FDMAN)\<lparr>w_refs := rs\<rparr>"
  obtain w3 where "kproc_unlock k ?w2 KPROC_LOCK_FDMAN = Done w3"
    and "released w w3" and "nolock w3 = (nolock w)\<lparr>w_refs := rs\<rparr>"
    using kproc_unlock_released [OF assms(1,2), of ?w2 k] by auto
  then show ?thesis
    using assms special_negative
    by (auto simp: kproc_getfd_def kproc_lock_free kfdman_slot_def slot_get_def kfdentry_initcopy_def)
qed

text \<open>
  C18. \<open>kproc_closefd\<close> (debug build): with the descriptor lock free the call returns and the lock is free
  again; a descriptor that is open is closed, its object loses exactly the reference the descriptor
  held, and no other descriptor changes; for a descriptor that is not open the answer is \<open>KE_BADF\<close> and
  nothing changes.
\<close>

theorem kproc_closefd_correct:
  assumes "lock_idle w" and "\<not> kproc_islocked (w_proc w) KPROC_LOCK_FDMAN"
    and "fd_inv (p_fdman (w_proc w))" and "0 \<le> fd" and "c_debug k"
  shows "\<exists>e w'. kproc_closefd k w fd = Done (e, w') \<and> released w w' \<and> fd_inv (p_fdman (w_proc w'))
    \<and> fd_lookup (p_fdman (w_proc w')) = (fd_lookup (p_fdman (w_proc w)))(fd := None)
    \<and> (case fd_lookup (p_fdman (w_proc w)) fd of
         None \<Rightarrow> e = KE_BADF \<and> nolock w' = nolock w
       | Some entry \<Rightarrow> e = KE_OK \<and> w_refs w' = kfdentry_quit (w_refs w) entry)"
proof -
  let ?m = "p_fdman (w_proc w)"
  obtain err old m where core: "closefd_core (c_debug k) (c_mem k) ?m fd = (err, old, m)"
    by (cases "closefd_core (c_debug k) (c_mem k) ?m fd")
  note law = closefd_law [OF assms(3,4), of "c_mem k" err old m]
  obtain w' where w': "kproc_closefd k w fd = Done (if old = None then err else KE_OK, w')" "released w w'"
    and data: "nolock w' = (case old of None \<Rightarrow> set_fdman (nolock w) m
      | Some e \<Rightarrow> quit_entries (set_fdman (nolock w) m) [e])"
    using closefd_run [OF assms(1,2) core] by blast
  have fdm: "p_fdman (w_proc w') = m" and refs: "w_refs w' = kfdman_quit_vec (w_refs w) (case old of None \<Rightarrow> [] | Some e \<Rightarrow> [e])"
    using arg_cong [OF data, of "\<lambda>w. p_fdman (w_proc w)"] arg_cong [OF data, of w_refs]
    by (auto simp: quit_entries_def split: option.splits)
  have same: "old = None \<Longrightarrow> m = ?m \<Longrightarrow> nolock w' = nolock w"
    using data by (simp add: set_fdman_def nolock_def)
  show ?thesis
    using w' fdm refs law core assms(5) same by (cases "fd_lookup ?m fd") auto
qed

definition world_example :: kworld where
  "world_example = \<lparr>w_proc = \<lparr>p_lock = kmmutex_init, p_fdman = (kfdman_init 8)\<lparr>fdm_cnt := 2,
       fdm_fdv := [file_entry 5, file_entry 6]\<rparr>,
     p_perm = \<lparr>pp_barriers = [1, 1, 1, 1], pp_priomin = 0, pp_priomax = 9, pp_namemax = 16,
       pp_pipemax = 64, pp_thrdmax = 4, pp_flags = [3, 3, 3, 3], pp_state = 0x50000000\<rparr>,
     p_threads = [1], p_environ = kprocenv_initroot\<rparr>, w_refs = (\<lambda>a. 2)\<rparr>"

definition ctx_example :: kctx where
  "ctx_example = \<lparr>c_self = 1, c_root = 1, c_proc = 9, c_resched = (\<lambda>t. KE_OK), c_mem = True, c_debug = True\<rparr>"

lemma world_example_ok:
  "lock_idle world_example" "\<not> kproc_islocked (w_proc world_example) l"
  "fd_inv (p_fdman (w_proc world_example))"
  by (simp_all add: world_example_def lock_idle_def kproc_islocked_def kmmutex_init_def signal_exec
      sig_idle_def mmutex_defs fd_inv_def kfdman_init_def fdm_fda_def file_entry_def fd_used_def)

theorem kproc_closefd_correct_witness:
  "\<exists>e w'. kproc_closefd ctx_example world_example 1 = Done (e, w') \<and> released world_example w' \<and> e = KE_OK
    \<and> w_refs w' = (\<lambda>a. 2)(6 := 1)"
proof -
  have look: "fd_lookup (p_fdman (w_proc world_example)) 1 = Some (file_entry 6)"
    by (simp add: world_example_def fd_lookup_def vec_lookup_def file_entry_def fd_used_def)
  have "c_debug ctx_example" by (simp add: ctx_example_def)
  from kproc_closefd_correct [OF world_example_ok(1) world_example_ok(2) world_example_ok(3) _ this, of 1]
  show ?thesis using look
    by (auto simp: kfdentry_quit_def fd_counted_def file_entry_def kobject_decref_def world_example_def)
qed



text \<open>
  \<open>kproc_getfd\<close> does not check that the slot is in use: for a closed descriptor inside the table it
  returns \<open>KE_OK\<close> and an entry of type \<open>KFDTYPE_NONE\<close>, not \<open>KE_BADF\<close>.
\<close>

theorem kproc_getfd_closed_ok:
  assumes "lock_idle w" and "\<not> kproc_islocked (w_proc w) KPROC_LOCK_FDMAN" and "0 \<le> fd"
    and "nat fd < fdm_fda (p_fdman (w_proc w))" and "fd_lookup (p_fdman (w_proc w)) fd = None"
  shows "\<exists>e w'. kproc_getfd k w fd = Done ((KE_OK, Some e), w') \<and> fd_type e = KFDTYPE_NONE"
proof -
  have none: "fd_type (fdm_fdv (p_fdman (w_proc w)) ! nat fd) = KFDTYPE_NONE"
    using assms(3-5) by (auto simp: fd_lookup_def vec_lookup_def fdm_fda_def fd_used_def split: if_splits)
  then have "kfdentry_initcopyself (w_refs w) (fdm_fdv (p_fdman (w_proc w)) ! nat fd) = (KE_OK, w_refs w)"
    by (simp add: kfdentry_initcopyself_def fd_counted_def)
  then show ?thesis using getfd_run [OF assms(1-4), of KE_OK "w_refs w" k] none by blast
qed

theorem kproc_getfd_closed_ok_witness:
  "\<exists>e w'. kproc_getfd ctx_example (set_fdman world_example fdman_example) 1 = Done ((KE_OK, Some e), w')
    \<and> fd_type e = KFDTYPE_NONE"
  by (rule kproc_getfd_closed_ok)
    (use world_example_ok(1,2) in \<open>simp_all add: lock_idle_def kproc_islocked_def fdman_example_def fdm_fda_def
      fd_lookup_def vec_lookup_def fd_used_def kfdentry_init_def\<close>)

section \<open>Permissions are only taken away\<close>

definition pp_wf :: "kprocperm \<Rightarrow> bool" where
  "pp_wf p \<longleftrightarrow> sint (pp_priomin p) \<le> sint (pp_priomax p) \<and> length (pp_flags p) = KPERM_FLAG_GROUPCOUNT"

abbreviation perm_wf :: "kworld \<Rightarrow> bool" where "perm_wf w \<equiv> pp_wf (p_perm (w_proc w))"

definition perm_no_wider :: "kprocperm \<Rightarrow> kprocperm \<Rightarrow> bool" where
  "perm_no_wider p q \<longleftrightarrow> sint (pp_priomin p) \<le> sint (pp_priomin q)
     \<and> sint (pp_priomax q) \<le> sint (pp_priomax p)
     \<and> pp_namemax q \<le> pp_namemax p \<and> pp_pipemax q \<le> pp_pipemax p \<and> pp_thrdmax q \<le> pp_thrdmax p
     \<and> (\<forall>g < KPERM_FLAG_GROUPCOUNT. (pp_flags q ! g) AND NOT (pp_flags p ! g) = 0)
     \<and> kprocperm_getlogpriv p \<le> kprocperm_getlogpriv q \<and> pp_barriers q = pp_barriers p"

definition no_wider :: "kworld \<Rightarrow> kworld \<Rightarrow> bool" where
  "no_wider w w' \<longleftrightarrow> perm_no_wider (p_perm (w_proc w)) (p_perm (w_proc w'))
     \<and> fdm_max (p_fdman (w_proc w')) \<le> fdm_max (p_fdman (w_proc w))
     \<and> pe_memmax (p_environ (w_proc w')) \<le> pe_memmax (p_environ (w_proc w))"

lemma perm_no_wider_refl: "perm_no_wider p p"
  by (simp add: perm_no_wider_def)

lemma lock_unlock_frame:
  "kproc_lock k w l = Done (e, w1) \<Longrightarrow> nolock w1 = nolock w"
  "kproc_unlock k w l = Done w2 \<Longrightarrow> nolock w2 = nolock w"
  by (auto simp: kproc_lock_def kproc_unlock_def andthen_Done_iff nolock_def split: prod.splits)

lemma nolock_fields:
  assumes "nolock w1 = nolock w"
  shows "p_perm (w_proc w1) = p_perm (w_proc w)" "p_fdman (w_proc w1) = p_fdman (w_proc w)"
    "p_environ (w_proc w1) = p_environ (w_proc w)" "w_refs w1 = w_refs w"
  using arg_cong [OF assms, of "\<lambda>w. p_perm (w_proc w)"] arg_cong [OF assms, of "\<lambda>w. p_fdman (w_proc w)"]
    arg_cong [OF assms, of "\<lambda>w. p_environ (w_proc w)"] arg_cong [OF assms, of w_refs]
  by simp_all

lemma no_wider_nolock: "nolock w1 = nolock w \<Longrightarrow> no_wider w w1 \<and> (perm_wf w1 \<longleftrightarrow> perm_wf w)"
  using nolock_fields [of w1 w] by (simp add: no_wider_def perm_no_wider_refl)

text \<open>The new log privilege level, for levels that fit their four bits.\<close>

lemma logpriv_set:
  assumes "d < (16 :: u32)"
  shows "drop_bit 28 ((s AND NOT KPROCSTATE_MASK_LOGPRIV) OR push_bit 28 d) = d"
proof (rule bit_eqI)
  fix n
  have m: "KPROCSTATE_MASK_LOGPRIV = push_bit 28 (mask 4)" by (simp add: mask_eq_exp_minus_1 push_bit_eq_mult)
  have hi: "\<not> bit d n" if "4 \<le> n"
  proof -
    have "d = take_bit 4 d" using assms by (simp add: take_bit_eq_mod mod_word_less)
    then show ?thesis using that by (metis bit_take_bit_iff not_le)
  qed
  show "bit (drop_bit 28 ((s AND NOT KPROCSTATE_MASK_LOGPRIV) OR push_bit 28 d)) n = bit d n"
    unfolding m using hi by (cases "n < 4") (auto simp: bit_simps dest: bit_imp_le_length)
qed

lemma perm_syslog_narrow:
  assumes "perm_syslog mode pp perm = (e, perm', pp')" and "d_int perm < 16"
  shows "perm_no_wider pp pp' \<and> (pp_wf pp \<longrightarrow> pp_wf pp')"
proof (cases "pp' = pp")
  case True
  then show ?thesis by (simp add: perm_no_wider_refl)
next
  case False
  let ?old = "drop_bit KPROCSTATE_SHIFT_LOGPRIV (pp_state pp)"
  have le: "uint ?old \<le> d_int perm"
    and pp': "pp' = pp\<lparr>pp_state := (pp_state pp AND NOT KPROCSTATE_MASK_LOGPRIV)
      OR push_bit KPROCSTATE_SHIFT_LOGPRIV (p_data perm)\<rparr>"
    using assms(1) False by (auto simp: perm_syslog_def Let_def split: if_splits)
  have pos: "0 \<le> sint (p_data perm)" using order_trans [OF _ le [unfolded d_int_def], of 0] by simp
  then have ui: "uint (p_data perm) = sint (p_data perm)"
    using assms(2) take_bit_int_eq_self [of "sint (p_data perm)" 32] by (simp add: uint_sint d_int_def)
  then have small: "p_data perm < 16" using assms(2) by (simp add: d_int_def word_less_def)
  have "uint ?old \<le> uint (drop_bit 28 ((pp_state pp AND NOT KPROCSTATE_MASK_LOGPRIV) OR push_bit 28 (p_data perm)))"
    using logpriv_set [OF small, of "pp_state pp"] le ui by (simp add: d_int_def)
  then show ?thesis unfolding pp' by (simp add: perm_no_wider_def kprocperm_getlogpriv_def pp_wf_def)
qed


lemma perm_prio_narrow:
  assumes "pp_wf pp" and "perm_prio_min mode pp perm = (e, perm', pp') \<or> perm_prio_max mode pp perm = (e, perm', pp')"
  shows "perm_no_wider pp pp' \<and> pp_wf pp'"
proof -
  have "perm_no_wider pp (pp\<lparr>pp_priomin := v\<rparr>) \<and> pp_wf (pp\<lparr>pp_priomin := v\<rparr>)"
    if "sint (pp_priomin pp) \<le> sint v" "sint v \<le> sint (pp_priomax pp)" for v
    using that assms(1) by (simp add: perm_no_wider_def pp_wf_def kprocperm_getlogpriv_def)
  moreover have "perm_no_wider pp (pp\<lparr>pp_priomax := v\<rparr>) \<and> pp_wf (pp\<lparr>pp_priomax := v\<rparr>)"
    if "sint (pp_priomin pp) \<le> sint v" "sint v \<le> sint (pp_priomax pp)" for v
    using that assms(1) by (simp add: perm_no_wider_def pp_wf_def kprocperm_getlogpriv_def)
  ultimately show ?thesis
    using assms perm_no_wider_refl [of pp] conjunct1 [OF assms(1) [unfolded pp_wf_def]]
    unfolding perm_prio_min_def perm_prio_max_def Let_def by (auto split: if_splits)
qed

lemma perm_flag_narrow:
  assumes "pp_wf pp" and "perm_flag mode pp perm = (e, perm', pp')"
  shows "perm_no_wider pp pp' \<and> pp_wf pp'"
proof -
  have sub: "(x AND NOT m) AND NOT x = 0" for x m :: u16
    by (rule bit_eqI) (auto simp: bit_simps)
  show ?thesis
    using assms by (auto simp: perm_flag_def Let_def pp_wf_def perm_no_wider_def kprocperm_getlogpriv_def
        nth_list_update sub split: if_splits)
qed

lemma perm_size_field_narrow:
  assumes "perm_size_field mode old upd pp perm = (e, perm', pp')"
  shows "pp' = pp \<or> (\<exists>v \<le> old. pp' = upd v)"
  using assms by (auto simp: perm_size_field_def not_less split: if_splits)

lemma perm_maxmem_narrow: "perm_maxmem mode pp perm = (e, perm', pp') \<Longrightarrow> pp' = pp"
  by (auto simp: perm_maxmem_def split: if_splits)

lemma perm_locked_narrow:
  assumes run: "perm_locked k w l mode perm rd wr = Done ((e, perm'), w')"
    and wr: "\<And>u v. nolock u = nolock w \<Longrightarrow> v \<le> rd u \<Longrightarrow> no_wider w (wr u v) \<and> (perm_wf w \<longrightarrow> perm_wf (wr u v))"
  shows "no_wider w w' \<and> (perm_wf w \<longrightarrow> perm_wf w')"
proof -
  obtain e1 w1 where l: "kproc_lock k w l = Done (e1, w1)"
    using run by (auto simp: perm_locked_def andthen_Done_iff)
  have n1: "nolock w1 = nolock w" by (rule lock_unlock_frame(1) [OF l])
  obtain e2 perm2 w2 where f: "perm_size_field mode (rd w1) (wr w1) w1 perm = (e2, perm2, w2)"
    by (cases "perm_size_field mode (rd w1) (wr w1) w1 perm")
  have base: "no_wider w w1 \<and> (perm_wf w \<longrightarrow> perm_wf w1)" using no_wider_nolock [OF n1] by blast
  have two: "no_wider w w2 \<and> (perm_wf w \<longrightarrow> perm_wf w2)"
    using perm_size_field_narrow [OF f] base wr [OF n1] by blast
  have unl: "no_wider w u \<and> (perm_wf w \<longrightarrow> perm_wf u)" if "kproc_unlock k w2 l = Done u" for u
    using two nolock_fields [OF lock_unlock_frame(2) [OF that]] by (simp add: no_wider_def)
  show ?thesis
    using run base two unl by (auto simp: perm_locked_def l f andthen_Done_iff split: if_splits)
qed

lemma set_limits_narrow:
  assumes "nolock u = nolock w"
  shows "v \<le> pe_memmax (p_environ (w_proc u)) \<Longrightarrow> no_wider w (set_memmax u v) \<and> (perm_wf w \<longrightarrow> perm_wf (set_memmax u v))"
    "v \<le> fdm_max (p_fdman (w_proc u)) \<Longrightarrow> no_wider w (set_fdmax u v) \<and> (perm_wf w \<longrightarrow> perm_wf (set_fdmax u v))"
  using nolock_fields [OF assms]
  by (simp_all add: no_wider_def set_memmax_def set_fdmax_def set_environ_def set_fdman_def perm_no_wider_refl)

text \<open>What every case of the switch has to give.\<close>

definition narrows :: "kworld \<Rightarrow> ((kerrno \<times> kperm) \<times> kworld) outcome \<Rightarrow> bool" where
  "narrows w r \<longleftrightarrow> (\<forall>e perm' w'. r = Done ((e, perm'), w') \<longrightarrow> no_wider w w' \<and> perm_wf w')"

lemma narrows_atomic:
  assumes "\<And>e q pp. r = (e, q, pp) \<Longrightarrow> perm_no_wider (p_perm (w_proc w)) pp \<and> pp_wf pp"
  shows "narrows w (case r of (e, q, pp) \<Rightarrow> Done ((e, q), set_perm w pp))"
  using assms by (cases r) (auto simp: narrows_def no_wider_def set_perm_def)

lemma narrows_size_field:
  assumes "pp_wf (p_perm (w_proc w))"
    and "\<And>v. v \<le> old \<Longrightarrow> perm_no_wider (p_perm (w_proc w)) (upd v) \<and> pp_wf (upd v)"
  shows "narrows w (case perm_size_field mode old upd (p_perm (w_proc w)) perm of
    (e, q, pp) \<Rightarrow> Done ((e, q), set_perm w pp))"
proof (rule narrows_atomic)
  fix e q pp
  assume "perm_size_field mode old upd (p_perm (w_proc w)) perm = (e, q, pp)"
  from perm_size_field_narrow [OF this] show "perm_no_wider (p_perm (w_proc w)) pp \<and> pp_wf pp"
    using assms perm_no_wider_refl by auto
qed

lemma narrows_locked:
  assumes "perm_wf w"
    and "\<And>u v. nolock u = nolock w \<Longrightarrow> v \<le> rd u \<Longrightarrow> no_wider w (wr u v) \<and> (perm_wf w \<longrightarrow> perm_wf (wr u v))"
  shows "narrows w (perm_locked k w l mode perm rd wr)"
proof (unfold narrows_def, intro allI impI)
  fix e perm' w'
  assume "perm_locked k w l mode perm rd wr = Done ((e, perm'), w')"
  from perm_locked_narrow [OF this] assms show "no_wider w w' \<and> perm_wf w'" by blast
qed

lemma narrows_if: "(b \<Longrightarrow> narrows w x) \<Longrightarrow> (\<not> b \<Longrightarrow> narrows w y) \<Longrightarrow> narrows w (if b then x else y)"
  by simp

lemma kproc_perm_narrows:
  assumes wf: "pp_wf (p_perm (w_proc w))" and lev: "p_id perm = KPERM_NAME_SYSLOG \<longrightarrow> d_int perm < 16"
  shows "narrows w (kproc_perm mode k w perm)"
proof -
  let ?at = "\<lambda>r. case r of (e, q, pp) \<Rightarrow> Done ((e, q), set_perm w pp)"
  let ?pp = "p_perm (w_proc w)"
  have prio: "narrows w (?at (perm_prio_min mode ?pp perm))" "narrows w (?at (perm_prio_max mode ?pp perm))"
    using perm_prio_narrow [OF wf] by (blast intro: narrows_atomic)+
  have flag: "narrows w (?at (perm_flag mode ?pp perm))"
    using perm_flag_narrow [OF wf] by (blast intro: narrows_atomic)
  have mem: "narrows w (?at (perm_maxmem mode ?pp perm))"
    using wf by (intro narrows_atomic) (auto dest!: perm_maxmem_narrow simp: perm_no_wider_refl)
  have log: "p_id perm = KPERM_NAME_SYSLOG \<Longrightarrow> narrows w (?at (perm_syslog mode ?pp perm))"
    using perm_syslog_narrow wf lev by (blast intro: narrows_atomic)
  have sizes: "narrows w (?at (perm_size_field mode (pp_namemax ?pp) (\<lambda>v. ?pp\<lparr>pp_namemax := v\<rparr>) ?pp perm))"
    "narrows w (?at (perm_size_field mode (pp_pipemax ?pp) (\<lambda>v. ?pp\<lparr>pp_pipemax := v\<rparr>) ?pp perm))"
    "narrows w (?at (perm_size_field mode (pp_thrdmax ?pp) (\<lambda>v. ?pp\<lparr>pp_thrdmax := v\<rparr>) ?pp perm))"
    using wf by (intro narrows_size_field; simp add: perm_no_wider_def pp_wf_def kprocperm_getlogpriv_def)+
  have locked: "narrows w (perm_locked k w KPROC_LOCK_ENVIRON mode perm (\<lambda>w. pe_memmax (p_environ (w_proc w))) set_memmax)"
    "narrows w (perm_locked k w KPROC_LOCK_FDMAN mode perm (\<lambda>w. fdm_max (p_fdman (w_proc w))) set_fdmax)"
    using set_limits_narrow wf by (intro narrows_locked; simp)+
  have other: "narrows w (Done ((KE_INVAL, perm), w))"
    using wf by (simp add: narrows_def no_wider_def perm_no_wider_refl)
  show ?thesis
    unfolding kproc_perm_def Let_def
    by (intro narrows_if prio flag mem log sizes locked other) assumption?
qed



text \<open>
  C30. The log level is not checked against the four bits it is kept in: asking for level 16 is accepted
  as a level above the current one and leaves the process with level 0, the highest privilege.
\<close>

theorem kproc_perm_syslog_widens:
  assumes "p_id perm = KPERM_NAME_SYSLOG" and "4 \<le> p_size perm" and "p_data perm = 16"
  shows "\<exists>w'. kproc_perm SET k w perm = Done ((KE_OK, perm), w') \<and> kprocperm_getlogpriv (p_perm (w_proc w')) = 0"
proof -
  let ?s = "pp_state (p_perm (w_proc w))"
  have "uint (drop_bit 28 ?s) \<le> 16"
    using uint_lt2p [of ?s] by (simp add: drop_bit_eq_div uint_div_distrib)
  moreover have "drop_bit 28 (?s AND NOT KPROCSTATE_MASK_LOGPRIV) = 0"
    by (rule bit_eqI) (auto simp: bit_simps)
  ultimately show ?thesis
    using assms by (simp add: kproc_perm_def perm_syslog_def Let_def d_int_def set_perm_def kprocperm_getlogpriv_def not_less)
qed

theorem kproc_perm_syslog_widens_witness:
  "\<exists>w'. kprocperm_getlogpriv (p_perm (w_proc world_example)) = 5
    \<and> kproc_perm SET ctx_example world_example \<lparr>p_id = KPERM_NAME_SYSLOG, p_size = 4, p_data = 16\<rparr>
      = Done ((KE_OK, \<lparr>p_id = KPERM_NAME_SYSLOG, p_size = 4, p_data = 16\<rparr>), w')
    \<and> kprocperm_getlogpriv (p_perm (w_proc w')) = 0"
  using kproc_perm_syslog_widens [of "\<lparr>p_id = KPERM_NAME_SYSLOG, p_size = 4, p_data = 16\<rparr>" ctx_example world_example]
  by (simp add: world_example_def kprocperm_getlogpriv_def)

lemma kproc_lock_held:
  assumes "lock_idle w" and "kproc_islocked (w_proc w) l" and "\<not> ksignal_isdead_unlocked (mmx_sig (p_lock (w_proc w)))"
  shows "kproc_lock k w l = Blocked"
  using assms by (simp add: kproc_lock_def kmmutex_lock_def kmmutex_lock_with.simps mmutex_defs kproc_islocked_def
      lock_idle_def recv_idle ksignal_isdead_unlocked_def)

text \<open>
  C29. Asking for a larger descriptor limit is refused with \<open>KE_ACCES\<close>, but the early return keeps the lock
  of the descriptor table: from then on every call that closes a descriptor of the process blocks.
\<close>

theorem kproc_perm_refusal_keeps_lock:
  assumes "lock_idle w" and "\<not> kproc_islocked (w_proc w) KPROC_LOCK_FDMAN" and "p_id perm = KPERM_NAME_FDMAX"
    and "4 \<le> p_size perm" and "fdm_max (p_fdman (w_proc w)) < p_data perm"
    and "\<not> ksignal_isdead_unlocked (mmx_sig (p_lock (w_proc w)))"
  shows "\<exists>w'. kproc_perm SET k w perm = Done ((KE_ACCES, perm), w')
    \<and> (\<forall>k' fd. kproc_closefd k' w' fd = Blocked)"
proof -
  let ?w = "lockw w KPROC_LOCK_FDMAN"
  have run: "kproc_perm SET k w perm = Done ((KE_ACCES, perm), ?w)"
    using assms(3-5) kproc_lock_free [OF assms(2), of k]
    by (simp add: kproc_perm_def perm_locked_def perm_size_field_def d_size_def Let_def)
  have "lock_idle ?w" using assms(1) by (simp add: lock_idle_def lockw_def mmx_locks_set_def)
  moreover have "kproc_islocked (w_proc ?w) KPROC_LOCK_FDMAN"
    by (simp add: kproc_islocked_def lockw_def mmutex_defs KPROC_LOCK_FDMAN_def KMMUTEX_LOCK_def)
  moreover have "\<not> ksignal_isdead_unlocked (mmx_sig (p_lock (w_proc ?w)))"
    using assms(6) by (simp add: lockw_def mmx_locks_set_def ksignal_isdead_unlocked_def)
  ultimately have "kproc_lock k' ?w KPROC_LOCK_FDMAN = Blocked" for k' by (rule kproc_lock_held)
  then show ?thesis using run by (simp add: kproc_closefd_def)
qed

theorem kproc_perm_refusal_keeps_lock_witness:
  "\<exists>w'. kproc_perm SET ctx_example world_example \<lparr>p_id = KPERM_NAME_FDMAX, p_size = 4, p_data = 9\<rparr>
      = Done ((KE_ACCES, \<lparr>p_id = KPERM_NAME_FDMAX, p_size = 4, p_data = 9\<rparr>), w')
    \<and> kproc_closefd ctx_example w' 0 = Blocked"
proof -
  have "fdm_max (p_fdman (w_proc world_example)) < 9"
    "\<not> ksignal_isdead_unlocked (mmx_sig (p_lock (w_proc world_example)))"
    by (simp_all add: world_example_def kfdman_init_def kmmutex_init_def signal_exec)
  with kproc_perm_refusal_keeps_lock [OF world_example_ok(1) world_example_ok(2), of
      "\<lparr>p_id = KPERM_NAME_FDMAX, p_size = 4, p_data = 9\<rparr>" ctx_example]
  show ?thesis by auto
qed

end
