(* ===== verification/RwLock.thy ===== *)
theory RwLock
  imports Locks
begin

text \<open>
  The reader/writer lock \<open>krwlock\<close> (\<^verbatim>\<open>include/kos/kernel/rwlock.h\<close>, \<^verbatim>\<open>src/kernel/sched/sync/rwlock.c.inl\<close>),
  in the configuration the kernel is built with: no tracked holders, a 32-bit reader count beside the
  signal.

  As for the other locks, a routine that sleeps takes a script of what it finds after each sleep.
  Every operation works on the lock while it holds the wait lock of the signal, so the operations of
  several tasks interleave as whole steps.
\<close>

section \<open>State and operations\<close>

record krwlock =
  rw_sig :: ksignal
  rw_readc :: u32

definition KRWLOCK_FLAG_WRITEMODE :: u8 where
  "KRWLOCK_FLAG_WRITEMODE = KSIGNAL_FLAG_USER 0"

definition krwlock_init :: krwlock where
  "krwlock_init = \<lparr>rw_sig = ksignal_init, rw_readc = 0\<rparr>"

definition krwlock_iswritelocked :: "krwlock \<Rightarrow> bool" where
  "krwlock_iswritelocked l \<longleftrightarrow> s_flags (rw_sig l) AND KRWLOCK_FLAG_WRITEMODE \<noteq> 0"

definition krwlock_isreadlocked :: "krwlock \<Rightarrow> bool" where
  "krwlock_isreadlocked l \<longleftrightarrow> rw_readc l \<noteq> 0"

definition rw_dead :: "krwlock \<Rightarrow> bool" where
  "rw_dead l \<longleftrightarrow> s_flags (rw_sig l) AND KSIGNAL_FLAG_DEAD \<noteq> 0"

definition krwlock_addreader :: "krwlock \<Rightarrow> krwlock" where
  "krwlock_addreader l = l\<lparr>rw_readc := rw_readc l + 1\<rparr>"

definition krwlock_delreader :: "krwlock \<Rightarrow> krwlock" where
  "krwlock_delreader l = l\<lparr>rw_readc := rw_readc l - 1\<rparr>"

definition krwlock_setwriter :: "krwlock \<Rightarrow> krwlock" where
  "krwlock_setwriter l = l\<lparr>rw_sig := (rw_sig l)\<lparr>s_flags := s_flags (rw_sig l) OR KRWLOCK_FLAG_WRITEMODE\<rparr>\<rparr>"

definition krwlock_delwriter :: "krwlock \<Rightarrow> krwlock" where
  "krwlock_delwriter l = l\<lparr>rw_sig := (rw_sig l)\<lparr>s_flags := s_flags (rw_sig l) AND NOT KRWLOCK_FLAG_WRITEMODE\<rparr>\<rparr>"

definition rw_lock :: "krwlock \<Rightarrow> krwlock outcome" where
  "rw_lock l = andthen (ksignal_lock_c (rw_sig l) KSIGNAL_LOCK_WAIT) (\<lambda>s. Done (l\<lparr>rw_sig := s\<rparr>))"

definition rw_unlock :: "krwlock \<Rightarrow> krwlock" where
  "rw_unlock l = l\<lparr>rw_sig := ksignal_unlock_c (rw_sig l) KSIGNAL_LOCK_WAIT\<rparr>"

definition krwlock_reset :: "krwlock \<Rightarrow> (kerrno \<times> krwlock) outcome" where
  "krwlock_reset l = andthen (rw_lock l) (\<lambda>l.
     if \<not> rw_dead l then Done (KS_UNCHANGED, rw_unlock l)
     else Done (KE_OK, rw_unlock
       (l\<lparr>rw_sig := (rw_sig l)\<lparr>s_flags := s_flags (rw_sig l) AND NOT KSIGNAL_FLAG_DEAD\<rparr>\<rparr>)))"

text \<open>Receiving the signal with its lock held; \<open>k\<close> continues after a successful sleep.\<close>

definition rw_wait ::
  "task \<Rightarrow> (kerrno \<times> krwlock) list \<Rightarrow> krwlock
    \<Rightarrow> ((kerrno \<times> krwlock) list \<Rightarrow> krwlock \<Rightarrow> (kerrno \<times> krwlock) outcome)
    \<Rightarrow> (kerrno \<times> krwlock) outcome" where
  "rw_wait self env l k =
     (case ksignal_recv_andunlock_c self (rw_sig l) of
        (Some e, s) \<Rightarrow> Done (e, l\<lparr>rw_sig := s\<rparr>)
      | (None, s) \<Rightarrow> (case env of
          [] \<Rightarrow> Blocked
        | (e, l') # env' \<Rightarrow> if KE_ISERR e then Done (e, l') else k env' l'))"

lemma rw_wait_cong [fundef_cong]:
  assumes "self = self'" "env = env'" "l = l'"
    and "\<And>e x ys. env' = (e, x) # ys \<Longrightarrow> k ys x = k' ys x"
  shows "rw_wait self env l k = rw_wait self' env' l' k'"
  using assms by (auto simp: rw_wait_def split: list.splits option.splits prod.splits)

lemma andthen_cong [fundef_cong]:
  assumes "m = m'" "\<And>x. m' = Done x \<Longrightarrow> k x = k' x"
  shows "andthen m k = andthen m' k'"
  using assms by (cases m') auto

fun krwlock_beginread ::
  "task \<Rightarrow> (kerrno \<times> krwlock) list \<Rightarrow> krwlock \<Rightarrow> (kerrno \<times> krwlock) outcome" where
  "krwlock_beginread self env l = andthen (rw_lock l) (\<lambda>l.
     if krwlock_iswritelocked l then rw_wait self env l (krwlock_beginread self)
     else Done (KE_OK, rw_unlock (krwlock_addreader l)))"

declare krwlock_beginread.simps [simp del]

definition krwlock_trybeginread :: "krwlock \<Rightarrow> (kerrno \<times> krwlock) outcome" where
  "krwlock_trybeginread l = andthen (rw_lock l) (\<lambda>l.
     if krwlock_iswritelocked l
     then Done (if rw_dead l then KE_DESTROYED else KE_WOULDBLOCK, rw_unlock l)
     else Done (KE_OK, rw_unlock (krwlock_addreader l)))"

fun krwlock_beginwrite ::
  "task \<Rightarrow> (kerrno \<times> krwlock) list \<Rightarrow> krwlock \<Rightarrow> (kerrno \<times> krwlock) outcome" where
  "krwlock_beginwrite self env l = andthen (rw_lock l) (\<lambda>l.
     if krwlock_iswritelocked l \<or> rw_readc l \<noteq> 0 then rw_wait self env l (krwlock_beginwrite self)
     else Done (KE_OK, rw_unlock (krwlock_setwriter l)))"

declare krwlock_beginwrite.simps [simp del]

definition krwlock_trybeginwrite :: "krwlock \<Rightarrow> (kerrno \<times> krwlock) outcome" where
  "krwlock_trybeginwrite l = andthen (rw_lock l) (\<lambda>l.
     if krwlock_iswritelocked l \<or> rw_readc l \<noteq> 0
     then Done (if rw_dead l then KE_DESTROYED else KE_WOULDBLOCK, rw_unlock l)
     else Done (KE_OK, rw_unlock (krwlock_setwriter l)))"

text \<open>The timed variants run the same loops on the timed receive, whose \<open>KE_TIMEDOUT\<close> is one more value
  the script may hold.\<close>

definition krwlock_timedbeginread ::
  "task \<Rightarrow> (kerrno \<times> krwlock) list \<Rightarrow> krwlock \<Rightarrow> (kerrno \<times> krwlock) outcome" where
  "krwlock_timedbeginread self env l = krwlock_beginread self env l"

definition krwlock_timedbeginwrite ::
  "task \<Rightarrow> (kerrno \<times> krwlock) list \<Rightarrow> krwlock \<Rightarrow> (kerrno \<times> krwlock) outcome" where
  "krwlock_timedbeginwrite self env l = krwlock_beginwrite self env l"

text \<open>The loop that wakes one waiting task: after the first attempt it is the loop of \<open>kmutex_unlock\<close>.\<close>

definition rw_wakeone :: "(task \<Rightarrow> kerrno) \<Rightarrow> ksignal \<Rightarrow> (kerrno \<times> ksignal) outcome" where
  "rw_wakeone resched s =
     (case ksignal_sendone_andunlock_c resched s of
        (e, s') \<Rightarrow> if e = KS_UNCHANGED then kmutex_unlock_loop resched s' else Done (e, s'))"

definition krwlock_endread :: "(task \<Rightarrow> kerrno) \<Rightarrow> krwlock \<Rightarrow> (kerrno \<times> krwlock) outcome" where
  "krwlock_endread resched l = andthen (rw_lock l) (\<lambda>l.
     let l = krwlock_delreader l in
     if rw_readc l = 0
     then andthen (rw_wakeone resched (rw_sig l))
       (\<lambda>(e, s). Done (if e \<noteq> KS_EMPTY then KE_OK else KS_EMPTY, l\<lparr>rw_sig := s\<rparr>))
     else Done (KS_UNCHANGED, rw_unlock l))"

definition rw_wakeall :: "(task \<Rightarrow> kerrno) \<Rightarrow> krwlock \<Rightarrow> (kerrno \<times> krwlock) outcome" where
  "rw_wakeall resched l = andthen (ksignal_sendall_andunlock_c resched (rw_sig l))
     (\<lambda>(n, s). Done (if n \<noteq> 0 then KE_OK else KS_EMPTY, l\<lparr>rw_sig := s\<rparr>))"

definition krwlock_endwrite :: "(task \<Rightarrow> kerrno) \<Rightarrow> krwlock \<Rightarrow> (kerrno \<times> krwlock) outcome" where
  "krwlock_endwrite resched l =
     andthen (rw_lock l) (\<lambda>l. rw_wakeall resched (krwlock_delwriter l))"

definition krwlock_end :: "(task \<Rightarrow> kerrno) \<Rightarrow> krwlock \<Rightarrow> (kerrno \<times> krwlock) outcome" where
  "krwlock_end resched l = andthen (rw_lock l) (\<lambda>l.
     if krwlock_iswritelocked l then rw_wakeall resched (krwlock_delwriter l)
     else let l = krwlock_delreader l in
       if rw_readc l \<noteq> 0 then Done (KS_UNCHANGED, rw_unlock l) else rw_wakeall resched l)"

definition krwlock_downgrade :: "(task \<Rightarrow> kerrno) \<Rightarrow> krwlock \<Rightarrow> (kerrno \<times> krwlock) outcome" where
  "krwlock_downgrade resched l =
     andthen (rw_lock l) (\<lambda>l. rw_wakeall resched ((krwlock_delwriter l)\<lparr>rw_readc := 1\<rparr>))"

text \<open>The two halves of an upgrade that has to wait: giving up the read ticket, and claiming the lock
  after the signal.\<close>

definition upgrade_claim :: "krwlock \<Rightarrow> (kerrno \<times> krwlock) outcome" where
  "upgrade_claim l = andthen (rw_lock l) (\<lambda>l.
     if rw_dead l then Done (KE_DESTROYED, rw_unlock l)
     else if rw_readc l = 0 \<and> \<not> krwlock_iswritelocked l
     then Done (KS_BLOCKING, rw_unlock (krwlock_setwriter l))
     else Done (KE_WOULDBLOCK, rw_unlock l))"

definition upgrade_then ::
  "task \<Rightarrow> (kerrno \<times> krwlock) list \<Rightarrow> krwlock
    \<Rightarrow> ((kerrno \<times> krwlock) list \<Rightarrow> krwlock \<Rightarrow> (kerrno \<times> krwlock) outcome)
    \<Rightarrow> (kerrno \<times> krwlock) outcome" where
  "upgrade_then self env l k = andthen (rw_lock l) (\<lambda>l.
     if rw_readc l = 1
     then Done (KE_OK, rw_unlock (krwlock_setwriter (l\<lparr>rw_readc := 0\<rparr>)))
     else rw_wait self env (krwlock_delreader l) k)"

definition krwlock_atomic_upgrade ::
  "task \<Rightarrow> (kerrno \<times> krwlock) list \<Rightarrow> krwlock \<Rightarrow> (kerrno \<times> krwlock) outcome" where
  "krwlock_atomic_upgrade self env l = upgrade_then self env l (\<lambda>env l. upgrade_claim l)"

definition krwlock_atomic_timedupgrade ::
  "task \<Rightarrow> (kerrno \<times> krwlock) list \<Rightarrow> krwlock \<Rightarrow> (kerrno \<times> krwlock) outcome" where
  "krwlock_atomic_timedupgrade self env l = upgrade_then self env l (\<lambda>env l. upgrade_claim l)"

definition krwlock_tryupgrade :: "krwlock \<Rightarrow> (kerrno \<times> krwlock) outcome" where
  "krwlock_tryupgrade l = andthen (rw_lock l) (\<lambda>l.
     if rw_readc l = 1
     then Done (KE_OK, rw_unlock (krwlock_setwriter (l\<lparr>rw_readc := 0\<rparr>)))
     else Done (KE_WOULDBLOCK, rw_unlock l))"

text \<open>\<open>krwlock_upgrade\<close>: the script that is left after the atomic upgrade serves the wait for the lock.\<close>

definition krwlock_upgrade ::
  "task \<Rightarrow> (kerrno \<times> krwlock) list \<Rightarrow> krwlock \<Rightarrow> (kerrno \<times> krwlock) outcome" where
  "krwlock_upgrade self env l =
     andthen (krwlock_atomic_upgrade self env l) (\<lambda>(error, l).
       if KE_ISOK error \<or> error \<noteq> KE_WOULDBLOCK then Done (error, l)
       else andthen (krwlock_beginwrite self (drop 1 env) l)
         (\<lambda>(error, l). Done (if KE_ISERR error then error else KS_UNLOCKED, l)))"

definition krwlock_timedupgrade ::
  "task \<Rightarrow> (kerrno \<times> krwlock) list \<Rightarrow> krwlock \<Rightarrow> (kerrno \<times> krwlock) outcome" where
  "krwlock_timedupgrade self env l =
     andthen (krwlock_atomic_timedupgrade self env l) (\<lambda>(error, l).
       if KE_ISOK error \<or> error \<noteq> KE_WOULDBLOCK then Done (error, l)
       else andthen (krwlock_timedbeginwrite self (drop 1 env) l)
         (\<lambda>(error, l). Done (if KE_ISERR error then error else KS_UNLOCKED, l)))"

definition rw_close_with ::
  "(task \<Rightarrow> kerrno) \<Rightarrow> (kerrno \<times> krwlock) outcome \<Rightarrow> (kerrno \<times> krwlock) outcome" where
  "rw_close_with resched begun = andthen begun (\<lambda>(error, l).
     if error = KE_DESTROYED then Done (KS_UNCHANGED, l)
     else if KE_ISERR error then Done (error, l)
     else andthen (ksignal_close resched (rw_sig l) (\<lambda>s. s)) (\<lambda>(e, s). Done (KE_OK, l\<lparr>rw_sig := s\<rparr>)))"

definition krwlock_close ::
  "(task \<Rightarrow> kerrno) \<Rightarrow> task \<Rightarrow> (kerrno \<times> krwlock) list \<Rightarrow> krwlock \<Rightarrow> (kerrno \<times> krwlock) outcome" where
  "krwlock_close resched self env l = rw_close_with resched (krwlock_beginwrite self env l)"

definition krwlock_tryclose :: "(task \<Rightarrow> kerrno) \<Rightarrow> krwlock \<Rightarrow> (kerrno \<times> krwlock) outcome" where
  "krwlock_tryclose resched l = rw_close_with resched (krwlock_trybeginwrite l)"

definition krwlock_timedclose ::
  "(task \<Rightarrow> kerrno) \<Rightarrow> task \<Rightarrow> (kerrno \<times> krwlock) list \<Rightarrow> krwlock \<Rightarrow> (kerrno \<times> krwlock) outcome" where
  "krwlock_timedclose resched self env l = rw_close_with resched (krwlock_timedbeginwrite self env l)"

section \<open>What each operation does to an idle lock\<close>

definition rw_idle :: "krwlock \<Rightarrow> bool" where
  "rw_idle l \<longleftrightarrow> sig_idle (rw_sig l)"

text \<open>A change of the chain of waiting tasks.\<close>

definition rw_queue :: "task list \<Rightarrow> krwlock \<Rightarrow> krwlock" where
  "rw_queue w l = l\<lparr>rw_sig := (rw_sig l)\<lparr>s_wake := w\<rparr>\<rparr>"

lemma flag_bits:
  "((f :: u8) OR 2) AND 2 = 2" "(f AND NOT 2) AND 2 = 0" "(f OR 2) AND 1 = f AND 1"
  "(f AND NOT 2) AND 1 = f AND 1" "(f OR 1) AND 2 = f AND 2" "(f OR 1) AND 1 = 1" "(f AND NOT 1) AND 2 = f AND 2"
  "(f AND NOT 1) AND 1 = 0"
  by (rule bit_eqI; auto simp: bit_simps bit_1_iff bit_2_iff)+

lemma rw_flags [simp]:
  "krwlock_iswritelocked (krwlock_setwriter l)" "\<not> krwlock_iswritelocked (krwlock_delwriter l)"
  "rw_dead (krwlock_setwriter l) = rw_dead l" "rw_dead (krwlock_delwriter l) = rw_dead l"
  "rw_readc (krwlock_setwriter l) = rw_readc l" "rw_readc (krwlock_delwriter l) = rw_readc l"
  "krwlock_iswritelocked (l\<lparr>rw_readc := c\<rparr>) = krwlock_iswritelocked l" "rw_dead (l\<lparr>rw_readc := c\<rparr>) = rw_dead l"
  "krwlock_iswritelocked (rw_queue w l) = krwlock_iswritelocked l" "rw_dead (rw_queue w l) = rw_dead l"
  "rw_readc (rw_queue w l) = rw_readc l"
  "rw_idle (krwlock_setwriter l) = rw_idle l" "rw_idle (krwlock_delwriter l) = rw_idle l"
  "rw_idle (l\<lparr>rw_readc := c\<rparr>) = rw_idle l" "rw_idle (rw_queue w l) = rw_idle l"
  by (simp_all add: krwlock_iswritelocked_def krwlock_setwriter_def krwlock_delwriter_def rw_dead_def
      rw_queue_def rw_idle_def KRWLOCK_FLAG_WRITEMODE_def KSIGNAL_FLAG_USER_def flag_bits flag_bits(2,4) [simplified])

lemma rw_lock_idle:
  "rw_idle l \<Longrightarrow> rw_lock l = Done (l\<lparr>rw_sig := (rw_sig l)\<lparr>s_locks := s_locks (rw_sig l) OR 1\<rparr>\<rparr>)"
  by (simp add: rw_lock_def rw_idle_def ksignal_lock_idle)

lemma locks_restored: "rw_idle l \<Longrightarrow> (s_locks (rw_sig l) OR 1) AND - 2 = s_locks (rw_sig l)"
  by (simp add: rw_idle_def sig_idle_def ksignal_islocked_def mask_bit0_set_clear)

lemmas rw_exec = rw_lock_idle locks_restored rw_unlock_def ksignal_unlock_c_def rw_wait_def
  ksignal_recv_andunlock_c_def ksignal_isdead_unlocked_def
  krwlock_iswritelocked_def rw_dead_def krwlock_addreader_def krwlock_delreader_def
  krwlock_setwriter_def krwlock_delwriter_def rw_queue_def

lemma beginread_idle:
  assumes "rw_idle l"
  shows "krwlock_beginread self [] l =
    (if krwlock_iswritelocked l then if rw_dead l then Done (KE_DESTROYED, l) else Blocked
     else Done (KE_OK, l\<lparr>rw_readc := rw_readc l + 1\<rparr>))"
  using assms by (subst krwlock_beginread.simps) (simp add: rw_exec)

lemma beginwrite_idle:
  assumes "rw_idle l"
  shows "krwlock_beginwrite self [] l =
    (if krwlock_iswritelocked l \<or> rw_readc l \<noteq> 0 then if rw_dead l then Done (KE_DESTROYED, l) else Blocked
     else Done (KE_OK, krwlock_setwriter l))"
  using assms by (subst krwlock_beginwrite.simps) (simp add: rw_exec)

lemma try_idle:
  assumes "rw_idle l"
  shows "krwlock_trybeginread l = Done (if krwlock_iswritelocked l then (if rw_dead l then KE_DESTROYED else KE_WOULDBLOCK, l)
      else (KE_OK, l\<lparr>rw_readc := rw_readc l + 1\<rparr>))"
    "krwlock_trybeginwrite l = Done (if krwlock_iswritelocked l \<or> rw_readc l \<noteq> 0
      then (if rw_dead l then KE_DESTROYED else KE_WOULDBLOCK, l) else (KE_OK, krwlock_setwriter l))"
    "krwlock_tryupgrade l = Done (if rw_readc l = 1 then (KE_OK, krwlock_setwriter (l\<lparr>rw_readc := 0\<rparr>)) else (KE_WOULDBLOCK, l))"
    "upgrade_claim l = Done (if rw_dead l then (KE_DESTROYED, l)
      else if rw_readc l = 0 \<and> \<not> krwlock_iswritelocked l then (KS_BLOCKING, krwlock_setwriter l) else (KE_WOULDBLOCK, l))"
  using assms by (simp_all add: krwlock_trybeginread_def krwlock_trybeginwrite_def krwlock_tryupgrade_def
      upgrade_claim_def rw_exec)

lemma rw_wakeall_idle:
  assumes "rw_idle l"
  shows "\<exists>e w. rw_wakeall resched (l\<lparr>rw_sig := (rw_sig l)\<lparr>s_locks := s_locks (rw_sig l) OR 1\<rparr>\<rparr>) = Done (e, rw_queue w l)"
  using assms sendall_loop_idle [of "rw_sig l" resched 0]
  by (auto simp: rw_wakeall_def ksignal_sendall_andunlock_c_def ksignal_unlock_c_def locks_restored rw_idle_def rw_queue_def
      sig_idle_def ksignal_islocked_def mask_bit0_set_clear)

lemma rw_wakeall_idle_readc:
  assumes "rw_idle l"
  shows "\<exists>e w. rw_wakeall resched (l\<lparr>rw_sig := (rw_sig l)\<lparr>s_locks := s_locks (rw_sig l) OR 1\<rparr>, rw_readc := c\<rparr>)
    = Done (e, rw_queue w (l\<lparr>rw_readc := c\<rparr>))"
proof -
  have swap: "l\<lparr>rw_sig := t, rw_readc := c\<rparr> = l\<lparr>rw_readc := c, rw_sig := t\<rparr>" for t by simp
  show ?thesis unfolding swap using assms rw_wakeall_idle [of "l\<lparr>rw_readc := c\<rparr>" resched] by simp
qed

lemma rw_wakeone_idle:
  assumes "rw_idle l"
  shows "\<exists>e w. rw_wakeone resched ((rw_sig l)\<lparr>s_locks := s_locks (rw_sig l) OR 1\<rparr>) = Done (e, rw_sig (rw_queue w l))"
proof -
  let ?s = "(rw_sig l)\<lparr>s_wake := tl (s_wake (rw_sig l))\<rparr>"
  have "\<exists>e w. kmutex_unlock_loop resched ?s = Done (e, ?s\<lparr>s_wake := w\<rparr>)"
    using assms kmutex_unlock_loop_idle [of ?s resched] by (auto simp: rw_idle_def)
  moreover have "ksignal_sendone_andunlock_c resched ((rw_sig l)\<lparr>s_locks := s_locks (rw_sig l) OR 1\<rparr>)
      = (if s_wake (rw_sig l) = [] then KS_EMPTY else resched (hd (s_wake (rw_sig l))), ?s)"
    using assms by (auto simp: ksignal_sendone_andunlock_c_def ksignal_popone_andunlock_c_def ksignal_unlock_c_def
        locks_restored split: list.splits)
  ultimately show ?thesis by (auto simp: rw_wakeone_def rw_queue_def)
qed

lemma rw_queue_same [simp]: "rw_queue (s_wake (rw_sig l)) l = l"
  "s_wake (rw_sig l) = w \<Longrightarrow> rw_queue w (l\<lparr>rw_readc := c\<rparr>) = l\<lparr>rw_readc := c\<rparr>"
  by (auto simp: rw_queue_def)

lemma rw_unlock_back:
  assumes "rw_idle l"
  shows "rw_unlock (l\<lparr>rw_sig := (rw_sig l)\<lparr>s_locks := s_locks (rw_sig l) OR 1\<rparr>, rw_readc := c\<rparr>) = l\<lparr>rw_readc := c\<rparr>"
  using assms by (simp add: rw_unlock_def ksignal_unlock_c_def locks_restored)

lemma endread_idle:
  assumes "rw_idle l"
  shows "\<exists>e w. krwlock_endread resched l = Done (e, rw_queue w (l\<lparr>rw_readc := rw_readc l - 1\<rparr>))"
proof (cases "rw_readc l = 1")
  case True
  obtain e w where "rw_wakeone resched ((rw_sig l)\<lparr>s_locks := s_locks (rw_sig l) OR 1\<rparr>) = Done (e, rw_sig (rw_queue w l))"
    using rw_wakeone_idle [OF assms] by blast
  then show ?thesis
    using assms True by (auto simp: krwlock_endread_def rw_lock_idle krwlock_delreader_def rw_queue_def)
next
  case False
  then have "krwlock_endread resched l = Done (KS_UNCHANGED, l\<lparr>rw_readc := rw_readc l - 1\<rparr>)"
    using assms by (simp add: krwlock_endread_def rw_lock_idle krwlock_delreader_def rw_unlock_back)
  then show ?thesis by (intro exI [of _ KS_UNCHANGED] exI [of _ "s_wake (rw_sig l)"]) simp
qed

lemma set_locks_commute:
  "krwlock_delwriter (l\<lparr>rw_sig := (rw_sig l)\<lparr>s_locks := x\<rparr>\<rparr>)
    = (krwlock_delwriter l)\<lparr>rw_sig := (rw_sig (krwlock_delwriter l))\<lparr>s_locks := x\<rparr>\<rparr>"
  by (simp add: krwlock_delwriter_def)

lemma writer_fields [simp]:
  "s_locks (rw_sig (krwlock_delwriter l)) = s_locks (rw_sig l)"
  "krwlock_iswritelocked (l\<lparr>rw_sig := (rw_sig l)\<lparr>s_locks := x\<rparr>\<rparr>) = krwlock_iswritelocked l"
  by (simp_all add: krwlock_delwriter_def krwlock_iswritelocked_def)

lemma endwrite_idle:
  assumes "rw_idle l"
  shows "\<exists>e w. krwlock_endwrite resched l = Done (e, rw_queue w (krwlock_delwriter l))"
  using assms rw_wakeall_idle [of "krwlock_delwriter l" resched]
  by (simp add: krwlock_endwrite_def rw_lock_idle set_locks_commute)

lemma downgrade_idle:
  assumes "rw_idle l"
  shows "\<exists>e w. krwlock_downgrade resched l = Done (e, rw_queue w ((krwlock_delwriter l)\<lparr>rw_readc := 1\<rparr>))"
  using assms rw_wakeall_idle_readc [of "krwlock_delwriter l" resched 1]
  by (simp add: krwlock_downgrade_def rw_lock_idle set_locks_commute)

lemma end_idle:
  assumes "rw_idle l"
  shows "\<exists>e w. krwlock_end resched l =
    Done (e, rw_queue w (if krwlock_iswritelocked l then krwlock_delwriter l else l\<lparr>rw_readc := rw_readc l - 1\<rparr>))"
proof (cases "krwlock_iswritelocked l \<or> rw_readc l = 1")
  case True
  then show ?thesis
    using assms rw_wakeall_idle [of "krwlock_delwriter l" resched] rw_wakeall_idle_readc [of l resched 0]
    by (auto simp: krwlock_end_def rw_lock_idle set_locks_commute krwlock_delreader_def)
next
  case False
  then have "krwlock_end resched l = Done (KS_UNCHANGED, l\<lparr>rw_readc := rw_readc l - 1\<rparr>)"
    using assms by (simp add: krwlock_end_def rw_lock_idle krwlock_delreader_def rw_unlock_back)
  then show ?thesis
    using False by (intro exI [of _ KS_UNCHANGED] exI [of _ "s_wake (rw_sig l)"]) simp
qed

lemma ksignal_close_idle:
  assumes "sig_idle s" and "s_flags s AND 1 = 0"
  shows "\<exists>e w. ksignal_close resched s (\<lambda>s. s) = Done (e, s\<lparr>s_flags := s_flags s OR 1, s_wake := w\<rparr>)"
  using assms sendall_loop_idle [of "s\<lparr>s_flags := s_flags s OR 1\<rparr>" resched 0]
  by (auto simp: ksignal_close_def ksignal_lock_idle ksignal_closeex_andunlock_c_def ksignal_sendall_andunlock_c_def
      ksignal_unlock_c_def sig_idle_def ksignal_islocked_def mask_bit0_set_clear)

text \<open>A closed lock is in write mode, without a writer.\<close>

lemma close_idle:
  assumes "rw_idle l" and "krwlock_close resched self [] l = Done (KE_OK, l')" and "rw_dead l \<longrightarrow> krwlock_iswritelocked l"
  shows "rw_idle l' \<and> krwlock_iswritelocked l' \<and> rw_dead l' \<and> rw_readc l' = 0 \<and> rw_readc l = 0 \<and> \<not> krwlock_iswritelocked l"
proof -
  let ?l = "krwlock_setwriter l"
  have free: "\<not> krwlock_iswritelocked l" "rw_readc l = 0"
    using assms(2) by (auto simp: krwlock_close_def rw_close_with_def beginwrite_idle [OF assms(1)] split: if_splits)
  have idle: "sig_idle (rw_sig ?l)" using assms(1) by (simp flip: rw_idle_def)
  have alive: "s_flags (rw_sig ?l) AND 1 = 0"
    using assms(3) free(1) rw_flags(3) [of l] by (auto simp: rw_dead_def simp del: rw_flags(3))
  obtain e w where cl: "ksignal_close resched (rw_sig ?l) (\<lambda>s. s)
      = Done (e, (rw_sig ?l)\<lparr>s_flags := s_flags (rw_sig ?l) OR 1, s_wake := w\<rparr>)"
    using ksignal_close_idle [OF idle alive] by blast
  have l': "l' = ?l\<lparr>rw_sig := (rw_sig ?l)\<lparr>s_flags := s_flags (rw_sig ?l) OR 1, s_wake := w\<rparr>\<rparr>"
    using assms(2) free cl by (simp add: krwlock_close_def rw_close_with_def beginwrite_idle [OF assms(1)])
  have "krwlock_iswritelocked ?l" by simp
  then show ?thesis
    unfolding l' using idle free flag_bits
    by (simp add: rw_idle_def rw_dead_def krwlock_iswritelocked_def KRWLOCK_FLAG_WRITEMODE_def KSIGNAL_FLAG_USER_def)
qed

section \<open>Several tasks\<close>

text \<open>What a task holds: nothing, a read ticket, the lock, or (while it sleeps in an upgrade) nothing
  any more but the intention to take the lock.\<close>

datatype rwpc = R_None | R_Read | R_Write | R_Upgrade

text \<open>An upgrade with other readers gives up the ticket and queues the task.\<close>

definition upgrade_release :: "task \<Rightarrow> krwlock \<Rightarrow> (kerrno option \<times> krwlock) outcome" where
  "upgrade_release self l = andthen (rw_lock l) (\<lambda>l.
     case ksignal_recv_andunlock_c self (rw_sig (krwlock_delreader l)) of
       (r, s) \<Rightarrow> Done (r, (krwlock_delreader l)\<lparr>rw_sig := s\<rparr>))"

inductive rw_step :: "(task \<Rightarrow> kerrno) \<Rightarrow> krwlock \<times> rwpc list \<Rightarrow> krwlock \<times> rwpc list \<Rightarrow> bool" for resched where
  beginread: "i < length pc \<Longrightarrow> pc ! i = R_None \<Longrightarrow> krwlock_beginread t [] l = Done (KE_OK, l')
    \<Longrightarrow> rw_step resched (l, pc) (l', pc[i := R_Read])"
| beginwrite: "i < length pc \<Longrightarrow> pc ! i = R_None \<Longrightarrow> krwlock_beginwrite t [] l = Done (KE_OK, l')
    \<Longrightarrow> rw_step resched (l, pc) (l', pc[i := R_Write])"
| endread: "i < length pc \<Longrightarrow> pc ! i = R_Read \<Longrightarrow> krwlock_endread resched l = Done (e, l')
    \<Longrightarrow> rw_step resched (l, pc) (l', pc[i := R_None])"
| endwrite: "i < length pc \<Longrightarrow> pc ! i = R_Write \<Longrightarrow> krwlock_endwrite resched l = Done (e, l')
    \<Longrightarrow> rw_step resched (l, pc) (l', pc[i := R_None])"
| endany: "i < length pc \<Longrightarrow> pc ! i \<in> {R_Read, R_Write} \<Longrightarrow> krwlock_end resched l = Done (e, l')
    \<Longrightarrow> rw_step resched (l, pc) (l', pc[i := R_None])"
| downgrade: "i < length pc \<Longrightarrow> pc ! i = R_Write \<Longrightarrow> krwlock_downgrade resched l = Done (e, l')
    \<Longrightarrow> rw_step resched (l, pc) (l', pc[i := R_Read])"
| tryupgrade: "i < length pc \<Longrightarrow> pc ! i = R_Read \<Longrightarrow> krwlock_tryupgrade l = Done (e, l')
    \<Longrightarrow> rw_step resched (l, pc) (l', pc[i := if KE_ISOK e then R_Write else R_Read])"
| upgrade: "i < length pc \<Longrightarrow> pc ! i = R_Read \<Longrightarrow> krwlock_atomic_upgrade t [] l = Done (KE_OK, l')
    \<Longrightarrow> rw_step resched (l, pc) (l', pc[i := R_Write])"
| upgrade_wait: "i < length pc \<Longrightarrow> pc ! i = R_Read \<Longrightarrow> rw_readc l \<noteq> 1 \<Longrightarrow> upgrade_release t l = Done (r, l')
    \<Longrightarrow> rw_step resched (l, pc) (l', pc[i := R_Upgrade])"
| upgrade_claim: "i < length pc \<Longrightarrow> pc ! i = R_Upgrade \<Longrightarrow> upgrade_claim l = Done (e, l')
    \<Longrightarrow> rw_step resched (l, pc) (l', pc[i := if KE_ISOK e then R_Write else R_None])"
| close: "krwlock_close resched t [] l = Done (KE_OK, l') \<Longrightarrow> rw_step resched (l, pc) (l', pc)"
| queue: "rw_step resched (l, pc) (rw_queue w l, pc)"

inductive rw_reachable :: "(task \<Rightarrow> kerrno) \<Rightarrow> nat \<Rightarrow> krwlock \<times> rwpc list \<Rightarrow> bool" for resched n where
  start: "rw_reachable resched n (krwlock_init, replicate n R_None)"
| step: "rw_reachable resched n s \<Longrightarrow> rw_step resched s s' \<Longrightarrow> rw_reachable resched n s'"

abbreviation readers :: "rwpc list \<Rightarrow> nat" where "readers pc \<equiv> count_if (\<lambda>p. p = R_Read) pc"
abbreviation writers :: "rwpc list \<Rightarrow> nat" where "writers pc \<equiv> count_if (\<lambda>p. p = R_Write) pc"

definition rw_inv :: "nat \<Rightarrow> krwlock \<Rightarrow> rwpc list \<Rightarrow> bool" where
  "rw_inv n l pc \<longleftrightarrow> length pc = n \<and> rw_idle l \<and> unat (rw_readc l) = readers pc
     \<and> writers pc + (if rw_dead l then 1 else 0) = (if krwlock_iswritelocked l then 1 else 0)
     \<and> (krwlock_iswritelocked l \<longrightarrow> readers pc = 0)"

lemma unat_pred: "0 < unat (w :: 'a :: len word) \<Longrightarrow> unat (w - 1) = unat w - 1"
  by (metis less_numeral_extra(3) unat_0 unat_minus_one)

lemma unat_succ_bound:
  assumes "Suc (unat (w :: u32)) \<le> n" and "n < 2 ^ 32"
  shows "unat (w + 1) = Suc (unat w)"
  by (rule unat_word_Suc) (use assms in \<open>auto simp: unsigned_minus_1_eq_mask mask_eq_exp_minus_1\<close>)

text \<open>How the invariant is re-established, by what happens to the lock and to the task \<open>i\<close>.\<close>

lemma rw_inv_readers:
  assumes "rw_inv n l pc" and "i < length pc" and "\<not> krwlock_iswritelocked l" and "n < 2 ^ 32"
  shows "pc ! i = R_None \<Longrightarrow> rw_inv n (l\<lparr>rw_readc := rw_readc l + 1\<rparr>) (pc[i := R_Read])"
    and "pc ! i = R_Read \<Longrightarrow> p \<in> {R_None, R_Upgrade} \<Longrightarrow> rw_inv n (l\<lparr>rw_readc := rw_readc l - 1\<rparr>) (pc[i := p])"
proof -
  note cnt = count_if_list_update [OF assms(2), of "\<lambda>p. p = R_Read"] count_if_list_update [OF assms(2), of "\<lambda>p. p = R_Write"]
  show "rw_inv n (l\<lparr>rw_readc := rw_readc l + 1\<rparr>) (pc[i := R_Read])" if "pc ! i = R_None"
  proof -
    have "Suc (readers pc) \<le> n"
      using cnt(1) [of R_Read] that count_if_le_length [of "\<lambda>p. p = R_Read" "pc[i := R_Read]"] assms(1) by (simp add: rw_inv_def)
    then have "unat (rw_readc l + 1) = Suc (readers pc)"
      using assms(1,4) unat_succ_bound [of "rw_readc l" n] by (simp add: rw_inv_def)
    then show ?thesis using assms(1,3) cnt [of R_Read] that by (simp add: rw_inv_def)
  qed
  show "rw_inv n (l\<lparr>rw_readc := rw_readc l - 1\<rparr>) (pc[i := p])" if "pc ! i = R_Read" "p \<in> {R_None, R_Upgrade}"
  proof -
    have "0 < readers pc" using cnt(1) [of p] that by auto
    then have "unat (rw_readc l - 1) = readers pc - 1"
      using assms(1) unat_pred [of "rw_readc l"] by (simp add: rw_inv_def)
    then show ?thesis using assms(1,3) cnt [of p] that by (auto simp: rw_inv_def)
  qed
qed

lemma rw_inv_writers:
  assumes "rw_inv n l pc" and "i < length pc"
  shows "pc ! i \<in> {R_None, R_Upgrade} \<Longrightarrow> \<not> krwlock_iswritelocked l \<Longrightarrow> rw_readc l = 0
      \<Longrightarrow> rw_inv n (krwlock_setwriter l) (pc[i := R_Write])"
    and "pc ! i = R_Write \<Longrightarrow> rw_inv n (krwlock_delwriter l) (pc[i := R_None])"
    and "pc ! i = R_Write \<Longrightarrow> rw_inv n ((krwlock_delwriter l)\<lparr>rw_readc := 1\<rparr>) (pc[i := R_Read])"
    and "pc ! i = R_Read \<Longrightarrow> rw_readc l = 1 \<Longrightarrow> rw_inv n (krwlock_setwriter (l\<lparr>rw_readc := 0\<rparr>)) (pc[i := R_Write])"
    and "pc ! i = R_Upgrade \<Longrightarrow> rw_inv n l (pc[i := R_None])"
  using assms count_if_list_update [OF assms(2), of "\<lambda>p. p = R_Read"] count_if_list_update [OF assms(2), of "\<lambda>p. p = R_Write"]
    count_if_pos [OF assms(2), of "\<lambda>p. p = R_Write"]
  by (auto simp: rw_inv_def split: if_splits)

lemma rw_inv_queue: "rw_inv n l pc \<Longrightarrow> rw_inv n (rw_queue w l) pc"
  by (simp add: rw_inv_def)

lemma holding_mode:
  assumes "rw_inv n l pc" and "i < length pc"
  shows "pc ! i = R_Read \<Longrightarrow> \<not> krwlock_iswritelocked l" and "pc ! i = R_Write \<Longrightarrow> krwlock_iswritelocked l"
  using assms count_if_list_update [OF assms(2), of "\<lambda>p. p = R_Read" R_None]
    count_if_list_update [OF assms(2), of "\<lambda>p. p = R_Write" R_None]
  by (auto simp: rw_inv_def split: if_splits)

lemma rw_step_inv:
  assumes "rw_step resched s s'" and "rw_inv n (fst s) (snd s)" and "n < 2 ^ 32"
  shows "rw_inv n (fst s') (snd s')"
  using assms(1)
proof cases
  case (beginread i pc t l l')
  then show ?thesis
    using assms(2,3) rw_inv_readers(1) [of n l pc i] by (auto simp: rw_inv_def beginread_idle split: if_splits)
next
  case (beginwrite i pc t l l')
  then show ?thesis
    using assms(2) rw_inv_writers(1) [of n l pc i] by (auto simp: rw_inv_def beginwrite_idle split: if_splits)
next
  case (endread i pc l e l')
  then show ?thesis
    using assms(2,3) endread_idle [of l resched] rw_inv_readers(2) [of n l pc i R_None] holding_mode [of n l pc i]
    by (auto simp: rw_inv_queue) (auto simp: rw_inv_def)
next
  case (endwrite i pc l e l')
  then show ?thesis
    using assms(2) endwrite_idle [of l resched] rw_inv_writers(2) [of n l pc i]
    by (auto simp: rw_inv_queue) (auto simp: rw_inv_def)
next
  case (endany i pc l e l')
  then show ?thesis
    using assms(2,3) end_idle [of l resched] rw_inv_writers(2) [of n l pc i] rw_inv_readers(2) [of n l pc i R_None]
      holding_mode [of n l pc i]
    by (auto simp: rw_inv_queue) (auto simp: rw_inv_def)
next
  case (downgrade i pc l e l')
  then show ?thesis
    using assms(2) downgrade_idle [of l resched] rw_inv_writers(3) [of n l pc i]
    by (auto simp: rw_inv_queue) (auto simp: rw_inv_def)
next
  case (tryupgrade i pc l e l')
  have "pc[i := R_Read] = pc" using tryupgrade(4) by (metis list_update_id)
  then show ?thesis
    using tryupgrade assms(2) rw_inv_writers(4) [of n l pc i] by (auto simp: rw_inv_def try_idle split: if_splits)
next
  case (upgrade i pc t l l')
  then show ?thesis
    using assms(2) rw_inv_writers(4) [of n l pc i]
    by (auto simp: krwlock_atomic_upgrade_def upgrade_then_def rw_inv_def rw_exec split: if_splits)
next
  case (upgrade_wait i pc l t r l')
  have "rw_idle l" using upgrade_wait(1) assms(2) by (simp add: rw_inv_def)
  then have "\<exists>w. l' = rw_queue w (l\<lparr>rw_readc := rw_readc l - 1\<rparr>)"
    using upgrade_wait(6)
    by (intro exI [of _ "if rw_dead l then s_wake (rw_sig l) else s_wake (rw_sig l) @ [t]"])
      (auto simp: upgrade_release_def rw_exec split: if_splits)
  then show ?thesis
    using upgrade_wait(1-4) assms(2,3) rw_inv_readers(2) [of n l pc i R_Upgrade] holding_mode [of n l pc i]
    by (auto simp: rw_inv_queue)
next
  case (upgrade_claim i pc l e l')
  then show ?thesis
    using assms(2) rw_inv_writers(1,5) [of n l pc i] by (auto simp: rw_inv_def try_idle split: if_splits)
next
  case (close t l l' pc)
  then show ?thesis
    using assms(2) close_idle [of l resched t l'] by (auto simp: rw_inv_def split: if_splits)
next
  case (queue l pc w)
  then show ?thesis using assms(2) by (simp add: rw_inv_queue)
qed

lemma rw_reachable_inv:
  assumes "rw_reachable resched n s" and "n < 2 ^ 32"
  shows "rw_inv n (fst s) (snd s)"
  using assms(1)
proof induction
  case start
  show ?case
    by (simp add: rw_inv_def krwlock_init_def rw_idle_def signal_exec sig_idle_def rw_dead_def krwlock_iswritelocked_def)
next
  case (step s s')
  then show ?case using rw_step_inv assms(2) by blast
qed

text \<open>
  C10. Readers and writers exclude each other in every interleaving of taking, dropping, upgrading,
  downgrading and closing the lock by fewer than \<open>2\<^sup>3\<^sup>2\<close> tasks: while a task holds the lock for writing no
  other task holds it at all, the reader count is the number of tasks that hold a read ticket, and
  once the lock is closed nobody holds it or can take it any more.
\<close>

theorem krwlock_exclusion:
  assumes "rw_reachable resched n (l, pc)" and "n < 2 ^ 32"
  shows "(\<forall>i j. i < n \<longrightarrow> j < n \<longrightarrow> i \<noteq> j \<longrightarrow> pc ! i = R_Write \<longrightarrow> pc ! j \<notin> {R_Read, R_Write})
    \<and> unat (rw_readc l) = readers pc
    \<and> (rw_dead l \<longrightarrow> (\<forall>i < n. pc ! i \<notin> {R_Read, R_Write})
        \<and> krwlock_beginread t [] l = Done (KE_DESTROYED, l) \<and> krwlock_beginwrite t [] l = Done (KE_DESTROYED, l))"
proof -
  have inv: "rw_inv n l pc" using rw_reachable_inv [OF assms] by simp
  have len: "length pc = n" using inv by (simp add: rw_inv_def)
  have "pc ! j \<notin> {R_Read, R_Write}" if "i < n" "j < n" "i \<noteq> j" "pc ! i = R_Write" for i j
  proof -
    have "\<not> pc ! j = R_Read" using holding_mode [OF inv] len that by blast
    moreover have "writers (pc[i := R_None]) = 0"
      using inv count_if_list_update [of i pc "\<lambda>p. p = R_Write" R_None] len that by (auto simp: rw_inv_def split: if_splits)
    then have "\<not> pc ! j = R_Write"
      using count_if_pos [of j "pc[i := R_None]" "\<lambda>p. p = R_Write"] len that by auto
    ultimately show ?thesis by simp
  qed
  moreover have "pc ! i \<notin> {R_Read, R_Write}" if "rw_dead l" "i < n" for i
    using inv that len count_if_pos [of i pc "\<lambda>p. p = R_Write"] holding_mode [OF inv, of i]
    by (auto simp: rw_inv_def split: if_splits)
  ultimately show ?thesis
    using inv by (auto simp: rw_inv_def beginread_idle beginwrite_idle split: if_splits)
qed

lemma rw_reachable_example: "rw_reachable (\<lambda>t. KE_OK) 2 (krwlock_setwriter krwlock_init, [R_Write, R_None])"
proof -
  have init: "rw_idle krwlock_init" "\<not> krwlock_iswritelocked krwlock_init" "rw_readc krwlock_init = 0"
    by (simp_all add: krwlock_init_def rw_idle_def signal_exec sig_idle_def krwlock_iswritelocked_def)
  have two: "replicate 2 R_None = [R_None, R_None]" by (simp add: numeral_2_eq_2)
  have "rw_reachable (\<lambda>t. KE_OK) 2 (krwlock_init, [R_None, R_None])"
    using rw_reachable.start [of "\<lambda>t. KE_OK" 2] by (simp only: two)
  moreover have "rw_step (\<lambda>t. KE_OK) (krwlock_init, [R_None, R_None]) (krwlock_setwriter krwlock_init, [R_None, R_None][0 := R_Write])"
    by (rule rw_step.beginwrite [where t = 1]) (simp_all add: beginwrite_idle init)
  ultimately show ?thesis using rw_reachable.step by fastforce
qed

theorem krwlock_exclusion_witness:
  "rw_reachable (\<lambda>t. KE_OK) 2 (krwlock_setwriter krwlock_init, [R_Write, R_None])
    \<and> [R_Write, R_None] ! 1 \<notin> {R_Read, R_Write} \<and> unat (rw_readc (krwlock_setwriter krwlock_init)) = 0"
  using rw_reachable_example krwlock_exclusion [OF rw_reachable_example] by simp

text \<open>
  \<open>krwlock_reset\<close> does not make a closed lock usable again: closing leaves the lock in write mode, and
  resetting only clears the dead flag, so after a successful reset every attempt to read or to write
  sleeps on a lock that nobody holds.
\<close>

theorem krwlock_reset_stuck:
  assumes "rw_idle l" and "\<not> rw_dead l" and "krwlock_close resched t [] l = Done (KE_OK, l1)"
  shows "\<exists>l2. krwlock_reset l1 = Done (KE_OK, l2) \<and> rw_readc l2 = 0
    \<and> krwlock_beginread u [] l2 = Blocked \<and> krwlock_beginwrite u [] l2 = Blocked"
proof -
  have l1: "rw_idle l1" "krwlock_iswritelocked l1" "rw_dead l1" "rw_readc l1 = 0"
    using close_idle [OF assms(1,3)] assms(2) by auto
  let ?l2 = "l1\<lparr>rw_sig := (rw_sig l1)\<lparr>s_flags := s_flags (rw_sig l1) AND NOT KSIGNAL_FLAG_DEAD\<rparr>\<rparr>"
  have "krwlock_reset l1 = Done (KE_OK, ?l2)"
    using l1 by (simp add: krwlock_reset_def rw_lock_idle rw_dead_def rw_unlock_def ksignal_unlock_c_def locks_restored)
  moreover have "rw_idle ?l2" "krwlock_iswritelocked ?l2" "\<not> rw_dead ?l2" "rw_readc ?l2 = 0"
    using l1 flag_bits by (simp_all add: rw_idle_def krwlock_iswritelocked_def rw_dead_def KRWLOCK_FLAG_WRITEMODE_def
        KSIGNAL_FLAG_USER_def)
  ultimately show ?thesis by (auto simp: beginread_idle beginwrite_idle)
qed

lemma close_free:
  assumes "rw_idle l" and "\<not> rw_dead l" and "\<not> krwlock_iswritelocked l" and "rw_readc l = 0"
  shows "\<exists>l'. krwlock_close resched self [] l = Done (KE_OK, l')"
proof -
  let ?s = "rw_sig (krwlock_setwriter l)"
  have "sig_idle ?s" using assms(1) by (simp flip: rw_idle_def)
  moreover have "s_flags ?s AND 1 = 0" using assms(2) rw_flags(3) [of l] by (simp add: rw_dead_def del: rw_flags(3))
  ultimately show ?thesis
    using assms ksignal_close_idle [of ?s resched] by (auto simp: krwlock_close_def rw_close_with_def beginwrite_idle)
qed

theorem krwlock_reset_stuck_witness:
  "\<exists>l1 l2. krwlock_close (\<lambda>t. KE_OK) 1 [] krwlock_init = Done (KE_OK, l1) \<and> krwlock_reset l1 = Done (KE_OK, l2)
    \<and> krwlock_beginread 2 [] l2 = Blocked \<and> krwlock_beginwrite 2 [] l2 = Blocked"
proof -
  have init: "rw_idle krwlock_init" "\<not> rw_dead krwlock_init" "\<not> krwlock_iswritelocked krwlock_init" "rw_readc krwlock_init = 0"
    by (simp_all add: krwlock_init_def rw_idle_def signal_exec sig_idle_def krwlock_iswritelocked_def rw_dead_def)
  obtain l1 where l1: "krwlock_close (\<lambda>t. KE_OK) 1 [] krwlock_init = Done (KE_OK, l1)"
    using close_free [OF init] by blast
  with krwlock_reset_stuck [OF init(1,2) l1] show ?thesis by blast
qed

section \<open>The lock as a guard\<close>

text \<open>
  What the owner of a resource relies on when it guards the resource with a lock: entering a free lock
  succeeds at once, and leaving it makes it free again. Then a guarded change of the resource is the
  change itself.
\<close>

locale guard =
  fixes free :: "'l \<Rightarrow> bool"
    and enter :: "'l \<Rightarrow> (kerrno \<times> 'l) outcome"
    and leave :: "'l \<Rightarrow> (kerrno \<times> 'l) outcome"
  assumes enter_leave: "free l \<Longrightarrow> \<exists>l' e l''. enter l = Done (KE_OK, l') \<and> leave l' = Done (e, l'') \<and> free l''"
begin

lemma guarded:
  assumes "free l"
  shows "\<exists>l'. free l' \<and> andthen (enter l) (\<lambda>(e, m). if KE_ISERR e then fail e m else andthen (leave m) (\<lambda>(e, m). Done (k m)))
    = Done (k l')"
  using enter_leave [OF assms] by fastforce

end

definition rw_free :: "krwlock \<Rightarrow> bool" where
  "rw_free l \<longleftrightarrow> rw_idle l \<and> \<not> krwlock_iswritelocked l \<and> rw_readc l = 0 \<and> \<not> rw_dead l"

interpretation write_guard: guard rw_free "krwlock_beginwrite self []" "krwlock_endwrite resched" for self resched
proof
  fix l
  assume free: "rw_free l"
  have "rw_idle (krwlock_setwriter l)" using free by (simp add: rw_free_def)
  from endwrite_idle [OF this, of resched] free
  show "\<exists>l' e l''. krwlock_beginwrite self [] l = Done (KE_OK, l') \<and> krwlock_endwrite resched l' = Done (e, l'') \<and> rw_free l''"
    by (auto simp: rw_free_def beginwrite_idle)
qed

interpretation read_guard: guard rw_free "krwlock_beginread self []" "krwlock_endread resched" for self resched
proof
  fix l
  assume free: "rw_free l"
  have "rw_idle (l\<lparr>rw_readc := rw_readc l + 1\<rparr>)" using free by (simp add: rw_free_def)
  from endread_idle [OF this, of resched] free
  show "\<exists>l' e l''. krwlock_beginread self [] l = Done (KE_OK, l') \<and> krwlock_endread resched l' = Done (e, l'') \<and> rw_free l''"
    by (auto simp: rw_free_def beginread_idle)
qed

text \<open>A lock with one reader and nobody else: what a reader of a free lock holds. It can be upgraded, and
  the writer can go back to reading.\<close>

definition one_reader :: "krwlock \<Rightarrow> bool" where
  "one_reader l \<longleftrightarrow> rw_idle l \<and> \<not> krwlock_iswritelocked l \<and> rw_readc l = 1 \<and> \<not> rw_dead l"

lemma beginread_free: "rw_free l \<Longrightarrow> \<exists>l'. krwlock_beginread self [] l = Done (KE_OK, l') \<and> one_reader l'"
  by (simp add: rw_free_def one_reader_def beginread_idle)

lemma endread_one: "one_reader l \<Longrightarrow> \<exists>e l'. krwlock_endread resched l = Done (e, l') \<and> rw_free l'"
  using endread_idle [of l resched] by (auto simp: rw_free_def one_reader_def)

lemma upgrade_one:
  assumes "one_reader l"
  shows "\<exists>l'. krwlock_upgrade self [] l = Done (KE_OK, l') \<and> (\<exists>e l''. krwlock_endwrite resched l' = Done (e, l'') \<and> rw_free l'')
    \<and> (\<exists>e l''. krwlock_downgrade resched l' = Done (e, l'') \<and> one_reader l'')"
proof -
  let ?l = "krwlock_setwriter (l\<lparr>rw_readc := 0\<rparr>)"
  have up: "krwlock_upgrade self [] l = Done (KE_OK, ?l)"
    using assms by (simp add: krwlock_upgrade_def krwlock_atomic_upgrade_def upgrade_then_def one_reader_def rw_exec)
  have idle: "rw_idle ?l" using assms by (simp add: one_reader_def)
  show ?thesis
    using assms up endwrite_idle [OF idle, of resched] downgrade_idle [OF idle, of resched]
    by (auto simp: rw_free_def one_reader_def)
qed

end
