(* ===== verification/IOBuf.thy ===== *)
theory IOBuf
  imports RwLock
begin

text \<open>
  I/O buffers, the cyclic byte buffers behind pipes and terminals: \<^verbatim>\<open>include/kos/kernel/iobuf.h\<close>,
  \<^verbatim>\<open>src/kernel/iobuf.c\<close>, \<^verbatim>\<open>iobuf-readimpl.c.inl\<close> and \<^verbatim>\<open>iobuf-writeimpl.c.inl\<close> (kernel memory variants).

  The allocated buffer is a list of bytes, its size is the length of the list, and the read and write
  pointers are offsets into it (all zero for a \<open>NULL\<close> buffer). What a call finds after it slept on
  \<open>ib_avail\<close> or \<open>ib_nfull\<close> comes from a script; between two sleeps a call runs on its own. The context
  holds the calling task, the answers of the scheduler, whether memory can be allocated, and what fresh
  memory contains.
\<close>

section \<open>State\<close>

record kiobuf =
  ib_avail :: ksignal
  ib_nfull :: ksignal
  ib_rwlock :: krwlock
  ib_maxsize :: nat
  ib_buffer :: "u8 list"
  ib_rpos :: nat
  ib_wpos :: nat

record kio =
  io_self :: task
  io_resched :: "task \<Rightarrow> kerrno"
  io_mem :: bool
  io_junk :: "nat \<Rightarrow> u8"

abbreviation KIOBUF_FLAG_INTR_BLOCKFIRST :: u16 where "KIOBUF_FLAG_INTR_BLOCKFIRST \<equiv> 1"
abbreviation KIO_BLOCKNONE :: u32 where "KIO_BLOCKNONE \<equiv> 0"
abbreviation KIO_BLOCKFIRST :: u32 where "KIO_BLOCKFIRST \<equiv> 1"
abbreviation KIO_BLOCKALL :: u32 where "KIO_BLOCKALL \<equiv> 3"
abbreviation KIO_PEEK :: u32 where "KIO_PEEK \<equiv> 0x10"

definition ib_size :: "kiobuf \<Rightarrow> nat" where
  "ib_size io = length (ib_buffer io)"

definition ib_flags :: "kiobuf \<Rightarrow> u16" where
  "ib_flags io = s_useru (ib_avail io)"

definition ib_flags_set :: "u16 \<Rightarrow> kiobuf \<Rightarrow> kiobuf" where
  "ib_flags_set f io = io\<lparr>ib_avail := (ib_avail io)\<lparr>s_useru := f\<rparr>\<rparr>"

definition kiobuf_maxread :: "kiobuf \<Rightarrow> nat \<Rightarrow> nat" where
  "kiobuf_maxread io rpos = (if rpos < ib_wpos io then ib_wpos io - rpos else ib_size io - (rpos - ib_wpos io))"

definition kiobuf_maxwrite :: "kiobuf \<Rightarrow> nat \<Rightarrow> nat" where
  "kiobuf_maxwrite io rpos = (if rpos \<ge> ib_wpos io then rpos - ib_wpos io else ib_size io - (ib_wpos io - rpos))"

definition kiobuf_init_ex :: "nat \<Rightarrow> kiobuf" where
  "kiobuf_init_ex maxsize = \<lparr>ib_avail = ksignal_init, ib_nfull = ksignal_init, ib_rwlock = krwlock_init,
     ib_maxsize = maxsize, ib_buffer = [], ib_rpos = 0, ib_wpos = 0\<rparr>"

definition kiobuf_init :: kiobuf where
  "kiobuf_init = kiobuf_init_ex (2 ^ 32 - 1)"

text \<open>\<open>realloc\<close>: the common part is kept, the rest is fresh memory.\<close>

definition resize :: "(nat \<Rightarrow> u8) \<Rightarrow> nat \<Rightarrow> u8 list \<Rightarrow> u8 list" where
  "resize junk n buf = take n buf @ map junk [length buf ..< n]"

text \<open>\<open>memcpy\<close> into the buffer.\<close>

definition blit :: "nat \<Rightarrow> u8 list \<Rightarrow> u8 list \<Rightarrow> u8 list" where
  "blit pos src buf = take pos buf @ src @ drop (pos + length src) buf"

section \<open>Operations under the lock\<close>

text \<open>The two brackets all operations are written in.\<close>

definition with_write :: "kio \<Rightarrow> kiobuf \<Rightarrow> (kerrno \<Rightarrow> 'a) \<Rightarrow> (kiobuf \<Rightarrow> ('a \<times> kiobuf) outcome) \<Rightarrow> ('a \<times> kiobuf) outcome" where
  "with_write k io failed body =
     andthen (krwlock_beginwrite (io_self k) [] (ib_rwlock io)) (\<lambda>(error, l).
       if KE_ISERR error then Done (failed error, io\<lparr>ib_rwlock := l\<rparr>)
       else andthen (body (io\<lparr>ib_rwlock := l\<rparr>)) (\<lambda>(r, io).
         andthen (krwlock_endwrite (io_resched k) (ib_rwlock io)) (\<lambda>(e, l). Done (r, io\<lparr>ib_rwlock := l\<rparr>))))"

definition with_read :: "kio \<Rightarrow> kiobuf \<Rightarrow> (kerrno \<Rightarrow> 'a) \<Rightarrow> (kiobuf \<Rightarrow> 'a) \<Rightarrow> ('a \<times> kiobuf) outcome" where
  "with_read k io failed f =
     andthen (krwlock_beginread (io_self k) [] (ib_rwlock io)) (\<lambda>(error, l).
       if KE_ISERR error then Done (failed error, io\<lparr>ib_rwlock := l\<rparr>)
       else andthen (krwlock_endread (io_resched k) l) (\<lambda>(e, l). Done (f io, io\<lparr>ib_rwlock := l\<rparr>)))"

definition kiobuf_close :: "kio \<Rightarrow> kiobuf \<Rightarrow> (kerrno \<times> kiobuf) outcome" where
  "kiobuf_close k io =
     andthen (krwlock_close (io_resched k) (io_self k) [] (ib_rwlock io)) (\<lambda>(error, l).
       let io = io\<lparr>ib_rwlock := l\<rparr> in
       if error \<noteq> KS_UNCHANGED then
         andthen (ksignal_close (io_resched k) (ib_avail io) (\<lambda>s. s)) (\<lambda>(e, avail).
         andthen (ksignal_close (io_resched k) (ib_nfull io) (\<lambda>s. s)) (\<lambda>(e, nfull).
           Done (error, io\<lparr>ib_avail := avail, ib_nfull := nfull, ib_buffer := [], ib_rpos := 0, ib_wpos := 0\<rparr>)))
       else Done (error, io))"

definition kiobuf_reset :: "kiobuf \<Rightarrow> (kerrno \<times> kiobuf) outcome" where
  "kiobuf_reset io =
     andthen (krwlock_reset (ib_rwlock io)) (\<lambda>(error, l).
       let io = io\<lparr>ib_rwlock := l\<rparr> in
       if error \<noteq> KS_UNCHANGED then
         andthen (ksignal_reset (ib_avail io) (\<lambda>s. s)) (\<lambda>(e, avail).
         andthen (ksignal_reset (ib_nfull io) (\<lambda>s. s)) (\<lambda>(e, nfull).
           Done (error, io\<lparr>ib_avail := avail, ib_nfull := nfull\<rparr>)))
       else Done (error, io))"

definition kiobuf_discard :: "kio \<Rightarrow> kiobuf \<Rightarrow> (nat \<times> kiobuf) outcome" where
  "kiobuf_discard k io = with_write k io (\<lambda>e. 0) (\<lambda>io.
     Done (kiobuf_maxread io (ib_rpos io), io\<lparr>ib_rpos := ib_size io, ib_wpos := 0\<rparr>))"

definition kiobuf_getmaxsize_c :: "kio \<Rightarrow> kiobuf \<Rightarrow> ((kerrno \<times> nat) \<times> kiobuf) outcome" where
  "kiobuf_getmaxsize_c k io = with_read k io (\<lambda>e. (e, 0)) (\<lambda>io. (KE_OK, ib_maxsize io))"

definition kiobuf_setmaxsize_c :: "kio \<Rightarrow> kiobuf \<Rightarrow> nat \<Rightarrow> ((kerrno \<times> nat) \<times> kiobuf) outcome" where
  "kiobuf_setmaxsize_c k io v = with_write k io (\<lambda>e. (e, 0)) (\<lambda>io.
     Done ((KE_OK, ib_maxsize io), io\<lparr>ib_maxsize := v\<rparr>))"

definition kiobuf_getrsize_c :: "kio \<Rightarrow> kiobuf \<Rightarrow> ((kerrno \<times> nat) \<times> kiobuf) outcome" where
  "kiobuf_getrsize_c k io = with_read k io (\<lambda>e. (e, 0)) (\<lambda>io. (KE_OK, kiobuf_maxread io (ib_rpos io)))"

definition kiobuf_getwsize_c :: "kio \<Rightarrow> kiobuf \<Rightarrow> ((kerrno \<times> nat) \<times> kiobuf) outcome" where
  "kiobuf_getwsize_c k io = with_read k io (\<lambda>e. (e, 0)) (\<lambda>io. (KE_OK, kiobuf_maxwrite io (ib_rpos io)))"

text \<open>
  \<open>__kiobuf_flush_c\<close>: the buffer is shrunk before the unread bytes are moved to its start; with a read
  offset above the new size the length of the move wraps around.
\<close>

definition kiobuf_flush_c :: "kio \<Rightarrow> kiobuf \<Rightarrow> (kerrno \<times> kiobuf) outcome" where
  "kiobuf_flush_c k io = with_write k io (\<lambda>e. e) (\<lambda>io.
     let newsize = kiobuf_maxread io (ib_rpos io) in
     if newsize \<noteq> ib_size io then
       if newsize = 0 then Done (KE_OK, io\<lparr>ib_buffer := [], ib_rpos := 0, ib_wpos := 0\<rparr>)
       else let rindex = ib_rpos io in
         if \<not> io_mem k then Done (KE_NOMEM, io)
         else if newsize < rindex then Fault
         else let newbuf = resize (io_junk k) newsize (ib_buffer io) in
           Done (KE_OK, io\<lparr>ib_buffer := blit 0 (take (newsize - rindex) (drop rindex newbuf)) newbuf,
             ib_rpos := 0, ib_wpos := newsize\<rparr>)
     else Done (KS_UNCHANGED, io))"

definition kiobuf_reserve_c :: "kio \<Rightarrow> kiobuf \<Rightarrow> nat \<Rightarrow> (nat \<times> kiobuf) outcome" where
  "kiobuf_reserve_c k io write_size = with_write k io (\<lambda>e. 0) (\<lambda>io.
     let new_total_size = min ((ib_size io + write_size) mod 2 ^ 32) (ib_maxsize io) in
     if new_total_size \<noteq> ib_size io then
       if \<not> io_mem k then Done (0, io)
       else Done (new_total_size - ib_size io, io\<lparr>ib_buffer := resize (io_junk k) new_total_size (ib_buffer io)\<rparr>)
     else Done (0, io))"

definition kiobuf_interrupt_c :: "kio \<Rightarrow> kiobuf \<Rightarrow> (kerrno \<times> kiobuf) outcome" where
  "kiobuf_interrupt_c k io = with_write k io (\<lambda>e. e) (\<lambda>io.
     let io = ib_flags_set (ib_flags io OR KIOBUF_FLAG_INTR_BLOCKFIRST) io in
     andthen (ksignal_sendall (io_resched k) (ib_avail io)) (\<lambda>(n, s).
       Done (if n \<noteq> 0 then KE_OK else KS_EMPTY, io\<lparr>ib_avail := s\<rparr>)))"

text \<open>
  \<open>__kiobuf_unread_c\<close> and \<open>__kiobuf_unwrite_c\<close>. A pointer that would be moved before the buffer is the
  outcome \<open>Fault\<close>; where the subtraction of the larger from the smaller number wraps, the pointer ends up
  behind the buffer. The first of the two returns without releasing the lock.
\<close>

definition unread_core :: "kiobuf \<Rightarrow> nat \<Rightarrow> (nat \<times> kiobuf) outcome" where
  "unread_core io max_unread =
     (let max_unread = min max_unread (kiobuf_maxwrite io (ib_rpos io)) in
      if max_unread = 0 then Done (0, io)
      else if ib_rpos io > ib_wpos io then Done (max_unread, io\<lparr>ib_rpos := ib_rpos io - max_unread\<rparr>)
      else let partsize = ib_rpos io in
        if partsize \<le> max_unread
        then (if partsize < max_unread then Fault else Done (max_unread, io\<lparr>ib_rpos := 0\<rparr>))
        else Done (max_unread, io\<lparr>ib_rpos := ib_size io + (partsize - max_unread)\<rparr>))"

definition kiobuf_unread_c :: "kio \<Rightarrow> kiobuf \<Rightarrow> nat \<Rightarrow> ((kerrno \<times> nat) \<times> kiobuf) outcome" where
  "kiobuf_unread_c k io max_unread =
     andthen (krwlock_beginwrite (io_self k) [] (ib_rwlock io)) (\<lambda>(error, l).
       if KE_ISERR error then Done ((error, 0), io\<lparr>ib_rwlock := l\<rparr>)
       else andthen (unread_core (io\<lparr>ib_rwlock := l\<rparr>) max_unread) (\<lambda>(n, io). Done ((error, n), io)))"

definition kiobuf_unwrite_c :: "kio \<Rightarrow> kiobuf \<Rightarrow> nat \<Rightarrow> ((kerrno \<times> nat) \<times> kiobuf) outcome" where
  "kiobuf_unwrite_c k io max_unwrite = with_write k io (\<lambda>e. (e, 0)) (\<lambda>io.
     let max_readsize = kiobuf_maxread io (ib_rpos io); max_unwrite = min max_unwrite max_readsize in
     if max_unwrite = 0 then Done ((KE_OK, 0), io)
     else if max_unwrite = max_readsize then Done ((KE_OK, max_unwrite), io\<lparr>ib_rpos := ib_size io, ib_wpos := 0\<rparr>)
     else if ib_rpos io < ib_wpos io then Done ((KE_OK, max_unwrite), io\<lparr>ib_wpos := ib_wpos io - max_unwrite\<rparr>)
     else let partsize = ib_wpos io in
       if partsize \<le> max_unwrite
       then (if partsize < max_unwrite then Fault else Done ((KE_OK, max_unwrite), io\<lparr>ib_wpos := 0\<rparr>))
       else Done ((KE_OK, max_unwrite), io\<lparr>ib_wpos := ib_size io + (partsize - max_unwrite)\<rparr>))"

section \<open>Writing\<close>

text \<open>One pass ends the call, or leaves it waiting with the rest of the bytes.\<close>

datatype wres = W_end kerrno kiobuf nat | W_wait kiobuf "u8 list" nat

text \<open>The growth of the buffer; \<open>Inl\<close> is one of the two jumps to the end.\<close>

definition write_grow :: "kio \<Rightarrow> kiobuf \<Rightarrow> u8 list \<Rightarrow> nat \<Rightarrow> kerrno + kiobuf" where
  "write_grow k io buf max_write =
     (if max_write < length buf then
        let new_buffer_size = min ((ib_size io + (length buf - max_write)) mod 2 ^ 32) (ib_maxsize io) in
        if new_buffer_size \<noteq> ib_size io then
          if \<not> io_mem k then Inl KE_NOMEM
          else Inr (io\<lparr>ib_buffer := resize (io_junk k) new_buffer_size (ib_buffer io),
            ib_rpos := (if ib_rpos io = ib_size io \<and> ib_size io \<noteq> 0 then new_buffer_size else ib_rpos io)\<rparr>)
        else if max_write = 0 then Inl KE_OK
        else Inr io
      else Inr io)"

definition write_upper :: "kiobuf \<Rightarrow> u8 list \<Rightarrow> nat" where
  "write_upper io buf =
     (let max_write = ib_size io - ib_wpos io;
          max_write = (if ib_rpos io > ib_wpos io then min max_write (ib_rpos io - ib_wpos io) else max_write)
      in min max_write (length buf))"

text \<open>
  From the label \<open>buffer_is_full\<close> on. The jump back after the lower copy keeps the number of bytes just
  copied in \<open>max_write\<close>. (The result \<open>None\<close> would be a loop that never ends.)
\<close>

partial_function (option) write_full ::
  "kio \<Rightarrow> u32 \<Rightarrow> kiobuf \<Rightarrow> u8 list \<Rightarrow> nat \<Rightarrow> nat \<Rightarrow> bool \<Rightarrow> wres option" where
  "write_full k mode io buf wsize max_write full =
     (if full \<and> mode AND KIO_BLOCKFIRST \<noteq> 0 \<and> ib_size io = ib_maxsize io then
        if wsize \<noteq> 0 \<and> mode AND KIO_BLOCKALL = KIO_BLOCKFIRST then Some (W_end KE_OK io wsize)
        else Some (W_wait io buf wsize)
      else case write_grow k io buf max_write of
        Inl error \<Rightarrow> Some (W_end error io wsize)
      | Inr io \<Rightarrow>
        let m = write_upper io buf;
            io = io\<lparr>ib_buffer := blit (ib_wpos io) (take m buf) (ib_buffer io), ib_wpos := ib_wpos io + m\<rparr>;
            wsize = wsize + m
        in if length buf = m then Some (W_end KE_OK io wsize)
        else let buf = drop m buf in
          if ib_wpos io \<noteq> ib_size io then write_full k mode io buf wsize 0 True
          else if ib_rpos io = 0 then write_full k mode io buf wsize 0 True
          else let m = min (ib_rpos io) (length buf);
                   io = io\<lparr>ib_buffer := blit 0 (take m buf) (ib_buffer io), ib_wpos := m\<rparr>;
                   wsize = wsize + m
            in if length buf = m then Some (W_end KE_OK io wsize)
            else write_full k mode io (drop m buf) wsize m True)"

text \<open>\<open>end\<close>: wrap the read pointer, tell the readers and release the lock.\<close>

definition write_end :: "kio \<Rightarrow> kerrno \<Rightarrow> kiobuf \<Rightarrow> nat \<Rightarrow> ((kerrno \<times> nat) \<times> kiobuf) outcome" where
  "write_end k error io wsize =
     andthen (if wsize \<noteq> 0 then
         let io = (if ib_rpos io = ib_size io then io\<lparr>ib_rpos := 0\<rparr> else io) in
         andthen (ksignal_sendall (io_resched k) (ib_avail io)) (\<lambda>(n, s). Done (io\<lparr>ib_avail := s\<rparr>))
       else Done io) (\<lambda>io.
     andthen (krwlock_endwrite (io_resched k) (ib_rwlock io)) (\<lambda>(e, l).
       Done ((error, wsize), io\<lparr>ib_rwlock := l\<rparr>)))"

fun write_loop ::
  "kio \<Rightarrow> (kerrno \<times> kiobuf) list \<Rightarrow> u32 \<Rightarrow> kiobuf \<Rightarrow> u8 list \<Rightarrow> nat \<Rightarrow> ((kerrno \<times> nat) \<times> kiobuf) outcome" where
  "write_loop k env mode io buf wsize =
     andthen (krwlock_beginwrite (io_self k) [] (ib_rwlock io)) (\<lambda>(error, l).
       if KE_ISERR error then Done ((error, wsize), io\<lparr>ib_rwlock := l\<rparr>)
       else let io = io\<lparr>ib_rwlock := l\<rparr>; max_write = kiobuf_maxwrite io (ib_rpos io) in
         case write_full k mode io buf wsize max_write (max_write = 0) of
           None \<Rightarrow> Blocked
         | Some (W_end error io wsize) \<Rightarrow> write_end k error io wsize
         | Some (W_wait io buf wsize) \<Rightarrow>
             andthen (ksignal_lock_c (ib_nfull io) KSIGNAL_LOCK_WAIT) (\<lambda>s.
             andthen (krwlock_endwrite (io_resched k) (ib_rwlock io)) (\<lambda>(e, l).
               case ksignal_recv_andunlock_c (io_self k) s of
                 (Some e, s) \<Rightarrow> Done ((e, wsize), io\<lparr>ib_nfull := s, ib_rwlock := l\<rparr>)
               | (None, s) \<Rightarrow> (case env of
                   [] \<Rightarrow> Blocked
                 | (e, io') # env' \<Rightarrow>
                     if KE_ISERR e then Done ((e, wsize), io') else write_loop k env' mode io' buf wsize))))"

declare write_loop.simps [simp del]

definition kiobuf_write_c ::
  "kio \<Rightarrow> (kerrno \<times> kiobuf) list \<Rightarrow> kiobuf \<Rightarrow> u8 list \<Rightarrow> u32 \<Rightarrow> ((kerrno \<times> nat) \<times> kiobuf) outcome" where
  "kiobuf_write_c k env io buf mode = write_loop k env mode io buf 0"

section \<open>Reading\<close>

text \<open>What one pass over the buffer comes to: the end with a new read offset, an empty buffer (after some
  bytes, perhaps), or an interrupt that is to be delivered.\<close>

datatype rres = R_end nat "u8 list" | R_empty nat "u8 list" nat | R_intr

definition block_first :: "u32 \<Rightarrow> bool" where
  "block_first mode \<longleftrightarrow> mode AND KIO_BLOCKALL = KIO_BLOCKFIRST"

definition read_pass :: "u32 \<Rightarrow> kiobuf \<Rightarrow> nat \<Rightarrow> u8 list \<Rightarrow> rres" where
  "read_pass mode io destsize acc =
     (let rpos = ib_rpos io; max_read = kiobuf_maxread io rpos in
      if max_read = 0 then R_empty rpos acc destsize
      else if block_first mode \<and> ib_flags io AND KIOBUF_FLAG_INTR_BLOCKFIRST \<noteq> 0 then R_intr
      else
        let m = min (min max_read (ib_size io - rpos)) destsize;
            acc = acc @ take m (drop rpos (ib_buffer io));
            rpos = rpos + m
        in if destsize = m \<or> rpos = ib_wpos io then R_end rpos acc
        else let destsize = destsize - m;
                 m = min (ib_wpos io) destsize;
                 acc = acc @ take m (ib_buffer io)
          in if destsize = m then R_end m acc else R_empty m acc (destsize - m))"

text \<open>\<open>end_rpos\<close>, with the read lock held and the read pointer where the pass found it.\<close>

definition buffer_was_full :: "kiobuf \<Rightarrow> bool" where
  "buffer_was_full io \<longleftrightarrow> ib_rpos io = ib_wpos io \<or> ib_rpos io = 0 \<and> ib_wpos io = ib_size io"

definition read_unlock :: "kio \<Rightarrow> kiobuf \<Rightarrow> u8 list \<Rightarrow> bool \<Rightarrow> ((kerrno \<times> u8 list) \<times> kiobuf) outcome" where
  "read_unlock k io dat wake =
     andthen (if wake then andthen (ksignal_sendall (io_resched k) (ib_nfull io)) (\<lambda>(n, s). Done (io\<lparr>ib_nfull := s\<rparr>))
       else Done io) (\<lambda>io.
     andthen (krwlock_endread (io_resched k) (ib_rwlock io)) (\<lambda>(e, l).
       Done ((KE_OK, dat), io\<lparr>ib_rwlock := l\<rparr>)))"

definition read_end :: "kio \<Rightarrow> u32 \<Rightarrow> kiobuf \<Rightarrow> nat \<Rightarrow> u8 list \<Rightarrow> ((kerrno \<times> u8 list) \<times> kiobuf) outcome" where
  "read_end k mode io rpos dat =
     (if mode AND KIO_PEEK = 0 \<and> dat \<noteq> [] then
        if rpos = ib_wpos io then
          andthen (krwlock_upgrade (io_self k) [] (ib_rwlock io)) (\<lambda>(error, l).
            if KE_ISERR error then Done ((error, dat), io\<lparr>ib_rwlock := l\<rparr>)
            else let full = buffer_was_full io; io = io\<lparr>ib_rwlock := l, ib_rpos := ib_size io, ib_wpos := 0\<rparr> in
              if full then
                andthen (krwlock_downgrade (io_resched k) (ib_rwlock io)) (\<lambda>(e, l).
                  read_unlock k (io\<lparr>ib_rwlock := l\<rparr>) dat True)
              else andthen (krwlock_endwrite (io_resched k) (ib_rwlock io)) (\<lambda>(e, l).
                Done ((KE_OK, dat), io\<lparr>ib_rwlock := l\<rparr>)))
        else read_unlock k (io\<lparr>ib_rpos := rpos\<rparr>) dat (buffer_was_full io)
      else read_unlock k io dat False)"

text \<open>\<open>handle_intr\<close>: swap the read lock for the write lock, clear the flag, and end with nothing read.\<close>

definition read_intr :: "kio \<Rightarrow> kiobuf \<Rightarrow> u8 list \<Rightarrow> ((kerrno \<times> u8 list) \<times> kiobuf) outcome" where
  "read_intr k io dat =
     andthen (krwlock_upgrade (io_self k) [] (ib_rwlock io)) (\<lambda>(error, l).
       if KE_ISERR error then Done ((error, dat), io\<lparr>ib_rwlock := l\<rparr>)
       else let io = ib_flags_set (ib_flags io AND NOT KIOBUF_FLAG_INTR_BLOCKFIRST) (io\<lparr>ib_rwlock := l\<rparr>) in
         andthen (krwlock_endwrite (io_resched k) (ib_rwlock io)) (\<lambda>(e, l).
           Done ((KS_EMPTY, dat), io\<lparr>ib_rwlock := l\<rparr>)))"

text \<open>
  The call as a whole. After a sleep it starts over from the read pointer of the buffer, with the bytes
  it has already copied still in the destination.
\<close>

fun read_loop ::
  "kio \<Rightarrow> (kerrno \<times> kiobuf) list \<Rightarrow> u32 \<Rightarrow> kiobuf \<Rightarrow> nat \<Rightarrow> u8 list \<Rightarrow> ((kerrno \<times> u8 list) \<times> kiobuf) outcome" where
  "read_loop k env mode io destsize acc =
     andthen (krwlock_beginread (io_self k) [] (ib_rwlock io)) (\<lambda>(error, l).
       if KE_ISERR error then Done ((error, acc), io\<lparr>ib_rwlock := l\<rparr>)
       else let io = io\<lparr>ib_rwlock := l\<rparr> in
         case read_pass mode io destsize acc of
           R_end rpos dat \<Rightarrow> read_end k mode io rpos dat
         | R_intr \<Rightarrow> read_intr k io acc
         | R_empty rpos dat left \<Rightarrow>
             if mode AND KIO_BLOCKFIRST = 0 then read_end k mode io rpos dat
             else if block_first mode \<and> dat \<noteq> [] then read_end k mode io rpos dat
             else if block_first mode \<and> ib_flags io AND KIOBUF_FLAG_INTR_BLOCKFIRST \<noteq> 0 then read_intr k io dat
             else
               andthen (ksignal_lock_c (ib_avail io) KSIGNAL_LOCK_WAIT) (\<lambda>s.
               andthen (krwlock_endread (io_resched k) (ib_rwlock io)) (\<lambda>(e, l).
                 case ksignal_recv_andunlock_c (io_self k) s of
                   (Some e, s) \<Rightarrow> Done ((e, dat), io\<lparr>ib_avail := s, ib_rwlock := l\<rparr>)
                 | (None, s) \<Rightarrow> (case env of
                     [] \<Rightarrow> Blocked
                   | (e, io') # env' \<Rightarrow>
                       if KE_ISERR e then Done ((e, dat), io') else read_loop k env' mode io' left dat))))"

declare read_loop.simps [simp del]

definition kiobuf_read_c ::
  "kio \<Rightarrow> (kerrno \<times> kiobuf) list \<Rightarrow> kiobuf \<Rightarrow> nat \<Rightarrow> u32 \<Rightarrow> ((kerrno \<times> u8 list) \<times> kiobuf) outcome" where
  "kiobuf_read_c k env io bufsize mode = read_loop k env mode io bufsize []"

text \<open>\<open>__kiobuf_skip_c\<close> is the same template without the copies.\<close>

definition kiobuf_skip_c ::
  "kio \<Rightarrow> (kerrno \<times> kiobuf) list \<Rightarrow> kiobuf \<Rightarrow> nat \<Rightarrow> u32 \<Rightarrow> ((kerrno \<times> nat) \<times> kiobuf) outcome" where
  "kiobuf_skip_c k env io bufsize mode =
     andthen (kiobuf_read_c k env io bufsize mode) (\<lambda>((e, dat), io). Done ((e, length dat), io))"

definition kiobuf_rseek_c :: "kio \<Rightarrow> kiobuf \<Rightarrow> int \<Rightarrow> ((kerrno \<times> nat) \<times> kiobuf) outcome" where
  "kiobuf_rseek_c k io off =
     (if off < 0 then kiobuf_unread_c k io (nat (- off)) else kiobuf_skip_c k [] io (nat off) KIO_BLOCKNONE)"

definition kiobuf_wseek_c :: "kio \<Rightarrow> kiobuf \<Rightarrow> int \<Rightarrow> ((kerrno \<times> nat) \<times> kiobuf) outcome" where
  "kiobuf_wseek_c k io off = (if off < 0 then kiobuf_unwrite_c k io (nat (- off)) else Done ((KE_OK, 0), io))"

section \<open>The bytes in the buffer\<close>

definition contents :: "kiobuf \<Rightarrow> u8 list" where
  "contents io = (if ib_rpos io < ib_wpos io then take (ib_wpos io - ib_rpos io) (drop (ib_rpos io) (ib_buffer io))
     else drop (ib_rpos io) (ib_buffer io) @ take (ib_wpos io) (ib_buffer io))"

definition ring_ok :: "kiobuf \<Rightarrow> bool" where
  "ring_ok io \<longleftrightarrow> ib_rpos io \<le> ib_size io \<and> ib_wpos io \<le> ib_size io \<and> ib_size io \<le> ib_maxsize io
     \<and> ib_maxsize io < 2 ^ 32 \<and> (ib_size io \<noteq> 0 \<longrightarrow> ib_rpos io \<noteq> ib_size io \<or> ib_wpos io \<noteq> ib_size io)"

definition io_free :: "kiobuf \<Rightarrow> bool" where
  "io_free io \<longleftrightarrow> rw_free (ib_rwlock io) \<and> sig_idle (ib_avail io) \<and> sig_idle (ib_nfull io)"

lemma maxread_contents: "ring_ok io \<Longrightarrow> kiobuf_maxread io (ib_rpos io) = length (contents io)"
  by (auto simp: kiobuf_maxread_def contents_def ring_ok_def ib_size_def)

lemma maxwrite_contents: "ring_ok io \<Longrightarrow> kiobuf_maxwrite io (ib_rpos io) + length (contents io) = ib_size io"
  by (auto simp: kiobuf_maxwrite_def contents_def ring_ok_def ib_size_def)

lemma length_blit [simp]: "pos + length src \<le> length buf \<Longrightarrow> length (blit pos src buf) = length buf"
  by (simp add: blit_def)

lemma take_blit:
  "n \<le> pos \<Longrightarrow> pos \<le> length buf \<Longrightarrow> take n (blit pos src buf) = take n buf"
  "pos \<le> length buf \<Longrightarrow> n = pos + length src \<Longrightarrow> take n (blit pos src buf) = take pos buf @ src"
  by (simp_all add: blit_def min_def)

lemma drop_blit: "pos + length src \<le> n \<Longrightarrow> pos + length src \<le> length buf \<Longrightarrow> drop n (blit pos src buf) = drop n buf"
  by (simp add: blit_def min_def)

lemma drop_take_blit:
  assumes "r \<le> pos" and "pos + length src \<le> length buf"
  shows "take (pos + length src - r) (drop r (blit pos src buf)) = take (pos - r) (drop r buf) @ src"
proof -
  have "take (pos + length src - r) (drop r (blit pos src buf)) = drop r (take (pos + length src) (blit pos src buf))"
    by (simp add: drop_take)
  also have "\<dots> = drop r (take pos buf) @ src" using assms by (simp add: take_blit(2))
  finally show ?thesis by (simp add: drop_take)
qed

section \<open>Writing appends\<close>

text \<open>What a write that fits makes of the buffer, and the wrap of the read pointer at its end.\<close>

definition ring_put :: "kiobuf \<Rightarrow> u8 list \<Rightarrow> kiobuf" where
  "ring_put io buf = (let m = write_upper io buf;
     io = io\<lparr>ib_buffer := blit (ib_wpos io) (take m buf) (ib_buffer io), ib_wpos := ib_wpos io + m\<rparr> in
     if length buf = m then io
     else io\<lparr>ib_buffer := blit 0 (drop m buf) (ib_buffer io), ib_wpos := length buf - m\<rparr>)"

definition ring_wrap :: "kiobuf \<Rightarrow> kiobuf" where
  "ring_wrap io = (if ib_rpos io = ib_size io then io\<lparr>ib_rpos := 0\<rparr> else io)"

lemma ring_put_fields [simp]:
  "ib_rwlock (ring_put io buf) = ib_rwlock io" "ib_avail (ring_put io buf) = ib_avail io"
  "ib_nfull (ring_put io buf) = ib_nfull io" "ib_rpos (ring_put io buf) = ib_rpos io"
  "ib_maxsize (ring_put io buf) = ib_maxsize io"
  "ib_rwlock (ring_wrap io) = ib_rwlock io" "ib_avail (ring_wrap io) = ib_avail io" "ib_nfull (ring_wrap io) = ib_nfull io"
  "ib_size (ring_wrap io) = ib_size io" "ib_maxsize (ring_wrap io) = ib_maxsize io"
  by (simp_all add: ring_put_def ring_wrap_def Let_def ib_size_def)

text \<open>The three ways a write that fits can go.\<close>

lemma ring_put_cases:
  assumes ok: "ring_ok io" and fits: "length buf \<le> kiobuf_maxwrite io (ib_rpos io)" and ne: "buf \<noteq> []"
  obtains
    (wrapped) "ib_wpos io + length buf \<le> ib_rpos io"
      "ring_put io buf = io\<lparr>ib_buffer := blit (ib_wpos io) buf (ib_buffer io), ib_wpos := ib_wpos io + length buf\<rparr>"
      "write_upper io buf = length buf"
  | (linear) "ib_rpos io < ib_wpos io" "ib_wpos io + length buf \<le> ib_size io"
      "ring_put io buf = io\<lparr>ib_buffer := blit (ib_wpos io) buf (ib_buffer io), ib_wpos := ib_wpos io + length buf\<rparr>"
      "write_upper io buf = length buf"
  | (around) m where "ib_rpos io < ib_wpos io" "m = ib_size io - ib_wpos io" "m < length buf" "length buf - m \<le> ib_rpos io"
      "write_upper io buf = m" "ring_put io buf = io\<lparr>ib_buffer := blit 0 (drop m buf) (blit (ib_wpos io) (take m buf) (ib_buffer io)),
        ib_wpos := length buf - m\<rparr>"
proof -
  have len: "0 < length buf" using ne by simp
  show thesis
  proof (cases "ib_rpos io < ib_wpos io")
    case False
    then have "ib_wpos io + length buf \<le> ib_rpos io" using fits len by (auto simp: kiobuf_maxwrite_def split: if_splits)
    moreover from this have "ib_wpos io < ib_rpos io" "ib_rpos io \<le> ib_size io" using ok len by (auto simp: ring_ok_def simp del: length_greater_0_conv)
    then have "write_upper io buf = length buf"
      using \<open>ib_wpos io + length buf \<le> ib_rpos io\<close> by (simp add: write_upper_def)
    ultimately show thesis using wrapped by (simp add: ring_put_def Let_def)
  next
    case True
    then have up: "write_upper io buf = min (ib_size io - ib_wpos io) (length buf)" by (simp add: write_upper_def)
    show thesis
    proof (cases "ib_wpos io + length buf \<le> ib_size io")
      case fit: True
      then have "write_upper io buf = length buf" using up by simp
      then show thesis using linear True fit by (simp add: ring_put_def Let_def)
    next
      case False
      then have "write_upper io buf = ib_size io - ib_wpos io" "ib_size io - ib_wpos io < length buf"
        using up ok by (auto simp: ring_ok_def)
      then show thesis
        using around [OF True refl] True fits ok by (simp add: ring_put_def Let_def kiobuf_maxwrite_def ring_ok_def)
    qed
  qed
qed

lemma ring_put_contents:
  assumes ok: "ring_ok io" and fits: "length buf \<le> kiobuf_maxwrite io (ib_rpos io)" and ne: "buf \<noteq> []"
  shows "contents (ring_wrap (ring_put io buf)) = contents io @ buf \<and> ring_ok (ring_wrap (ring_put io buf))
    \<and> ib_size (ring_put io buf) = ib_size io"
  using assms
proof (cases rule: ring_put_cases)
  case wrapped
  then have "ib_wpos io + length buf \<le> length (ib_buffer io)" "\<not> ib_rpos io < ib_wpos io" using ok by (auto simp: ring_ok_def ib_size_def)
  then show ?thesis
    using wrapped ok ne by (auto simp: contents_def ring_wrap_def ring_ok_def ib_size_def take_blit drop_blit)
next
  case linear
  then show ?thesis
    using ok drop_take_blit [of "ib_rpos io" "ib_wpos io" buf "ib_buffer io"]
    by (auto simp: contents_def ring_wrap_def ring_ok_def ib_size_def)
next
  case (around m)
  let ?b1 = "blit (ib_wpos io) (take m buf) (ib_buffer io)"
  have m: "ib_wpos io + m = length (ib_buffer io)" using around ok by (simp add: ring_ok_def ib_size_def)
  then have b1: "length ?b1 = length (ib_buffer io)" using around by simp
  have "drop (ib_rpos io) ?b1 = take (ib_wpos io - ib_rpos io) (drop (ib_rpos io) (ib_buffer io)) @ take m buf"
    using drop_take_blit [of "ib_rpos io" "ib_wpos io" "take m buf" "ib_buffer io"] around m b1 by simp
  moreover have "drop (ib_rpos io) (blit 0 (drop m buf) ?b1) = drop (ib_rpos io) ?b1"
    using around m b1 ok by (intro drop_blit) (auto simp: ring_ok_def ib_size_def)
  moreover have "take (length buf - m) (blit 0 (drop m buf) ?b1) = drop m buf"
    using around b1 by (simp add: take_blit(2))
  ultimately show ?thesis
    using around ok m b1 by (auto simp: contents_def ring_wrap_def ring_ok_def ib_size_def)
qed

lemma write_full_fits:
  assumes "write_grow k io0 buf max_write = Inr io" and "ring_ok io" and "length buf \<le> kiobuf_maxwrite io (ib_rpos io)"
    and "buf \<noteq> []" and "\<not> (full \<and> mode AND KIO_BLOCKFIRST \<noteq> 0 \<and> ib_size io0 = ib_maxsize io0)"
  shows "write_full k mode io0 buf wsize max_write full = Some (W_end KE_OK (ring_put io buf) (wsize + length buf))"
  using assms(2-4)
proof (cases rule: ring_put_cases)
  case wrapped
  then show ?thesis using assms(1) by (subst write_full.simps, subst if_not_P [OF assms(5)]) (simp add: Let_def)
next
  case linear
  then show ?thesis using assms(1) by (subst write_full.simps, subst if_not_P [OF assms(5)]) (simp add: Let_def)
next
  case (around m)
  let ?io1 = "io\<lparr>ib_buffer := blit (ib_wpos io) (take m buf) (ib_buffer io), ib_wpos := ib_wpos io + m\<rparr>"
  have "ib_size ?io1 = ib_size io" using around(2,3) assms(2) by (simp add: ring_ok_def ib_size_def)
  then have full: "(ib_wpos ?io1 \<noteq> ib_size ?io1) = False" using around(2) assms(2) by (simp add: ring_ok_def)
  have r: "(ib_rpos ?io1 = 0) = False" using around(3,4) by simp
  have low: "min (ib_rpos ?io1) (length (drop m buf)) = length (drop m buf)" using around(4) by simp
  have ne: "(length buf = m) = False" using around(3) by simp
  have "ring_put io buf = ?io1\<lparr>ib_buffer := blit 0 (take (length (drop m buf)) (drop m buf)) (ib_buffer ?io1), ib_wpos := length (drop m buf)\<rparr>"
    using around(6) by simp
  moreover have "wsize + length buf = wsize + m + length (drop m buf)" using around(3) by simp
  ultimately show ?thesis
    unfolding write_full.simps [of k mode io0] if_not_P [OF assms(5)] assms(1) sum.case Let_def around(5) full r low ne if_False
    by simp
qed

text \<open>A write that fits the free space, or one for which a buffer that is not wrapped around can grow.\<close>

definition write_room :: "kiobuf \<Rightarrow> u8 list \<Rightarrow> bool" where
  "write_room io buf \<longleftrightarrow> length buf \<le> kiobuf_maxwrite io (ib_rpos io)
     \<or> (ib_rpos io < ib_wpos io \<or> contents io = []) \<and> length (contents io) + length buf \<le> ib_maxsize io"

lemma length_resize [simp]: "length (resize junk n buf) = n"
  by (simp add: resize_def)

lemma take_resize: "m \<le> length buf \<Longrightarrow> m \<le> n \<Longrightarrow> take m (resize junk n buf) = take m buf"
  by (simp add: resize_def min_def)

text \<open>Growing keeps the bytes and makes exactly the room that is needed.\<close>

lemma write_grow_room:
  assumes ok: "ring_ok io" and room: "write_room io buf" and mem: "io_mem k" and ne: "buf \<noteq> []" and size: "ib_size io \<noteq> 0"
  shows "\<exists>io1. write_grow k io buf (kiobuf_maxwrite io (ib_rpos io)) = Inr io1 \<and> ring_ok io1 \<and> contents io1 = contents io
    \<and> length buf \<le> kiobuf_maxwrite io1 (ib_rpos io1) \<and> ib_rwlock io1 = ib_rwlock io \<and> ib_avail io1 = ib_avail io
    \<and> ib_nfull io1 = ib_nfull io \<and> ib_maxsize io1 = ib_maxsize io \<and> ib_size io \<le> ib_size io1"
proof (cases "length buf \<le> kiobuf_maxwrite io (ib_rpos io)")
  case True
  then show ?thesis using ok by (simp add: write_grow_def)
next
  case False
  define m where "m = kiobuf_maxwrite io (ib_rpos io)"
  define n where "n = ib_size io + (length buf - m)"
  let ?io1 = "io\<lparr>ib_buffer := resize (io_junk k) n (ib_buffer io),
    ib_rpos := (if ib_rpos io = ib_size io \<and> ib_size io \<noteq> 0 then n else ib_rpos io)\<rparr>"
  have lin: "ib_rpos io < ib_wpos io \<or> contents io = []" and le: "length (contents io) + length buf \<le> ib_maxsize io"
    using room False by (auto simp: write_room_def)
  have mc: "m + length (contents io) = ib_size io" using maxwrite_contents [OF ok] by (simp add: m_def)
  have gt: "m < length buf" "ib_size io < n" using False by (simp_all add: m_def n_def)
  have n: "n \<le> ib_maxsize io" using mc le gt by (simp add: n_def)
  then have n32: "n mod 2 ^ 32 = n" using ok by (intro mod_less) (simp add: ring_ok_def)
  have grow: "write_grow k io buf m = Inr ?io1"
    using gt mem unfolding write_grow_def n_def [symmetric] n32 Let_def min_absorb1 [OF n] by simp
  have pos: "ib_rpos io < ib_wpos io \<or> ib_rpos io = ib_size io \<and> ib_wpos io = 0"
    using lin mc ok size by (auto simp: m_def kiobuf_maxwrite_def ring_ok_def split: if_splits)
  have "contents ?io1 = contents io"
    using pos lin size gt ok take_resize [of "ib_wpos io" "ib_buffer io" n "io_junk k"]
    by (auto simp: contents_def ring_ok_def ib_size_def simp flip: drop_take)
  moreover have "ring_ok ?io1" using pos n ok gt by (auto simp: ring_ok_def ib_size_def)
  moreover have "length buf \<le> kiobuf_maxwrite ?io1 (ib_rpos ?io1)"
    using pos gt ok size by (auto simp: n_def m_def kiobuf_maxwrite_def ib_size_def ring_ok_def)
  moreover have "ib_size io \<le> ib_size ?io1" using gt by (simp add: ib_size_def)
  ultimately show ?thesis using grow by (simp add: m_def)
qed

lemma frame_simps [simp]:
  "contents (io\<lparr>ib_avail := a\<rparr>) = contents io" "contents (io\<lparr>ib_nfull := a\<rparr>) = contents io" "contents (io\<lparr>ib_rwlock := l\<rparr>) = contents io"
  "ring_ok (io\<lparr>ib_avail := a\<rparr>) = ring_ok io" "ring_ok (io\<lparr>ib_nfull := a\<rparr>) = ring_ok io" "ring_ok (io\<lparr>ib_rwlock := l\<rparr>) = ring_ok io"
  "ib_size (io\<lparr>ib_avail := a\<rparr>) = ib_size io" "ib_size (io\<lparr>ib_nfull := a\<rparr>) = ib_size io" "ib_size (io\<lparr>ib_rwlock := l\<rparr>) = ib_size io"
  "ib_size (io\<lparr>ib_rpos := r\<rparr>) = ib_size io" "ib_size (io\<lparr>ib_wpos := r\<rparr>) = ib_size io"
  "ib_flags (io\<lparr>ib_nfull := a\<rparr>) = ib_flags io" "ib_flags (io\<lparr>ib_rwlock := l\<rparr>) = ib_flags io"
  "kiobuf_maxwrite (io\<lparr>ib_rwlock := l\<rparr>) r = kiobuf_maxwrite io r" "kiobuf_maxread (io\<lparr>ib_rwlock := l\<rparr>) r = kiobuf_maxread io r"
  "write_room (io\<lparr>ib_rwlock := l\<rparr>) buf = write_room io buf"
  by (simp_all add: contents_def ring_ok_def ib_size_def ib_flags_def kiobuf_maxwrite_def kiobuf_maxread_def write_room_def)

lemma write_end_ok:
  assumes "sig_idle (ib_avail io)" and "krwlock_endwrite (io_resched k) (ib_rwlock io) = Done (e, l)" and "wsize \<noteq> 0"
  shows "\<exists>a. write_end k error io wsize = Done ((error, wsize), (ring_wrap io)\<lparr>ib_avail := a, ib_rwlock := l\<rparr>) \<and> sig_idle a
    \<and> s_useru a = s_useru (ib_avail io)"
proof -
  obtain n w where "ksignal_sendall (io_resched k) (ib_avail io) = Done (n, (ib_avail io)\<lparr>s_wake := w\<rparr>)"
    using sendall_idle_ex [OF assms(1)] by blast
  then show ?thesis using assms by (auto simp: write_end_def ring_wrap_def)
qed

text \<open>The first write to a buffer without memory.\<close>

lemma write_fresh:
  assumes "ring_ok io" and "ib_size io = 0" and "buf \<noteq> []" and "length buf \<le> ib_maxsize io" and "io_mem k"
  shows "write_full k mode io buf 0 0 True = Some (W_end KE_OK (io\<lparr>ib_buffer := buf, ib_wpos := length buf\<rparr>) (length buf))"
proof -
  let ?io1 = "io\<lparr>ib_buffer := resize (io_junk k) (length buf) [], ib_rpos := 0\<rparr>"
  have z: "ib_rpos io = 0" "ib_wpos io = 0" "ib_buffer io = []" using assms(1,2) by (auto simp: ring_ok_def ib_size_def)
  have "length buf mod 2 ^ 32 = length buf" using assms(1,4) by (intro mod_less) (simp add: ring_ok_def)
  then have grow: "write_grow k io buf 0 = Inr ?io1"
    using assms z by (simp add: write_grow_def Let_def ib_size_def min_absorb1)
  have up: "write_upper ?io1 buf = length buf" using z by (simp add: write_upper_def Let_def ib_size_def)
  have nb: "\<not> (True \<and> mode AND KIO_BLOCKFIRST \<noteq> 0 \<and> ib_size io = ib_maxsize io)" using assms(2-4) by auto
  show ?thesis
    unfolding write_full.simps [of k mode io] if_not_P [OF nb] grow sum.case Let_def up
    using z by (simp add: blit_def)
qed

text \<open>The pass of a write that has room, whatever the mode.\<close>

lemma write_pass:
  assumes ok: "ring_ok io" and room: "write_room io buf" and ne: "buf \<noteq> []" and mem: "io_mem k"
  shows "\<exists>io2. write_full k mode io buf 0 (kiobuf_maxwrite io (ib_rpos io)) (kiobuf_maxwrite io (ib_rpos io) = 0)
      = Some (W_end KE_OK io2 (length buf))
    \<and> contents (ring_wrap io2) = contents io @ buf \<and> ring_ok (ring_wrap io2)
    \<and> ib_rwlock io2 = ib_rwlock io \<and> ib_avail io2 = ib_avail io \<and> ib_nfull io2 = ib_nfull io \<and> ib_maxsize io2 = ib_maxsize io
    \<and> ib_size io \<le> ib_size io2"
proof (cases "ib_size io = 0")
  case True
  then have z: "ib_rpos io = 0" "ib_wpos io = 0" "ib_buffer io = []" "contents io = []"
    using ok by (auto simp: ring_ok_def ib_size_def contents_def)
  then have "kiobuf_maxwrite io (ib_rpos io) = 0" by (simp add: kiobuf_maxwrite_def)
  moreover from this have "length buf \<le> ib_maxsize io" using room ne z by (auto simp: write_room_def)
  ultimately show ?thesis
    using write_fresh [OF ok True ne _ mem, of mode] z ok ne
    by (auto simp: contents_def ring_wrap_def ring_ok_def ib_size_def)
next
  case False
  let ?m = "kiobuf_maxwrite io (ib_rpos io)"
  obtain io1 where io1: "write_grow k io buf ?m = Inr io1" "ring_ok io1" "contents io1 = contents io"
    "length buf \<le> kiobuf_maxwrite io1 (ib_rpos io1)" "ib_rwlock io1 = ib_rwlock io" "ib_avail io1 = ib_avail io"
    "ib_nfull io1 = ib_nfull io" "ib_maxsize io1 = ib_maxsize io" "ib_size io \<le> ib_size io1"
    using write_grow_room [OF ok room mem ne False] by blast
  have nb: "\<not> (?m = 0 \<and> mode AND KIO_BLOCKFIRST \<noteq> 0 \<and> ib_size io = ib_maxsize io)"
    using room ne maxwrite_contents [OF ok] by (auto simp: write_room_def)
  show ?thesis
    using write_full_fits [OF io1(1,2,4) ne nb, of 0] ring_put_contents [OF io1(2,4) ne] io1 by simp
qed

lemma write_appends:
  assumes ok: "ring_ok io" and free: "io_free io" and room: "write_room io buf" and ne: "buf \<noteq> []" and mem: "io_mem k"
  shows "\<exists>io'. kiobuf_write_c k env io buf mode = Done ((KE_OK, length buf), io') \<and> contents io' = contents io @ buf
    \<and> ring_ok io' \<and> io_free io' \<and> ib_flags io' = ib_flags io \<and> ib_maxsize io' = ib_maxsize io
    \<and> ib_size io \<le> ib_size io'"
proof -
  obtain l1 e l2 where l: "krwlock_beginwrite (io_self k) [] (ib_rwlock io) = Done (KE_OK, l1)"
    "krwlock_endwrite (io_resched k) l1 = Done (e, l2)" "rw_free l2"
    using write_guard.enter_leave free unfolding io_free_def by blast
  let ?io = "io\<lparr>ib_rwlock := l1\<rparr>"
  obtain io2 where io2: "write_full k mode ?io buf 0 (kiobuf_maxwrite ?io (ib_rpos ?io)) (kiobuf_maxwrite ?io (ib_rpos ?io) = 0)
      = Some (W_end KE_OK io2 (length buf))" "contents (ring_wrap io2) = contents io @ buf" "ring_ok (ring_wrap io2)"
    "ib_rwlock io2 = l1" "ib_avail io2 = ib_avail io" "ib_nfull io2 = ib_nfull io" "ib_maxsize io2 = ib_maxsize io"
    "ib_size io \<le> ib_size io2"
    using write_pass [of ?io buf k mode] ok room ne mem by auto
  obtain a where a: "write_end k KE_OK io2 (length buf) = Done ((KE_OK, length buf), (ring_wrap io2)\<lparr>ib_avail := a, ib_rwlock := l2\<rparr>)"
    "sig_idle a" "s_useru a = s_useru (ib_avail io)"
    using write_end_ok [of io2 k e l2 "length buf"] io2 l free ne by (auto simp: io_free_def)
  have "kiobuf_write_c k env io buf mode = Done ((KE_OK, length buf), (ring_wrap io2)\<lparr>ib_avail := a, ib_rwlock := l2\<rparr>)"
    using l io2(1) a(1) by (simp add: kiobuf_write_c_def write_loop.simps Let_def)
  then show ?thesis using io2 a l(3) free by (simp add: io_free_def ib_flags_def)
qed

text \<open>
  C31. \<open>kiobuf_write\<close> appends: on a buffer that nobody else uses, a write for which there is room (enough free
  bytes, or a buffer that is not wrapped around and may grow) takes all bytes at once, in every
  blocking mode; they come after the bytes that were in the buffer, and the buffer stays well-formed
  and unlocked.
\<close>

theorem kiobuf_write_appends:
  assumes "ring_ok io" and "io_free io" and "write_room io buf" and "buf \<noteq> []" and "io_mem k"
  shows "\<exists>io'. kiobuf_write_c k env io buf mode = Done ((KE_OK, length buf), io') \<and> contents io' = contents io @ buf
    \<and> ring_ok io' \<and> io_free io'"
  using write_appends [OF assms] by blast

definition kio_example :: kio where
  "kio_example = \<lparr>io_self = 1, io_resched = (\<lambda>t. KE_OK), io_mem = True, io_junk = (\<lambda>n. 7)\<rparr>"

lemma kiobuf_init_free: "io_free (kiobuf_init_ex n)"
  by (simp add: io_free_def rw_free_def kiobuf_init_ex_def krwlock_init_def rw_idle_def signal_exec sig_idle_def
      krwlock_iswritelocked_def rw_dead_def)

lemma kiobuf_init_ok: "n < 2 ^ 32 \<Longrightarrow> ring_ok (kiobuf_init_ex n)" "contents (kiobuf_init_ex n) = []"
  by (simp_all add: ring_ok_def kiobuf_init_ex_def ib_size_def contents_def)

theorem kiobuf_write_appends_witness:
  "\<exists>io'. kiobuf_write_c kio_example [] (kiobuf_init_ex 4) [5, 6] KIO_BLOCKNONE = Done ((KE_OK, Suc (Suc 0)), io')
    \<and> contents io' = [5, 6] \<and> ring_ok io' \<and> io_free io'"
proof -
  have "write_room (kiobuf_init_ex 4) [5, 6]" by (simp add: write_room_def kiobuf_init_ok) (simp add: kiobuf_init_ex_def)
  with kiobuf_write_appends [OF kiobuf_init_ok(1) kiobuf_init_free, of 4 "[5, 6]" kio_example "[]" KIO_BLOCKNONE]
  show ?thesis by (simp add: kiobuf_init_ok kio_example_def)
qed

section \<open>Reading takes from the front\<close>

text \<open>The buffer after \<open>end_rpos\<close>: the empty state if the read pointer met the write pointer.\<close>

definition ring_get :: "kiobuf \<Rightarrow> nat \<Rightarrow> kiobuf" where
  "ring_get io rpos = (if rpos = ib_wpos io then io\<lparr>ib_rpos := ib_size io, ib_wpos := 0\<rparr> else io\<lparr>ib_rpos := rpos\<rparr>)"

lemma ring_get_empty: "ring_ok io \<Longrightarrow> ib_size io \<noteq> 0 \<Longrightarrow> contents (ring_get io (ib_wpos io)) = [] \<and> ring_ok (ring_get io (ib_wpos io))"
  by (auto simp: ring_get_def contents_def ring_ok_def ib_size_def)

lemma read_pass_result:
  assumes ok: "ring_ok io" and ne: "contents io \<noteq> []" and n: "0 < n"
    and intr: "\<not> (block_first mode \<and> ib_flags io AND KIOBUF_FLAG_INTR_BLOCKFIRST \<noteq> 0)"
  obtains r left where "read_pass mode io n [] \<in> {R_end r (take n (contents io)), R_empty r (take n (contents io)) left}"
    "contents (ring_get io r) = drop n (contents io)" "ring_ok (ring_get io r)"
proof -
  let ?r = "ib_rpos io" and ?w = "ib_wpos io" and ?b = "ib_buffer io" and ?s = "ib_size io"
  have mr: "kiobuf_maxread io ?r \<noteq> 0" using ne maxread_contents [OF ok] by simp
  have s: "?s \<noteq> 0" using mr ok by (auto simp: kiobuf_maxread_def ring_ok_def)
  have empty: "contents (ring_get io ?w) = []" "ring_ok (ring_get io ?w)" using ring_get_empty [OF ok s] by auto
  show thesis
  proof (cases "?r < ?w")
    case True
    let ?m = "min (?w - ?r) n"
    have c: "contents io = take (?w - ?r) (drop ?r ?b)" using True by (simp add: contents_def)
    have "min (min (kiobuf_maxread io ?r) (?s - ?r)) n = ?m" using True ok by (auto simp: kiobuf_maxread_def ring_ok_def)
    then have pass: "read_pass mode io n [] = R_end (?r + ?m) (take n (contents io))"
      using mr intr True c by (auto simp: read_pass_def Let_def min_def)
    show thesis
    proof (cases "?w - ?r \<le> n")
      case le: True
      then have "?r + ?m = ?w" "drop n (contents io) = []" using True c by auto
      then show thesis using that [of "?r + ?m"] pass empty by auto
    next
      case False
      then have "?r + ?m = ?r + n" "?r + n < ?w" "ring_get io (?r + n) = io\<lparr>ib_rpos := ?r + n\<rparr>" by (auto simp: ring_get_def)
      moreover from this have "contents (ring_get io (?r + n)) = drop n (contents io)" "ring_ok (ring_get io (?r + n))"
        using c ok by (auto simp: contents_def ring_ok_def drop_take add.commute)
      ultimately show thesis using that [of "?r + n"] pass by auto
    qed
  next
    case False
    let ?m = "min (?s - ?r) n"
    have c: "contents io = drop ?r ?b @ take ?w ?b" using False by (simp add: contents_def)
    have ws: "?w < ?s" using False ok s by (auto simp: ring_ok_def)
    have m: "min (min (kiobuf_maxread io ?r) (?s - ?r)) n = ?m" using False ok by (auto simp: kiobuf_maxread_def ring_ok_def)
    show thesis
    proof (cases "n \<le> ?s - ?r")
      case True
      then have "?m = n" "?r + n \<noteq> ?w" using False n by auto
      then have "read_pass mode io n [] = R_end (?r + n) (take n (contents io))"
        using mr intr m c True by (simp add: read_pass_def Let_def ib_size_def)
      moreover have "contents (ring_get io (?r + n)) = drop n (contents io)" "ring_ok (ring_get io (?r + n))"
        using \<open>?r + n \<noteq> ?w\<close> False True c ok ws by (auto simp: ring_get_def contents_def ring_ok_def ib_size_def add.commute)
      ultimately show thesis using that by auto
    next
      case gt: False
      define d where "d = n - (?s - ?r)"
      have "?m = ?s - ?r" "?r + (?s - ?r) = ?s" "n - ?m = d" "0 < d" using gt ok by (auto simp: ring_ok_def d_def)
      then have pass: "read_pass mode io n [] = (if d = min ?w d then R_end (min ?w d) (drop ?r ?b @ take (min ?w d) ?b)
          else R_empty (min ?w d) (drop ?r ?b @ take (min ?w d) ?b) (d - min ?w d))"
        using mr intr m gt ws by (simp add: read_pass_def Let_def ib_size_def)
      have tk: "take n (contents io) = drop ?r ?b @ take (min ?w d) ?b" "drop n (contents io) = drop d (take ?w ?b)"
        using c gt by (auto simp: d_def ib_size_def min_def)
      show thesis
      proof (cases "?w \<le> d")
        case True
        then show thesis using that [of ?w "d - ?w"] pass tk empty by (auto simp: min_def)
      next
        case False
        then have "contents (ring_get io d) = drop d (take ?w ?b)" "ring_ok (ring_get io d)"
          using ok by (auto simp: ring_get_def contents_def ring_ok_def drop_take)
        then show thesis using that [of d] pass tk False by (auto simp: min_def)
      qed
    qed
  qed
qed

lemma read_unlock_ok:
  assumes "one_reader (ib_rwlock io)" and "sig_idle (ib_nfull io)"
  shows "\<exists>n l. read_unlock k io dat wake = Done ((KE_OK, dat), io\<lparr>ib_nfull := n, ib_rwlock := l\<rparr>) \<and> rw_free l \<and> sig_idle n"
proof -
  obtain e l where l: "krwlock_endread (io_resched k) (ib_rwlock io) = Done (e, l)" "rw_free l"
    using endread_one [OF assms(1)] by blast
  obtain m w where "ksignal_sendall (io_resched k) (ib_nfull io) = Done (m, (ib_nfull io)\<lparr>s_wake := w\<rparr>)"
    using sendall_idle_ex [OF assms(2)] by blast
  with l assms(2) show ?thesis
    by (intro exI [of _ "if wake then (ib_nfull io)\<lparr>s_wake := w\<rparr> else ib_nfull io"] exI [of _ l]) (simp add: read_unlock_def)
qed

lemma frame_ptrs [simp]:
  "contents (io\<lparr>ib_rwlock := l, ib_rpos := r, ib_wpos := w\<rparr>) = contents (io\<lparr>ib_rpos := r, ib_wpos := w\<rparr>)"
  "ring_ok (io\<lparr>ib_rwlock := l, ib_rpos := r, ib_wpos := w\<rparr>) = ring_ok (io\<lparr>ib_rpos := r, ib_wpos := w\<rparr>)"
  by (simp_all add: contents_def ring_ok_def ib_size_def)

lemma read_end_ok:
  assumes one: "one_reader (ib_rwlock io)" and idle: "sig_idle (ib_nfull io)" "sig_idle (ib_avail io)"
    and mode: "mode AND KIO_PEEK = 0" and dat: "dat \<noteq> []"
  shows "\<exists>io'. read_end k mode io r dat = Done ((KE_OK, dat), io') \<and> contents io' = contents (ring_get io r)
    \<and> ring_ok io' = ring_ok (ring_get io r) \<and> io_free io' \<and> ib_maxsize io' = ib_maxsize io \<and> ib_size io' = ib_size io"
proof (cases "r = ib_wpos io")
  case False
  have "one_reader (ib_rwlock (io\<lparr>ib_rpos := r\<rparr>))" "sig_idle (ib_nfull (io\<lparr>ib_rpos := r\<rparr>))" using one idle by simp_all
  from read_unlock_ok [OF this, of k dat "buffer_was_full io"] show ?thesis
    using False mode dat idle by (auto simp: read_end_def ring_get_def io_free_def)
next
  case True
  obtain l e1 l1 e2 l2 where l: "krwlock_upgrade (io_self k) [] (ib_rwlock io) = Done (KE_OK, l)"
    "krwlock_endwrite (io_resched k) l = Done (e1, l1)" "rw_free l1"
    "krwlock_downgrade (io_resched k) l = Done (e2, l2)" "one_reader l2"
    using upgrade_one [OF one] by blast
  let ?io = "io\<lparr>ib_rpos := ib_size io, ib_wpos := 0, ib_rwlock := l2\<rparr>"
  have "one_reader (ib_rwlock ?io)" "sig_idle (ib_nfull ?io)" using l idle by simp_all
  from read_unlock_ok [OF this, of k dat True] show ?thesis
    using True mode dat idle l by (cases "buffer_was_full io") (auto simp: read_end_def ring_get_def io_free_def Let_def)
qed

lemma read_peek_ok:
  assumes one: "one_reader (ib_rwlock io)" and idle: "sig_idle (ib_nfull io)" "sig_idle (ib_avail io)"
    and keep: "mode AND KIO_PEEK \<noteq> 0 \<or> dat = []"
  shows "\<exists>io'. read_end k mode io r dat = Done ((KE_OK, dat), io') \<and> contents io' = contents io
    \<and> ring_ok io' = ring_ok io \<and> io_free io' \<and> ib_maxsize io' = ib_maxsize io \<and> ib_size io' = ib_size io"
  using read_unlock_ok [OF one idle(1), of k dat False] keep idle by (auto simp: read_end_def io_free_def)

lemma ring_get_lock: "contents (ring_get (io\<lparr>ib_rwlock := l\<rparr>) r) = contents (ring_get io r)"
  "ring_ok (ring_get (io\<lparr>ib_rwlock := l\<rparr>) r) = ring_ok (ring_get io r)"
  by (simp_all add: ring_get_def contents_def ring_ok_def ib_size_def)

lemma read_takes:
  assumes ok: "ring_ok io" and free: "io_free io" and n: "0 < n"
    and mode: "mode AND KIO_BLOCKFIRST = 0 \<or> block_first mode \<and> contents io \<noteq> []"
    and intr: "\<not> (block_first mode \<and> ib_flags io AND KIOBUF_FLAG_INTR_BLOCKFIRST \<noteq> 0)"
  shows "\<exists>io'. kiobuf_read_c k env io n mode = Done ((KE_OK, take n (contents io)), io')
    \<and> contents io' = (if mode AND KIO_PEEK = 0 then drop n (contents io) else contents io)
    \<and> ring_ok io' \<and> io_free io' \<and> ib_maxsize io' = ib_maxsize io \<and> ib_size io' = ib_size io"
proof -
  obtain l where l: "krwlock_beginread (io_self k) [] (ib_rwlock io) = Done (KE_OK, l)" "one_reader l"
    using beginread_free free unfolding io_free_def by blast
  let ?io = "io\<lparr>ib_rwlock := l\<rparr>" and ?d = "take n (contents io)"
  have one: "one_reader (ib_rwlock ?io)" and idle: "sig_idle (ib_nfull ?io)" "sig_idle (ib_avail ?io)" and ok1: "ring_ok ?io"
    using l free ok by (simp_all add: io_free_def)
  obtain r where run: "kiobuf_read_c k env io n mode = read_end k mode ?io r ?d"
    and r: "contents io = [] \<or> contents (ring_get io r) = drop n (contents io) \<and> ring_ok (ring_get io r)"
  proof (cases "contents io = []")
    case True
    then have "read_pass mode ?io n [] = R_empty (ib_rpos ?io) ?d n"
      using maxread_contents [OF ok1] by (simp add: read_pass_def)
    then show thesis using that [of "ib_rpos ?io"] True mode l by (simp add: kiobuf_read_c_def read_loop.simps Let_def)
  next
    case False
    obtain r left where pass: "read_pass mode ?io n [] \<in> {R_end r ?d, R_empty r ?d left}"
      "contents (ring_get ?io r) = drop n (contents io)" "ring_ok (ring_get ?io r)"
      using read_pass_result [OF ok1, of n mode] False n intr by auto
    have "?d \<noteq> []" using False n by simp
    then show thesis
      using that [of r] pass mode l by (auto simp: kiobuf_read_c_def read_loop.simps Let_def ring_get_lock)
  qed
  show ?thesis
  proof (cases "mode AND KIO_PEEK \<noteq> 0 \<or> ?d = []")
    case True
    then show ?thesis using read_peek_ok [OF one idle True, of k r] run n ok by auto
  next
    case False
    then show ?thesis using read_end_ok [OF one idle, of mode ?d k r] run r by (auto simp: ring_get_lock)
  qed
qed

text \<open>
  C32. \<open>kiobuf_read\<close> takes from the front: on a buffer that nobody else uses, a read of at most \<open>n\<close> bytes that
  does not have to wait (not blocking, or blocking for the first byte with bytes there and no interrupt
  pending) returns the first \<open>n\<close> bytes of the buffer, or all if there are fewer. They are removed, unless
  \<open>KIO_PEEK\<close> is given; the rest stays in order, and the buffer stays well-formed and unlocked.
\<close>

theorem kiobuf_read_takes:
  assumes "ring_ok io" and "io_free io" and "0 < n"
    and "mode AND KIO_BLOCKFIRST = 0 \<or> block_first mode \<and> contents io \<noteq> []"
    and "\<not> (block_first mode \<and> ib_flags io AND KIOBUF_FLAG_INTR_BLOCKFIRST \<noteq> 0)"
  shows "\<exists>io'. kiobuf_read_c k env io n mode = Done ((KE_OK, take n (contents io)), io')
    \<and> contents io' = (if mode AND KIO_PEEK = 0 then drop n (contents io) else contents io) \<and> ring_ok io' \<and> io_free io'"
  using read_takes [OF assms] by blast

definition io_example :: kiobuf where
  "io_example = (kiobuf_init_ex 4)\<lparr>ib_buffer := [9, 8, 1, 2], ib_rpos := 2, ib_wpos := 1\<rparr>"

lemma io_example_ok: "ring_ok io_example" "io_free io_example" "contents io_example = [1, 2, 9]"
  using kiobuf_init_free [of 4] by (simp_all add: io_example_def ring_ok_def io_free_def ib_size_def contents_def kiobuf_init_ex_def)

theorem kiobuf_read_takes_witness:
  "\<exists>io'. kiobuf_read_c kio_example [] io_example 2 KIO_BLOCKNONE = Done ((KE_OK, [1, 2]), io') \<and> contents io' = [9]"
  using kiobuf_read_takes [OF io_example_ok(1,2), of 2 KIO_BLOCKNONE kio_example "[]"]
  by (auto simp: io_example_ok block_first_def)

section \<open>The buffer as a queue of bytes\<close>

text \<open>A client's sequence of calls, run on any implementation of a queue: the number of bytes the writes
  reported, the bytes the reads returned, and the queue at the end. The first error ends the run.\<close>

datatype qop = Push "u8 list" | Pop nat

fun queue_run ::
  "('s \<Rightarrow> u8 list \<Rightarrow> ((kerrno \<times> nat) \<times> 's) outcome) \<Rightarrow> ('s \<Rightarrow> nat \<Rightarrow> ((kerrno \<times> u8 list) \<times> 's) outcome)
    \<Rightarrow> 's \<Rightarrow> qop list \<Rightarrow> ((nat \<times> u8 list) \<times> 's) outcome" where
  "queue_run put get s [] = Done ((0, []), s)"
| "queue_run put get s (Push d # ops) = andthen (put s d) (\<lambda>((e, n), s).
     if KE_ISERR e then Done ((n, []), s)
     else andthen (queue_run put get s ops) (\<lambda>((m, out), s). Done ((n + m, out), s)))"
| "queue_run put get s (Pop n # ops) = andthen (get s n) (\<lambda>((e, d), s).
     if KE_ISERR e then Done ((0, d), s)
     else andthen (queue_run put get s ops) (\<lambda>((m, out), s). Done ((m, d @ out), s)))"

text \<open>The specification: a list of bounded length, with \<open>None\<close> for a write that does not fit (and for
  calls with nothing to write or read).\<close>

fun fifo_run :: "nat \<Rightarrow> u8 list \<Rightarrow> qop list \<Rightarrow> ((nat \<times> u8 list) \<times> u8 list) option" where
  "fifo_run cap q [] = Some ((0, []), q)"
| "fifo_run cap q (Push d # ops) = (if d = [] \<or> cap < length q + length d then None
     else map_option (\<lambda>((m, out), q). ((length d + m, out), q)) (fifo_run cap (q @ d) ops))"
| "fifo_run cap q (Pop n # ops) = (if n = 0 then None
     else map_option (\<lambda>((m, out), r). ((m, take n q @ out), r)) (fifo_run cap (drop n q) ops))"

locale byte_queue =
  fixes good :: "'s \<Rightarrow> bool" and bytes :: "'s \<Rightarrow> u8 list" and capacity :: "'s \<Rightarrow> nat"
    and put :: "'s \<Rightarrow> u8 list \<Rightarrow> ((kerrno \<times> nat) \<times> 's) outcome"
    and get :: "'s \<Rightarrow> nat \<Rightarrow> ((kerrno \<times> u8 list) \<times> 's) outcome"
  assumes put: "good s \<Longrightarrow> d \<noteq> [] \<Longrightarrow> length (bytes s) + length d \<le> capacity s
      \<Longrightarrow> \<exists>s'. put s d = Done ((KE_OK, length d), s') \<and> good s' \<and> bytes s' = bytes s @ d \<and> capacity s' = capacity s"
    and get: "good s \<Longrightarrow> 0 < n
      \<Longrightarrow> \<exists>s'. get s n = Done ((KE_OK, take n (bytes s)), s') \<and> good s' \<and> bytes s' = drop n (bytes s) \<and> capacity s' = capacity s"
begin

lemma run_refines:
  "good s \<Longrightarrow> fifo_run (capacity s) (bytes s) ops = Some (r, q)
    \<Longrightarrow> \<exists>s'. queue_run put get s ops = Done (r, s') \<and> good s' \<and> bytes s' = q \<and> capacity s' = capacity s"
proof (induction ops arbitrary: s r)
  case Nil
  then show ?case by auto
next
  case (Cons x xs)
  show ?case
  proof (cases x)
    case (Push d)
    then obtain m out where q: "fifo_run (capacity s) (bytes s @ d) xs = Some ((m, out), q)" "r = (length d + m, out)"
      and fits: "d \<noteq> []" "length (bytes s) + length d \<le> capacity s"
      using Cons.prems(2) by (auto split: if_splits)
    obtain s1 where s1: "put s d = Done ((KE_OK, length d), s1)" "good s1" "bytes s1 = bytes s @ d" "capacity s1 = capacity s"
      using put [OF Cons.prems(1) fits] by blast
    with Cons.IH [of s1] q(1) obtain s' where "queue_run put get s1 xs = Done ((m, out), s')" "good s'" "bytes s' = q"
      "capacity s' = capacity s" by auto
    then show ?thesis using Push q s1 by simp
  next
    case (Pop n)
    then obtain m out where q: "fifo_run (capacity s) (drop n (bytes s)) xs = Some ((m, out), q)" "r = (m, take n (bytes s) @ out)"
      and n: "0 < n"
      using Cons.prems(2) by (auto split: if_splits)
    obtain s1 where s1: "get s n = Done ((KE_OK, take n (bytes s)), s1)" "good s1" "bytes s1 = drop n (bytes s)"
      "capacity s1 = capacity s"
      using get [OF Cons.prems(1) n] by blast
    with Cons.IH [of s1] q(1) obtain s' where "queue_run put get s1 xs = Done ((m, out), s')" "good s'" "bytes s' = q"
      "capacity s' = capacity s" by auto
    then show ?thesis using Pop q s1 by simp
  qed
qed

end

text \<open>A buffer of its full size, which can no longer grow.\<close>

definition io_full_size :: "kiobuf \<Rightarrow> bool" where
  "io_full_size io \<longleftrightarrow> ring_ok io \<and> io_free io \<and> ib_size io = ib_maxsize io"

interpretation iobuf: byte_queue "\<lambda>io. io_mem k \<and> io_full_size io" contents ib_maxsize
  "\<lambda>io d. kiobuf_write_c k [] io d KIO_BLOCKNONE" "\<lambda>io n. kiobuf_read_c k [] io n KIO_BLOCKNONE" for k
proof
  fix io and d :: "u8 list"
  assume good: "io_mem k \<and> io_full_size io" and d: "d \<noteq> []" and fits: "length (contents io) + length d \<le> ib_maxsize io"
  then have ok: "ring_ok io" "io_free io" "io_mem k" "ib_size io = ib_maxsize io" by (auto simp: io_full_size_def)
  have "write_room io d" using fits maxwrite_contents [OF ok(1)] ok(4) by (auto simp: write_room_def)
  from write_appends [OF ok(1,2) this d ok(3), of "[]" KIO_BLOCKNONE] good
  show "\<exists>io'. kiobuf_write_c k [] io d KIO_BLOCKNONE = Done ((KE_OK, length d), io') \<and> (io_mem k \<and> io_full_size io')
      \<and> contents io' = contents io @ d \<and> ib_maxsize io' = ib_maxsize io"
    by (auto simp: io_full_size_def ring_ok_def)
next
  fix io and n :: nat
  assume good: "io_mem k \<and> io_full_size io" and "0 < n"
  with read_takes [of io n KIO_BLOCKNONE k "[]"]
  show "\<exists>io'. kiobuf_read_c k [] io n KIO_BLOCKNONE = Done ((KE_OK, take n (contents io)), io') \<and> (io_mem k \<and> io_full_size io')
      \<and> contents io' = drop n (contents io) \<and> ib_maxsize io' = ib_maxsize io"
    by (auto simp: io_full_size_def block_first_def)
qed

text \<open>
  C5. The I/O buffer implements a bounded queue of bytes: on a buffer of its full size, every sequence of
  non-blocking reads and writes in which each write fits the room left by the bytes not yet read gives
  the same bytes and the same byte counts as the list specification, and the buffer then holds the bytes the
  specification holds.
\<close>

theorem kiobuf_refines_fifo:
  assumes "io_mem k" and "io_full_size io" and "fifo_run (ib_maxsize io) (contents io) ops = Some (r, q)"
  shows "\<exists>io'. queue_run (\<lambda>io d. kiobuf_write_c k [] io d KIO_BLOCKNONE) (\<lambda>io n. kiobuf_read_c k [] io n KIO_BLOCKNONE) io ops
      = Done (r, io') \<and> io_full_size io' \<and> contents io' = q"
  using iobuf.run_refines [of k io ops r q] assms by blast

theorem kiobuf_refines_fifo_witness:
  "\<exists>io'. queue_run (\<lambda>io d. kiobuf_write_c kio_example [] io d KIO_BLOCKNONE) (\<lambda>io n. kiobuf_read_c kio_example [] io n KIO_BLOCKNONE)
      io_example [Pop 2, Push [3, 4, 5], Pop 3] = Done ((Suc (Suc (Suc 0)), [1, 2, 9, 3, 4]), io')
    \<and> io_full_size io' \<and> contents io' = [5]"
proof (rule kiobuf_refines_fifo)
  show "io_mem kio_example" by (simp add: kio_example_def)
  show "io_full_size io_example" using io_example_ok by (simp add: io_full_size_def io_example_def ib_size_def kiobuf_init_ex_def)
  have "ib_maxsize io_example = 4" by (simp add: io_example_def kiobuf_init_ex_def)
  then show "fifo_run (ib_maxsize io_example) (contents io_example) [Pop 2, Push [3, 4, 5], Pop 3]
      = Some ((Suc (Suc (Suc 0)), [1, 2, 9, 3, 4]), [5])"
    by (simp add: io_example_ok)
qed

section \<open>Where the buffer falls short\<close>

lemma write_no_growth:
  assumes "ib_size io = ib_maxsize io" and "ib_size io + length buf < 2 ^ 32" and "max_write \<noteq> 0"
  shows "write_grow k io buf max_write = Inr io"
proof -
  have "(ib_size io + (length buf - max_write)) mod 2 ^ 32 = ib_size io + (length buf - max_write)"
    using assms(2) by (intro mod_less) simp
  then have same: "min ((ib_size io + (length buf - max_write)) mod 2 ^ 32) (ib_maxsize io) = ib_size io"
    using assms(1) by (simp add: min_def)
  show ?thesis unfolding write_grow_def Let_def same using assms(3) by simp
qed

text \<open>The two passes of a write that fills the lower part of the buffer and goes on over the unread bytes.\<close>

lemma write_over_passes:
  assumes "ib_size io = ib_maxsize io" "ib_wpos io = ib_size io" "0 < ib_rpos io" "ib_rpos io < length buf"
    "length buf \<le> ib_size io" "ib_size io + length buf < 2 ^ 32"
  shows "\<exists>b. write_full k KIO_BLOCKNONE io buf 0 (ib_rpos io) False
      = Some (W_end KE_OK (io\<lparr>ib_buffer := b, ib_wpos := length buf\<rparr>) (length buf))
    \<and> length b = ib_size io \<and> take (length buf - ib_rpos io) (drop (ib_rpos io) b) = drop (ib_rpos io) buf"
proof -
  let ?r = "ib_rpos io"
  define b1 where "b1 = blit 0 (take ?r buf) (ib_buffer io)"
  let ?io1 = "io\<lparr>ib_buffer := b1, ib_wpos := ?r\<rparr>"
  have b1: "length b1 = ib_size io" using assms(4,5) by (simp add: b1_def ib_size_def)
  then have s1: "ib_size ?io1 = ib_size io" by (simp add: ib_size_def)
  have none: "write_upper io buf = 0" using assms by (simp add: write_upper_def)
  have up: "write_upper ?io1 (drop ?r buf) = length buf - ?r" using assms(4,5) s1 by (simp add: write_upper_def)
  have g: "write_grow k io buf ?r = Inr io" "write_grow k ?io1 (drop ?r buf) ?r = Inr ?io1"
    using assms s1 by (auto intro!: write_no_growth)
  have low: "min ?r (length buf) = ?r" and ne: "(length buf = ?r) = False" "(length buf = 0) = False" using assms(3,4) by auto
  have same: "io\<lparr>ib_buffer := blit (ib_wpos io) (take 0 buf) (ib_buffer io), ib_wpos := ib_wpos io + 0\<rparr> = io"
    by (simp add: blit_def)
  have "write_full k KIO_BLOCKNONE io buf 0 ?r False = write_full k KIO_BLOCKNONE ?io1 (drop ?r buf) ?r ?r True"
    unfolding write_full.simps [of k KIO_BLOCKNONE io] g(1) none Let_def sum.case same b1_def
    using assms(2,3) low ne by simp
  also have "\<dots> = Some (W_end KE_OK (?io1\<lparr>ib_buffer := blit ?r (drop ?r buf) b1, ib_wpos := length buf\<rparr>) (length buf))"
    unfolding write_full.simps [of k KIO_BLOCKNONE ?io1] g(2) up Let_def sum.case using assms(4) by simp
  finally show ?thesis
    using drop_take_blit [of ?r ?r "drop ?r buf" b1] b1 assms(4,5) by (intro exI [of _ "blit ?r (drop ?r buf) b1"]) simp
qed

text \<open>
  C33. A write that does not fit destroys data. Take a buffer that cannot grow, filled up to its end and
  read up to some point. A non-blocking write of more bytes than have been read reports that all of them were
  written; but then the buffer holds only the bytes by which the write exceeded the free space. The bytes that
  were waiting to be read are gone, and so is the first part of the write.
\<close>

theorem kiobuf_write_overwrites:
  assumes "io_full_size io" and "ib_wpos io = ib_size io" and "0 < ib_rpos io" and "ib_rpos io < length buf"
    and "length buf \<le> ib_size io" and "ib_size io + length buf < 2 ^ 32"
  shows "\<exists>io'. kiobuf_write_c k env io buf KIO_BLOCKNONE = Done ((KE_OK, length buf), io') \<and> contents io' = drop (ib_rpos io) buf"
proof -
  obtain l1 e l2 where l: "krwlock_beginwrite (io_self k) [] (ib_rwlock io) = Done (KE_OK, l1)"
    "krwlock_endwrite (io_resched k) l1 = Done (e, l2)" "rw_free l2"
    using write_guard.enter_leave assms(1) unfolding io_full_size_def io_free_def by blast
  let ?io = "io\<lparr>ib_rwlock := l1\<rparr>"
  obtain b where b: "write_full k KIO_BLOCKNONE ?io buf 0 (ib_rpos io) False
      = Some (W_end KE_OK (?io\<lparr>ib_buffer := b, ib_wpos := length buf\<rparr>) (length buf))"
    "length b = ib_size io" "take (length buf - ib_rpos io) (drop (ib_rpos io) b) = drop (ib_rpos io) buf"
    using write_over_passes [of ?io buf k] assms by (auto simp: io_full_size_def)
  let ?io2 = "?io\<lparr>ib_buffer := b, ib_wpos := length buf\<rparr>"
  have "kiobuf_maxwrite ?io (ib_rpos ?io) = ib_rpos io" using assms by (simp add: kiobuf_maxwrite_def)
  then have "kiobuf_write_c k env io buf KIO_BLOCKNONE = write_end k KE_OK ?io2 (length buf)"
    using l(1) b(1) assms(3) by (simp add: kiobuf_write_c_def write_loop.simps Let_def)
  moreover obtain a where "write_end k KE_OK ?io2 (length buf) = Done ((KE_OK, length buf), (ring_wrap ?io2)\<lparr>ib_avail := a, ib_rwlock := l2\<rparr>)"
    using write_end_ok [of ?io2 k e l2 "length buf" KE_OK] l assms(1,3,4) by (force simp: io_full_size_def io_free_def)
  moreover have "contents (ring_wrap ?io2) = drop (ib_rpos io) buf"
    using b assms(4,5) by (simp add: ring_wrap_def contents_def ib_size_def)
  ultimately show ?thesis by simp
qed

definition io_last :: kiobuf where
  "io_last = (kiobuf_init_ex 4)\<lparr>ib_buffer := [1, 2, 3, 4], ib_rpos := 3, ib_wpos := 4\<rparr>"

theorem kiobuf_write_overwrites_witness:
  "contents io_last = [4] \<and> (\<exists>io'. kiobuf_write_c kio_example [] io_last [5, 6, 7, 8] KIO_BLOCKNONE
      = Done ((KE_OK, length [5, 6, 7, 8 :: u8]), io') \<and> contents io' = [8])"
proof -
  have "io_full_size io_last"
    using kiobuf_init_free [of 4] by (simp add: io_full_size_def io_last_def ring_ok_def io_free_def ib_size_def kiobuf_init_ex_def)
  from kiobuf_write_overwrites [OF this, of "[5, 6, 7, 8]" kio_example "[]"] show ?thesis
    by (simp add: io_last_def ib_size_def contents_def)
qed

text \<open>
  \<open>kiobuf_unread\<close> never releases the lock it takes: once it has returned, every further read and
  write of the buffer waits for the lock, whoever calls and in whatever mode.
\<close>

theorem kiobuf_unread_keeps_lock:
  assumes "io_free io" and "kiobuf_unread_c k io n = Done (r, io')"
  shows "kiobuf_read_c k1 env io' m mode = Blocked \<and> kiobuf_write_c k1 env io' buf mode = Blocked"
proof -
  let ?l = "krwlock_setwriter (ib_rwlock io)"
  have "krwlock_beginwrite (io_self k) [] (ib_rwlock io) = Done (KE_OK, ?l)"
    using assms(1) by (simp add: io_free_def rw_free_def beginwrite_idle)
  then have "ib_rwlock io' = ?l"
    using assms(2) by (auto simp: kiobuf_unread_c_def unread_core_def Let_def split: if_splits)
  moreover have "rw_idle ?l" "krwlock_iswritelocked ?l" "\<not> rw_dead ?l" using assms(1) by (simp_all add: io_free_def rw_free_def)
  ultimately show ?thesis
    by (simp add: kiobuf_read_c_def kiobuf_write_c_def read_loop.simps write_loop.simps beginread_idle beginwrite_idle)
qed

theorem kiobuf_unread_keeps_lock_witness:
  "\<exists>r io'. kiobuf_unread_c kio_example io_example 1 = Done (r, io') \<and> kiobuf_read_c kio_example [] io' 1 KIO_BLOCKNONE = Blocked"
proof -
  obtain l where l: "krwlock_beginwrite (io_self kio_example) [] (ib_rwlock io_example) = Done (KE_OK, l)"
    using io_example_ok(2) by (auto simp: io_free_def rw_free_def beginwrite_idle)
  have "\<exists>r io'. kiobuf_unread_c kio_example io_example 1 = Done (r, io')"
    using l by (auto simp: kiobuf_unread_c_def unread_core_def Let_def io_example_def kiobuf_maxwrite_def)
  with kiobuf_unread_keeps_lock [OF io_example_ok(2), of kio_example 1] show ?thesis by blast
qed

end
