(* ===== verification/AddrTree.thy ===== *)
theory AddrTree
  imports Prelude
begin

text \<open>
  The address trees of \<^verbatim>\<open>include/kos/addrtree.h\<close> and the address space trees of
  \<^verbatim>\<open>src/kernel/shm-map.c.inl\<close>, which are two instances of one algorithm: a binary tree of disjoint address
  ranges in which every node stands at the centre (the semi address) of an aligned block of addresses.
\<close>

section \<open>Data\<close>

record 'a leaf =
  at_map_min :: u32
  at_map_max :: u32
  at_data :: 'a

text \<open>A node with its branches for the addresses below and from the semi address on; the root pointer is
  the whole tree.\<close>

datatype 'a addrtree = Null | Head "'a addrtree" "'a leaf" "'a addrtree"

definition ADDRTREE_ADDRSEMI_INIT :: u32 where "ADDRTREE_ADDRSEMI_INIT = 0x80000000"

definition ADDRTREE_ADDRLEVEL_INIT :: nat where "ADDRTREE_ADDRLEVEL_INIT = 31"

definition ADDRTREE_MAPMIN :: "u32 \<Rightarrow> nat \<Rightarrow> u32" where
  "ADDRTREE_MAPMIN semi level = semi AND NOT (push_bit level 1)"

definition ADDRTREE_MAPMAX :: "u32 \<Rightarrow> nat \<Rightarrow> u32" where
  "ADDRTREE_MAPMAX semi level = semi OR (push_bit level 1 - 1)"

definition ADDRTREE_NEXTMIN :: "u32 \<Rightarrow> nat \<Rightarrow> u32" where
  "ADDRTREE_NEXTMIN semi level = (semi AND NOT (push_bit level 1)) OR push_bit (level - 1) 1"

definition ADDRTREE_NEXTMAX :: "u32 \<Rightarrow> nat \<Rightarrow> u32" where
  "ADDRTREE_NEXTMAX semi level = semi OR push_bit (level - 1) 1"

text \<open>The tests the routines share: the leaf lies in the block, two leaves overlap, a leaf covers an address.\<close>

definition fits :: "'a leaf \<Rightarrow> u32 \<Rightarrow> nat \<Rightarrow> bool" where
  "fits x semi level \<longleftrightarrow> at_map_min x \<ge> ADDRTREE_MAPMIN semi level \<and> at_map_max x \<le> ADDRTREE_MAPMAX semi level"

definition overlaps :: "'a leaf \<Rightarrow> 'a leaf \<Rightarrow> bool" where
  "overlaps new iter \<longleftrightarrow> at_map_min new \<le> at_map_max iter \<and> at_map_max new \<ge> at_map_min iter"

definition covers :: "'a leaf \<Rightarrow> u32 \<Rightarrow> bool" where
  "covers x a \<longleftrightarrow> a \<ge> at_map_min x \<and> a \<le> at_map_max x"

section \<open>Insertion\<close>

text \<open>\<open>__addrtree_reinsertall\<close>, with the insertion at the block of the root as its argument.\<close>

primrec reinsertall :: "('a addrtree \<Rightarrow> 'a leaf \<Rightarrow> 'a addrtree option) \<Rightarrow> 'a addrtree \<Rightarrow> 'a addrtree \<Rightarrow> 'a addrtree option" where
  "reinsertall ins proot Null = Some proot"
| "reinsertall ins proot (Head mn x mx) =
     Option.bind (reinsertall ins proot mn) (\<lambda>p. Option.bind (reinsertall ins p mx) (\<lambda>p. ins p x))"

lemma reinsertall_mono [partial_function_mono]:
  assumes "\<And>p x. mono_option (\<lambda>f. C p x f)"
  shows "mono_option (\<lambda>f. reinsertall (\<lambda>p x. C p x f) proot t)"
  by (induction t arbitrary: proot) (auto intro!: partial_function_mono assms)

partial_function (option) addrtree_insert :: "'a addrtree \<Rightarrow> 'a leaf \<Rightarrow> u32 \<Rightarrow> nat \<Rightarrow> 'a addrtree option" where
  "addrtree_insert proot newleaf semi level =
     (if \<not> fits newleaf semi level then None
      else case proot of
        Null \<Rightarrow> Some (Head Null newleaf Null)
      | Head mn iter mx \<Rightarrow>
          if overlaps newleaf iter then None
          else if covers newleaf semi then
            if \<not> (at_map_max iter \<le> semi \<or> at_map_min iter \<ge> semi) then None
            else reinsertall (\<lambda>p x. addrtree_insert p x semi level) (Head Null newleaf Null) (Head mn iter mx)
          else if level = 0 then None
          else if at_map_max newleaf < semi then
            Option.bind (addrtree_insert mn newleaf (ADDRTREE_NEXTMIN semi level) (level - 1)) (\<lambda>mn. Some (Head mn iter mx))
          else if \<not> at_map_min newleaf > semi then None
          else Option.bind (addrtree_insert mx newleaf (ADDRTREE_NEXTMAX semi level) (level - 1)) (\<lambda>mx. Some (Head mn iter mx)))"

partial_function (option) kshmbranch_insert :: "'a addrtree \<Rightarrow> 'a leaf \<Rightarrow> u32 \<Rightarrow> nat \<Rightarrow> (kerrno \<times> 'a addrtree) option" where
  "kshmbranch_insert pcurr newleaf semi level =
     (if \<not> fits newleaf semi level then None
      else case pcurr of
        Null \<Rightarrow> Some (KE_OK, Head Null newleaf Null)
      | Head mn iter mx \<Rightarrow>
          if overlaps newleaf iter then Some (KE_EXISTS, pcurr)
          else if covers newleaf semi then
            if \<not> (at_map_max iter \<le> semi \<or> at_map_min iter \<ge> semi) then None
            else Option.bind (reinsertall (\<lambda>p x. Option.bind (kshmbranch_insert p x semi level) (\<lambda>(e, p). if e = KE_OK then Some p else None))
                (Head Null newleaf Null) (Head mn iter mx)) (\<lambda>p. Some (KE_OK, p))
          else if level = 0 then None
          else if at_map_max newleaf < semi then
            Option.bind (kshmbranch_insert mn newleaf (ADDRTREE_NEXTMIN semi level) (level - 1)) (\<lambda>(e, mn). Some (e, Head mn iter mx))
          else if \<not> at_map_min newleaf > semi then None
          else Option.bind (kshmbranch_insert mx newleaf (ADDRTREE_NEXTMAX semi level) (level - 1)) (\<lambda>(e, mx). Some (e, Head mn iter mx)))"

section \<open>The other operations\<close>

fun addrtree_tryinsert :: "'a addrtree \<Rightarrow> 'a leaf \<Rightarrow> u32 \<Rightarrow> nat \<Rightarrow> (kerrno \<times> 'a addrtree) option" where
  "addrtree_tryinsert Null newleaf semi level =
     (if \<not> fits newleaf semi level then None else Some (KE_OK, Head Null newleaf Null))"
| "addrtree_tryinsert (Head mn iter mx) newleaf semi level =
     (if \<not> fits newleaf semi level then None
      else if overlaps newleaf iter then Some (KE_EXISTS, Head mn iter mx)
      else if covers newleaf semi then
        if \<not> (at_map_max iter \<le> semi \<or> at_map_min iter \<ge> semi) then None
        else Option.bind (reinsertall (\<lambda>p x. addrtree_insert p x semi level) (Head Null newleaf Null) (Head mn iter mx))
          (\<lambda>p. Some (KE_OK, p))
      else if level = 0 then None
      else if at_map_max newleaf < semi then
        Option.bind (addrtree_tryinsert mn newleaf (ADDRTREE_NEXTMIN semi level) (level - 1)) (\<lambda>(e, mn). Some (e, Head mn iter mx))
      else if \<not> at_map_min newleaf > semi then None
      else Option.bind (addrtree_tryinsert mx newleaf (ADDRTREE_NEXTMAX semi level) (level - 1)) (\<lambda>(e, mx). Some (e, Head mn iter mx)))"

definition addrtree_pop :: "'a addrtree \<Rightarrow> u32 \<Rightarrow> nat \<Rightarrow> ('a leaf \<times> 'a addrtree) option" where
  "addrtree_pop proot semi level =
     (case proot of
        Null \<Rightarrow> None
      | Head mn root mx \<Rightarrow>
          Option.bind (reinsertall (\<lambda>p x. addrtree_insert p x semi level) Null mn) (\<lambda>p.
          Option.bind (reinsertall (\<lambda>p x. addrtree_insert p x semi level) p mx) (\<lambda>p. Some (root, p))))"

text \<open>Locating an address. The outer \<open>None\<close> is a failed assertion, \<open>Some None\<close> the result \<open>NULL\<close>.\<close>

fun addrtree_locate :: "'a addrtree \<Rightarrow> u32 \<Rightarrow> u32 \<Rightarrow> nat \<Rightarrow> 'a leaf option option" where
  "addrtree_locate Null address semi level = Some None"
| "addrtree_locate (Head mn root mx) address semi level =
     (if \<not> (at_map_min root \<le> at_map_max root \<and> fits root semi level) then None
      else if covers root address then Some (Some root)
      else if level = 0 then None
      else if address < semi then addrtree_locate mn address (ADDRTREE_NEXTMIN semi level) (level - 1)
      else addrtree_locate mx address (ADDRTREE_NEXTMAX semi level) (level - 1))"

text \<open>\<open>addrtree_plocate\<close> returns the place of the pointer to the leaf: the turns on the way from the root
  (\<open>True\<close> is the branch of the larger addresses), with the semi address and the level there.\<close>

fun addrtree_plocate :: "'a addrtree \<Rightarrow> u32 \<Rightarrow> u32 \<Rightarrow> nat \<Rightarrow> (bool list \<times> u32 \<times> nat) option option" where
  "addrtree_plocate Null address semi level = Some None"
| "addrtree_plocate (Head mn root mx) address semi level =
     (if \<not> (at_map_min root \<le> at_map_max root \<and> fits root semi level) then None
      else if covers root address then Some (Some ([], semi, level))
      else if level = 0 then None
      else if address < semi
      then Option.bind (addrtree_plocate mn address (ADDRTREE_NEXTMIN semi level) (level - 1))
        (\<lambda>r. Some (map_option (\<lambda>(path, at). (False # path, at)) r))
      else Option.bind (addrtree_plocate mx address (ADDRTREE_NEXTMAX semi level) (level - 1))
        (\<lambda>r. Some (map_option (\<lambda>(path, at). (True # path, at)) r)))"

fun at_path :: "bool list \<Rightarrow> ('a addrtree \<Rightarrow> ('b \<times> 'a addrtree) option) \<Rightarrow> 'a addrtree \<Rightarrow> ('b \<times> 'a addrtree) option" where
  "at_path [] f t = f t"
| "at_path (False # path) f (Head mn x mx) = Option.bind (at_path path f mn) (\<lambda>(r, mn). Some (r, Head mn x mx))"
| "at_path (True # path) f (Head mn x mx) = Option.bind (at_path path f mx) (\<lambda>(r, mx). Some (r, Head mn x mx))"
| "at_path (d # path) f Null = None"

definition addrtree_remove :: "'a addrtree \<Rightarrow> u32 \<Rightarrow> u32 \<Rightarrow> nat \<Rightarrow> ('a leaf option \<times> 'a addrtree) option" where
  "addrtree_remove proot address semi level =
     Option.bind (addrtree_plocate proot address semi level) (\<lambda>remove_head.
       case remove_head of
         None \<Rightarrow> Some (None, proot)
       | Some (path, semi, level) \<Rightarrow>
           Option.bind (at_path path (\<lambda>t. addrtree_pop t semi level) proot) (\<lambda>(x, t). Some (Some x, t)))"

definition kshmbranch_reinsert :: "u32 \<Rightarrow> nat \<Rightarrow> 'a addrtree \<Rightarrow> 'a leaf \<Rightarrow> 'a addrtree option" where
  "kshmbranch_reinsert semi level p x =
     Option.bind (kshmbranch_insert p x semi level) (\<lambda>(e, p). if e = KE_OK then Some p else None)"

definition kshmbranch_popone :: "'a addrtree \<Rightarrow> u32 \<Rightarrow> nat \<Rightarrow> ('a leaf \<times> 'a addrtree) option" where
  "kshmbranch_popone proot semi level =
     (case proot of
        Null \<Rightarrow> None
      | Head mn root mx \<Rightarrow>
          Option.bind (reinsertall (kshmbranch_reinsert semi level) Null mn) (\<lambda>p.
          Option.bind (reinsertall (kshmbranch_reinsert semi level) p mx) (\<lambda>p. Some (root, p))))"

fun kshmbranch_remove_loop :: "'a addrtree \<Rightarrow> u32 \<Rightarrow> u32 \<Rightarrow> nat \<Rightarrow> ('a leaf option \<times> 'a addrtree) option" where
  "kshmbranch_remove_loop Null addr semi level = Some (None, Null)"
| "kshmbranch_remove_loop (Head mn iter mx) addr semi level =
     (if \<not> (addr \<ge> ADDRTREE_MAPMIN semi level \<and> addr \<le> ADDRTREE_MAPMAX semi level) then None
      else if covers iter addr
      then Option.bind (kshmbranch_popone (Head mn iter mx) semi level) (\<lambda>(x, t). Some (Some x, t))
      else if level = 0 then None
      else if addr < semi
      then Option.bind (kshmbranch_remove_loop mn addr (ADDRTREE_NEXTMIN semi level) (level - 1)) (\<lambda>(r, mn). Some (r, Head mn iter mx))
      else Option.bind (kshmbranch_remove_loop mx addr (ADDRTREE_NEXTMAX semi level) (level - 1)) (\<lambda>(r, mx). Some (r, Head mn iter mx)))"

definition kshmbranch_remove :: "'a addrtree \<Rightarrow> u32 \<Rightarrow> ('a leaf option \<times> 'a addrtree) option" where
  "kshmbranch_remove proot addr = kshmbranch_remove_loop proot addr ADDRTREE_ADDRSEMI_INIT ADDRTREE_ADDRLEVEL_INIT"

text \<open>The kernel's lookups are the loops of \<open>addrtree_locate\<close> and \<open>addrtree_plocate\<close>, the first two from the top.\<close>

definition kshmbranch_locate :: "'a addrtree \<Rightarrow> u32 \<Rightarrow> 'a leaf option option" where
  "kshmbranch_locate root addr = addrtree_locate root addr ADDRTREE_ADDRSEMI_INIT ADDRTREE_ADDRLEVEL_INIT"

definition kshmbranch_plocateat :: "'a addrtree \<Rightarrow> u32 \<Rightarrow> u32 \<Rightarrow> nat \<Rightarrow> (bool list \<times> u32 \<times> nat) option option" where
  "kshmbranch_plocateat proot addr semi level = addrtree_plocate proot addr semi level"

definition kshmbranch_plocate :: "'a addrtree \<Rightarrow> u32 \<Rightarrow> (bool list \<times> u32) option option" where
  "kshmbranch_plocate proot addr = map_option (map_option (\<lambda>(path, semi, level). (path, semi)))
     (addrtree_plocate proot addr ADDRTREE_ADDRSEMI_INIT ADDRTREE_ADDRLEVEL_INIT)"

section \<open>Blocks of addresses\<close>

text \<open>A semi address at a level: the bit of the level is the lowest one set.\<close>

definition grid :: "u32 \<Rightarrow> nat \<Rightarrow> bool" where
  "grid s l \<longleftrightarrow> l < 32 \<and> bit s l \<and> (\<forall>i<l. \<not> bit s i)"

lemma unat_pow2: "l < 32 \<Longrightarrow> unat (2 ^ l :: u32) = 2 ^ l"
  using unsigned_of_nat [of "2 ^ l", where 'b = 32] by (simp add: take_bit_nat_eq_self power_strict_increasing)

lemma grid_mod: 
  assumes "grid s l" shows "unat s mod 2 ^ Suc l = 2 ^ l"
proof -
  have "take_bit (Suc l) s = 2 ^ l"
    using assms by (intro bit_eqI) (auto simp: grid_def bit_simps less_Suc_eq)
  then have "unat (take_bit (Suc l) s) = unat (2 ^ l :: u32)" by simp
  then show ?thesis using assms by (simp add: grid_def unsigned_take_bit_eq take_bit_eq_mod unat_pow2 del: power_Suc flip: take_bit_eq_mod)
qed

lemma grid_bounds:
  assumes "grid s l" shows "2 ^ l \<le> unat s" "unat s + 2 ^ l \<le> 2 ^ 32"
proof -
  have l: "l < 32" using assms by (simp add: grid_def)
  show "2 ^ l \<le> unat s" using grid_mod [OF assms] mod_less_eq_dividend [of "unat s" "2 ^ Suc l"] by simp
  define q where "q = unat s div 2 ^ Suc l"
  have s: "unat s = q * 2 ^ Suc l + 2 ^ l" using grid_mod [OF assms] div_mult_mod_eq [of "unat s" "2 ^ Suc l"] by (simp add: q_def)
  have p: "(2::nat) ^ 32 = 2 ^ (31 - l) * 2 ^ Suc l" using l by (simp flip: power_add)
  have "unat s < 2 ^ 32" using unsigned_less [of s, where 'a = nat] by simp
  then have "q * 2 ^ Suc l < 2 ^ (31 - l) * 2 ^ Suc l" unfolding s p by linarith
  then have "q < 2 ^ (31 - l)" by (simp only: mult_less_cancel2)
  then have "(q + 1) * 2 ^ Suc l \<le> 2 ^ (31 - l) * 2 ^ Suc l" by (intro mult_right_mono) auto
  then show "unat s + 2 ^ l \<le> 2 ^ 32" unfolding s p by simp
qed

lemma grid_block:
  assumes "grid s l"
  shows "unat (ADDRTREE_MAPMIN s l) = unat s - 2 ^ l" "unat (ADDRTREE_MAPMAX s l) = unat s + 2 ^ l - 1"
proof -
  have l: "l < 32" "bit s l" "\<forall>i<l. \<not> bit s i" using assms by (auto simp: grid_def)
  have "ADDRTREE_MAPMIN s l = s - 2 ^ l"
    using l unset_bit_eq [of l s] by (simp add: ADDRTREE_MAPMIN_def unset_bit_eq_and_not)
  moreover have "(2 ^ l :: u32) \<le> s" using grid_bounds [OF assms] l(1) by (simp add: word_le_nat_alt unat_pow2)
  ultimately show "unat (ADDRTREE_MAPMIN s l) = unat s - 2 ^ l" using l(1) by (simp add: unat_sub unat_pow2)
  have "push_bit l 1 - 1 = (mask l :: u32)" by (simp add: mask_eq_exp_minus_1)
  moreover have "s + mask l = s OR mask l" using l by (intro disjunctive_add) (auto simp: bit_mask_iff)
  ultimately have "ADDRTREE_MAPMAX s l = s + mask l" by (simp only: ADDRTREE_MAPMAX_def)
  moreover have "unat (mask l :: u32) = 2 ^ l - 1"
  proof -
    have "(2 ^ l :: u32) \<noteq> 0" using unat_pow2 [OF l(1)] by (metis power_not_zero unsigned_0 zero_neq_numeral)
    then show ?thesis using unat_pow2 [OF l(1)] by (simp add: mask_eq_exp_minus_1 unat_minus_one)
  qed
  moreover have "unat s + (2 ^ l - 1) < 2 ^ 32" using grid_bounds [OF assms] by (metis Nat.add_diff_assoc One_nat_def Suc_pred' add_gr_0 diff_less less_le_trans one_le_numeral one_le_power zero_less_one zero_less_power zero_less_numeral)
  ultimately show "unat (ADDRTREE_MAPMAX s l) = unat s + 2 ^ l - 1"
    by (simp add: unat_word_ariths)
qed

lemma grid_next:
  assumes "grid s l" and "0 < l"
  shows "grid (ADDRTREE_NEXTMIN s l) (l - 1)" "grid (ADDRTREE_NEXTMAX s l) (l - 1)"
    "unat (ADDRTREE_NEXTMIN s l) = unat s - 2 ^ (l - 1)" "unat (ADDRTREE_NEXTMAX s l) = unat s + 2 ^ (l - 1)"
proof -
  obtain k where k: "l = Suc k" using assms(2) by (cases l) auto
  have l: "l < 32" "bit s l" "\<forall>i<l. \<not> bit s i" using assms(1) by (auto simp: grid_def)
  show "grid (ADDRTREE_NEXTMIN s l) (l - 1)" "grid (ADDRTREE_NEXTMAX s l) (l - 1)"
    using l k by (auto simp: grid_def ADDRTREE_NEXTMIN_def ADDRTREE_NEXTMAX_def bit_simps)
  have b: "2 * 2 ^ k \<le> unat s" "unat s + 2 * 2 ^ k \<le> 2 ^ 32" using grid_bounds [OF assms(1)] k by auto
  have p: "unat (2 ^ k :: u32) = 2 ^ k" using l k by (simp add: unat_pow2)
  have "ADDRTREE_NEXTMAX s l = s + 2 ^ k"
    using l k set_bit_eq [of k s] by (simp add: ADDRTREE_NEXTMAX_def set_bit_eq_or)
  moreover have "unat s + 2 ^ k < 2 ^ 32" using b by (metis add_less_cancel_left dual_order.strict_trans1 mult_2 less_add_same_cancel1 zero_less_numeral zero_less_power)
  ultimately show "unat (ADDRTREE_NEXTMAX s l) = unat s + 2 ^ (l - 1)"
    using k p by (simp add: unat_word_ariths)
  have "\<not> bit (unset_bit l s) k" using l k by (simp add: bit_simps)
  then have "ADDRTREE_NEXTMIN s l = unset_bit l s + 2 ^ k"
    using k set_bit_eq [of k "unset_bit l s"] by (simp add: ADDRTREE_NEXTMIN_def set_bit_eq_or unset_bit_eq_and_not)
  moreover have "unset_bit l s = ADDRTREE_MAPMIN s l" by (simp add: ADDRTREE_MAPMIN_def unset_bit_eq_and_not)
  moreover have "unat (ADDRTREE_MAPMIN s l) = unat s - 2 * 2 ^ k" using grid_block(1) [OF assms(1)] k by simp
  moreover have "unat s - 2 * 2 ^ k + 2 ^ k = unat s - 2 ^ k" using b by simp
  moreover have "unat s - 2 ^ k < 2 ^ 32" using unsigned_less [of s, where 'a = nat] by (simp add: less_imp_diff_less)
  ultimately show "unat (ADDRTREE_NEXTMIN s l) = unat s - 2 ^ (l - 1)"
    using k p by (simp add: unat_word_ariths)
qed

lemma grid_init: "grid ADDRTREE_ADDRSEMI_INIT ADDRTREE_ADDRLEVEL_INIT" "unat ADDRTREE_ADDRSEMI_INIT = 2 ^ 31"
proof -
  have "bit ADDRTREE_ADDRSEMI_INIT i \<longleftrightarrow> i = 31" for i
    using bit_exp_iff [of 31 i, where 'a = u32] by (auto simp: ADDRTREE_ADDRSEMI_INIT_def)
  then show "grid ADDRTREE_ADDRSEMI_INIT ADDRTREE_ADDRLEVEL_INIT" by (simp add: grid_def ADDRTREE_ADDRLEVEL_INIT_def)
  show "unat ADDRTREE_ADDRSEMI_INIT = 2 ^ 31" by (simp add: ADDRTREE_ADDRSEMI_INIT_def)
qed

section \<open>Well-formed trees\<close>

text \<open>The leaves a kernel maps: non-empty, and made of whole pages (only the lowest bit matters here).\<close>

definition leaf_ok :: "'a leaf \<Rightarrow> bool" where
  "leaf_ok x \<longleftrightarrow> at_map_min x \<le> at_map_max x \<and> even (unat (at_map_min x)) \<and> odd (unat (at_map_max x))"

primrec leaves :: "'a addrtree \<Rightarrow> 'a leaf list" where
  "leaves Null = []"
| "leaves (Head mn x mx) = leaves mn @ x # leaves mx"

fun tree_ok :: "u32 \<Rightarrow> nat \<Rightarrow> 'a addrtree \<Rightarrow> bool" where
  "tree_ok s l Null = True"
| "tree_ok s l (Head mn x mx) = (leaf_ok x \<and> fits x s l \<and> (l = 0 \<longrightarrow> mn = Null \<and> mx = Null)
     \<and> tree_ok (ADDRTREE_NEXTMIN s l) (l - 1) mn \<and> tree_ok (ADDRTREE_NEXTMAX s l) (l - 1) mx)"

definition apart :: "'a leaf set \<Rightarrow> bool" where
  "apart S \<longleftrightarrow> (\<forall>x\<in>S. \<forall>y\<in>S. x \<noteq> y \<longrightarrow> \<not> overlaps x y)"

definition good :: "u32 \<Rightarrow> nat \<Rightarrow> 'a addrtree \<Rightarrow> bool" where
  "good s l t \<longleftrightarrow> tree_ok s l t \<and> distinct (leaves t) \<and> apart (set (leaves t))"

definition fresh :: "'a leaf \<Rightarrow> 'a addrtree \<Rightarrow> bool" where
  "fresh x t \<longleftrightarrow> (\<forall>y\<in>set (leaves t). \<not> overlaps x y)"

lemma overlaps_sym: "overlaps x y = overlaps y x"
  by (auto simp: overlaps_def)

lemma overlaps_self: "leaf_ok x \<Longrightarrow> overlaps x x"
  by (simp add: leaf_ok_def overlaps_def)

lemma overlaps_covers: "covers x a \<Longrightarrow> covers y a \<Longrightarrow> overlaps x y"
  by (auto simp: covers_def overlaps_def)

lemma apartD: "apart S \<Longrightarrow> x \<in> S \<Longrightarrow> y \<in> S \<Longrightarrow> x \<noteq> y \<Longrightarrow> \<not> overlaps x y"
  by (simp add: apart_def)

lemmas word_nat = word_le_nat_alt word_less_nat_alt

text \<open>The block of a node is split between its branches at the semi address.\<close>

lemma block_min:
  assumes "grid s l" and "0 < l"
  shows "fits x (ADDRTREE_NEXTMIN s l) (l - 1) \<and> at_map_min x \<le> at_map_max x
    \<longleftrightarrow> fits x s l \<and> at_map_max x < s \<and> at_map_min x \<le> at_map_max x"
proof -
  obtain k where k: "l = Suc k" using assms(2) by (cases l) auto
  have "2 * 2 ^ k \<le> unat s" "0 < unat s" using grid_bounds(1) [OF assms(1)] k by (auto intro: gr0I)
  then show ?thesis
    using grid_block [OF assms(1)] grid_next(3,4) [OF assms] grid_block [OF grid_next(1) [OF assms]] k
    unfolding fits_def word_nat by auto
qed

lemma block_max:
  assumes "grid s l" and "0 < l"
  shows "fits x (ADDRTREE_NEXTMAX s l) (l - 1) \<and> at_map_min x \<le> at_map_max x
    \<longleftrightarrow> fits x s l \<and> s \<le> at_map_min x \<and> at_map_min x \<le> at_map_max x"
proof -
  obtain k where k: "l = Suc k" using assms(2) by (cases l) auto
  have "2 * 2 ^ k \<le> unat s" using grid_bounds(1) [OF assms(1)] k by auto
  then show ?thesis
    using grid_block [OF assms(1)] grid_next(3,4) [OF assms] grid_block [OF grid_next(2) [OF assms]] k
    unfolding fits_def word_nat by auto
qed

text \<open>In a block of two addresses every leaf covers the semi address.\<close>

lemma covers_level_0:
  assumes "grid s 0" and "leaf_ok x" and "fits x s 0"
  shows "covers x s"
proof -
  have "odd (unat s)" using grid_mod [OF assms(1)] by (simp add: odd_iff_mod_2_eq_one)
  then show ?thesis
    using grid_block [OF assms(1)] assms(2,3) unfolding fits_def leaf_ok_def covers_def word_nat by simp presburger
qed

lemma tree_ok_leaves:
  "grid s l \<Longrightarrow> tree_ok s l t \<Longrightarrow> x \<in> set (leaves t) \<Longrightarrow> leaf_ok x \<and> fits x s l"
proof (induction s l t rule: tree_ok.induct)
  case (2 s l mn y mx)
  show ?case
  proof (cases "x = y")
    case False
    then have l: "0 < l" using "2.prems" by (auto intro: gr0I)
    then show ?thesis
      using "2.IH" "2.prems" False grid_next(1,2) [OF "2.prems"(1) l] block_min [OF "2.prems"(1) l, of x] block_max [OF "2.prems"(1) l, of x]
      by (auto simp: leaf_ok_def)
  qed (use "2.prems" in simp)
qed simp

text \<open>Leaves of the branches lie on their side of the semi address.\<close>

lemma tree_ok_sides:
  assumes "grid s l" and "tree_ok s l (Head mn y mx)"
  shows "x \<in> set (leaves mn) \<Longrightarrow> at_map_max x < s" "x \<in> set (leaves mx) \<Longrightarrow> s \<le> at_map_min x"
proof -
  assume x: "x \<in> set (leaves mn)"
  then have l: "0 < l" using assms by (auto intro: gr0I)
  show "at_map_max x < s"
    using tree_ok_leaves [of _ "l - 1" mn x, OF grid_next(1) [OF assms(1) l]] assms x block_min [OF assms(1) l, of x]
    by (auto simp: leaf_ok_def)
next
  assume x: "x \<in> set (leaves mx)"
  then have l: "0 < l" using assms by (auto intro: gr0I)
  show "s \<le> at_map_min x"
    using tree_ok_leaves [of _ "l - 1" mx x, OF grid_next(2) [OF assms(1) l]] assms x block_max [OF assms(1) l, of x]
    by (auto simp: leaf_ok_def)
qed

section \<open>Insertion keeps the tree\<close>

lemma reinsertall_leaves:
  assumes step: "\<And>p z. Q p \<Longrightarrow> ok z \<Longrightarrow> fresh z p \<Longrightarrow> \<exists>p'. ins p z = Some p' \<and> Q p' \<and> set (leaves p') = insert z (set (leaves p))"
    and "Q p" and "\<forall>z\<in>set (leaves t). ok z \<and> fresh z p" and "distinct (leaves t)" and "apart (set (leaves t))"
  shows "\<exists>p'. reinsertall ins p t = Some p' \<and> Q p' \<and> set (leaves p') = set (leaves p) \<union> set (leaves t)"
  using assms(2-)
proof (induction t arbitrary: p)
  case (Head mn x mx)
  have sub: "apart (set (leaves mn))" "apart (set (leaves mx))" using Head.prems by (auto simp: apart_def)
  obtain p1 where p1: "reinsertall ins p mn = Some p1" "Q p1" "set (leaves p1) = set (leaves p) \<union> set (leaves mn)"
    using Head.IH(1) [of p] Head.prems sub by auto
  moreover have "\<not> overlaps z y" if "z \<in> set (leaves mx)" "y \<in> set (leaves mn)" for z y
    using Head.prems(3,4) that apartD [of "set (leaves (Head mn x mx))" z y] by auto
  then have "\<forall>z\<in>set (leaves mx). ok z \<and> fresh z p1" using Head.prems(2) p1(3) by (auto simp: fresh_def)
  ultimately obtain p2 where p2: "reinsertall ins p1 mx = Some p2" "Q p2"
    "set (leaves p2) = set (leaves p) \<union> set (leaves mn) \<union> set (leaves mx)"
    using Head.IH(2) [of p1] Head.prems sub by auto
  moreover have "ok x" "fresh x p2" using Head.prems p2(3) by (auto simp: fresh_def apart_def)
  ultimately obtain p3 where "ins p2 x = Some p3" "Q p3" "set (leaves p3) = insert x (set (leaves p2))"
    using step by blast
  then show ?case using p1 p2 by auto
qed simp

definition inserts :: "('a addrtree \<Rightarrow> 'a leaf \<Rightarrow> u32 \<Rightarrow> nat \<Rightarrow> 'a addrtree option) \<Rightarrow> u32 \<Rightarrow> nat \<Rightarrow> bool" where
  "inserts ins s l \<longleftrightarrow> (\<forall>t x. good s l t \<longrightarrow> leaf_ok x \<longrightarrow> fits x s l \<longrightarrow> fresh x t
     \<longrightarrow> (\<exists>t'. ins t x s l = Some t' \<and> good s l t' \<and> set (leaves t') = insert x (set (leaves t))))"

locale branch_insert =
  fixes ins :: "'a addrtree \<Rightarrow> 'a leaf \<Rightarrow> u32 \<Rightarrow> nat \<Rightarrow> 'a addrtree option"
  assumes ins_null: "fits x s l \<Longrightarrow> ins Null x s l = Some (Head Null x Null)"
    and ins_perfect: "fits x s l \<Longrightarrow> \<not> overlaps x y \<Longrightarrow> covers x s \<Longrightarrow> leaf_ok y
      \<Longrightarrow> ins (Head mn y mx) x s l = reinsertall (\<lambda>p z. ins p z s l) (Head Null x Null) (Head mn y mx)"
    and ins_below: "fits x s l \<Longrightarrow> \<not> overlaps x y \<Longrightarrow> at_map_max x < s \<Longrightarrow> 0 < l
      \<Longrightarrow> ins (Head mn y mx) x s l = Option.bind (ins mn x (ADDRTREE_NEXTMIN s l) (l - 1)) (\<lambda>mn. Some (Head mn y mx))"
    and ins_above: "fits x s l \<Longrightarrow> \<not> overlaps x y \<Longrightarrow> s < at_map_min x \<Longrightarrow> at_map_min x \<le> at_map_max x \<Longrightarrow> 0 < l
      \<Longrightarrow> ins (Head mn y mx) x s l = Option.bind (ins mx x (ADDRTREE_NEXTMAX s l) (l - 1)) (\<lambda>mx. Some (Head mn y mx))"
begin

text \<open>A leaf that does not cover the semi address goes to one of the branches; the root stays.\<close>

lemma insert_branch:
  assumes grid: "grid s l" and IH: "0 < l \<Longrightarrow> inserts ins (ADDRTREE_NEXTMIN s l) (l - 1) \<and> inserts ins (ADDRTREE_NEXTMAX s l) (l - 1)"
    and t: "good s l (Head mn y mx)" and x: "leaf_ok x" "fits x s l" "fresh x (Head mn y mx)" and nc: "\<not> covers x s"
  shows "\<exists>mn' mx'. ins (Head mn y mx) x s l = Some (Head mn' y mx') \<and> good s l (Head mn' y mx')
    \<and> set (leaves (Head mn' y mx')) = insert x (set (leaves (Head mn y mx)))"
proof -
  have l: "0 < l" using covers_level_0 [of s x] grid x nc by (auto intro: gr0I)
  have no: "\<not> overlaps x y" and fr: "fresh x mn" "fresh x mx" using x by (auto simp: fresh_def)
  have sub: "good (ADDRTREE_NEXTMIN s l) (l - 1) mn" "good (ADDRTREE_NEXTMAX s l) (l - 1) mx"
    using t by (auto simp: good_def apart_def)
  have new: "x \<notin> set (leaves (Head mn y mx))" using x overlaps_self by (fastforce simp: fresh_def)
  consider "at_map_max x < s" | "s < at_map_min x" using nc by (auto simp: covers_def)
  then show ?thesis
  proof cases
    case 1
    then have "fits x (ADDRTREE_NEXTMIN s l) (l - 1)" using block_min [OF grid l, of x] x by (simp add: leaf_ok_def)
    then obtain mn' where mn': "ins mn x (ADDRTREE_NEXTMIN s l) (l - 1) = Some mn'" "good (ADDRTREE_NEXTMIN s l) (l - 1) mn'"
      "set (leaves mn') = insert x (set (leaves mn))"
      using IH [OF l] sub x fr unfolding inserts_def by blast
    have "good s l (Head mn' y mx)"
      using t mn' new x l by (auto simp: good_def apart_def fresh_def overlaps_sym)
    then show ?thesis using ins_below [OF x(2) no 1 l] mn' by auto
  next
    case 2
    then have "fits x (ADDRTREE_NEXTMAX s l) (l - 1)" using block_max [OF grid l, of x] x by (simp add: leaf_ok_def)
    then obtain mx' where mx': "ins mx x (ADDRTREE_NEXTMAX s l) (l - 1) = Some mx'" "good (ADDRTREE_NEXTMAX s l) (l - 1) mx'"
      "set (leaves mx') = insert x (set (leaves mx))"
      using IH [OF l] sub x fr unfolding inserts_def by blast
    have "good s l (Head mn y mx')"
      using t mx' new x l by (auto simp: good_def apart_def fresh_def overlaps_sym)
    then show ?thesis using ins_above [OF x(2) no 2 _ l] x mx' by (auto simp: leaf_ok_def)
  qed
qed

lemma insert_good: "grid s l \<Longrightarrow> inserts ins s l"
proof (induction l arbitrary: s rule: less_induct)
  case (less l)
  have IH: "0 < l \<Longrightarrow> inserts ins (ADDRTREE_NEXTMIN s l) (l - 1) \<and> inserts ins (ADDRTREE_NEXTMAX s l) (l - 1)"
    using less.IH grid_next [OF less.prems] by simp
  show ?case unfolding inserts_def
  proof (intro allI impI)
    fix t :: "'a addrtree" and x
    assume t: "good s l t" and x: "leaf_ok x" "fits x s l" "fresh x t"
    show "\<exists>t'. ins t x s l = Some t' \<and> good s l t' \<and> set (leaves t') = insert x (set (leaves t))"
    proof (cases t)
      case Null
      then show ?thesis using x ins_null by (auto simp: good_def apart_def)
    next
      case (Head mn y mx)
      show ?thesis
      proof (cases "covers x s")
        case False
        then show ?thesis using insert_branch [OF less.prems IH] t x Head by blast
      next
        case True
        let ?Q = "\<lambda>p. good s l p \<and> (\<exists>mn mx. p = Head mn x mx)" and ?ok = "\<lambda>z. leaf_ok z \<and> fits z s l"
        have no: "\<not> overlaps x y" "leaf_ok y" using x t Head by (auto simp: fresh_def good_def)
        have "\<exists>p'. reinsertall (\<lambda>p z. ins p z s l) (Head Null x Null) t = Some p' \<and> ?Q p'
            \<and> set (leaves p') = set (leaves (Head Null x Null)) \<union> set (leaves t)"
        proof (rule reinsertall_leaves [where ok = ?ok])
          fix p z
          assume p: "?Q p" and z: "?ok z" "fresh z p"
          then obtain mn' mx' where p': "p = Head mn' x mx'" by blast
          then have "\<not> covers z s" using z True overlaps_covers [of z s x] by (auto simp: fresh_def)
          then show "\<exists>p'. ins p z s l = Some p' \<and> ?Q p' \<and> set (leaves p') = insert z (set (leaves p))"
            using insert_branch [OF less.prems IH, of mn' x mx' z] p z p' by blast
        next
          show "?Q (Head Null x Null)" using x by (auto simp: good_def apart_def)
          show "\<forall>z\<in>set (leaves t). ?ok z \<and> fresh z (Head Null x Null)"
            using tree_ok_leaves [OF less.prems] t x by (auto simp: good_def fresh_def overlaps_sym)
        qed (use t in \<open>auto simp: good_def\<close>)
        then show ?thesis using ins_perfect [OF x(2) no(1) True no(2)] Head by auto
      qed
    qed
  qed
qed

end

section \<open>The two insertions are one\<close>

lemma reinsertall_weaken:
  assumes "\<And>p x r. f p x = Some r \<Longrightarrow> g p x = Some r"
  shows "reinsertall f p t = Some r \<Longrightarrow> reinsertall g p t = Some r"
proof (induction t arbitrary: p r)
  case (Head mn x mx)
  then obtain p1 p2 where "reinsertall f p mn = Some p1" "reinsertall f p1 mx = Some p2" "f p2 x = Some r"
    by (auto split: Option.bind_splits)
  then show ?case using Head.IH assms by simp
qed simp

lemma kshmbranch_of_addrtree:
  assumes "addrtree_insert t x s l = Some r"
  shows "kshmbranch_insert t x s l = Some (KE_OK, r)"
proof (rule addrtree_insert.raw_induct [OF _ assms], goal_cases)
  case (1 ins t x s l r)
  have re: "reinsertall (\<lambda>p x. ins p x s l') p u = Some r'
      \<Longrightarrow> reinsertall (\<lambda>p x. Option.bind (kshmbranch_insert p x s l') (\<lambda>(e, p). if e = KE_OK then Some p else None)) p u = Some r'" for p u r' l'
    by (rule reinsertall_weaken) (simp_all add: 1(1))
  show ?case
  proof (cases t)
    case Null
    then show ?thesis using 1(2) by (subst kshmbranch_insert.simps) (auto split: if_splits)
  next
    case (Head mn y mx)
    then show ?thesis
      using 1(2) by (subst kshmbranch_insert.simps)
        (auto simp del: reinsertall.simps simp: re dest!: 1(1) split: if_split_asm Option.bind_split_asm)
  qed
qed

lemma addrtree_of_kshmbranch:
  assumes "kshmbranch_insert t x s l = Some er"
  shows "fst er = KE_OK \<longrightarrow> addrtree_insert t x s l = Some (snd er)"
proof (rule kshmbranch_insert.raw_induct [OF _ assms], goal_cases)
  case (1 ins t x s l er)
  have re: "reinsertall (\<lambda>p x. Option.bind (ins p x s l) (\<lambda>(e, p). if e = KE_OK then Some p else None)) p u = Some r'
      \<Longrightarrow> reinsertall (\<lambda>p x. addrtree_insert p x s l) p u = Some r'" for p u r'
    by (rule reinsertall_weaken) (auto dest: 1(1) split: Option.bind_splits if_splits)
  show ?case
  proof (cases t)
    case Null
    then show ?thesis using 1(2) by (subst addrtree_insert.simps) (auto split: if_splits)
  next
    case (Head mn y mx)
    then show ?thesis
      using 1(2) by (subst addrtree_insert.simps)
        (auto simp del: reinsertall.simps dest!: re 1(1) split: if_splits Option.bind_splits)
  qed
qed

interpretation addrtree: branch_insert addrtree_insert
proof
  fix x :: "'a leaf" and s l
  assume "fits x s l"
  then show "addrtree_insert Null x s l = Some (Head Null x Null)" by (subst addrtree_insert.simps) simp
next
  fix x y :: "'a leaf" and s l mn mx
  assume "fits x s l" "\<not> overlaps x y" "covers x s" "leaf_ok y"
  moreover from this have "at_map_max y \<le> s \<or> s \<le> at_map_min y" by (auto simp: overlaps_def covers_def)
  ultimately show "addrtree_insert (Head mn y mx) x s l
      = reinsertall (\<lambda>p z. addrtree_insert p z s l) (Head Null x Null) (Head mn y mx)"
    by (subst addrtree_insert.simps) (simp del: reinsertall.simps)
next
  fix x y :: "'a leaf" and s l mn mx
  assume "fits x s l" "\<not> overlaps x y" "at_map_max x < s" "0 < l"
  then show "addrtree_insert (Head mn y mx) x s l
      = Option.bind (addrtree_insert mn x (ADDRTREE_NEXTMIN s l) (l - 1)) (\<lambda>mn. Some (Head mn y mx))"
    by (subst addrtree_insert.simps) (auto simp: covers_def)
next
  fix x y :: "'a leaf" and s l mn mx
  assume "fits x s l" "\<not> overlaps x y" "s < at_map_min x" "at_map_min x \<le> at_map_max x" "0 < l"
  then show "addrtree_insert (Head mn y mx) x s l
      = Option.bind (addrtree_insert mx x (ADDRTREE_NEXTMAX s l) (l - 1)) (\<lambda>mx. Some (Head mn y mx))"
    by (subst addrtree_insert.simps) (auto simp: covers_def)
qed

section \<open>Lookup and removal\<close>

definition in_block :: "u32 \<Rightarrow> u32 \<Rightarrow> nat \<Rightarrow> bool" where
  "in_block a s l \<longleftrightarrow> ADDRTREE_MAPMIN s l \<le> a \<and> a \<le> ADDRTREE_MAPMAX s l"

lemma in_block_next:
  assumes "grid s l" and "0 < l" and "in_block a s l"
  shows "a < s \<Longrightarrow> in_block a (ADDRTREE_NEXTMIN s l) (l - 1)" "\<not> a < s \<Longrightarrow> in_block a (ADDRTREE_NEXTMAX s l) (l - 1)"
  using block_min [OF assms(1,2), of "\<lparr>at_map_min = a, at_map_max = a, at_data = undefined\<rparr>"]
    block_max [OF assms(1,2), of "\<lparr>at_map_min = a, at_map_max = a, at_data = undefined\<rparr>"] assms(3)
  by (auto simp: in_block_def fits_def)

lemma in_block_init: "in_block a ADDRTREE_ADDRSEMI_INIT ADDRTREE_ADDRLEVEL_INIT"
proof -
  have "unat a < 2 ^ 32" using unsigned_less [of a, where 'a = nat] by simp
  then show ?thesis
    using grid_block [OF grid_init(1)] grid_init(2) by (simp add: in_block_def word_nat ADDRTREE_ADDRLEVEL_INIT_def)
qed

lemma covers_level_0_block:
  assumes "grid s 0" and "leaf_ok x" and "fits x s 0" and "in_block a s 0"
  shows "covers x a"
proof -
  have "odd (unat s)" using grid_mod [OF assms(1)] by (simp add: odd_iff_mod_2_eq_one)
  then show ?thesis
    using grid_block [OF assms(1)] assms(2-) unfolding fits_def leaf_ok_def covers_def in_block_def word_nat by simp presburger
qed

lemma good_sub:
  assumes "good s l (Head mn y mx)"
  shows "good (ADDRTREE_NEXTMIN s l) (l - 1) mn" "good (ADDRTREE_NEXTMAX s l) (l - 1) mx" "leaf_ok y" "fits y s l"
  using assms by (auto simp: good_def apart_def)

text \<open>On which side an address can be covered.\<close>

lemma covers_side:
  assumes "grid s l" and "tree_ok s l (Head mn y mx)" and "covers x a"
  shows "x \<in> set (leaves mn) \<Longrightarrow> a < s" "x \<in> set (leaves mx) \<Longrightarrow> \<not> a < s"
  using tree_ok_sides [OF assms(1,2), of x] assms(3) by (auto simp: covers_def)

lemma locate_correct:
  "grid s l \<Longrightarrow> good s l t \<Longrightarrow> in_block a s l
    \<Longrightarrow> \<exists>r. addrtree_locate t a s l = Some r \<and> (\<forall>x. r = Some x \<longleftrightarrow> x \<in> set (leaves t) \<and> covers x a)"
proof (induction t a s l rule: addrtree_locate.induct)
  case (2 mn y mx a s l)
  note g = good_sub [OF "2.prems"(2)]
  have ok: "tree_ok s l (Head mn y mx)" "apart (set (leaves (Head mn y mx)))" using "2.prems" by (auto simp: good_def)
  show ?case
  proof (cases "covers y a")
    case True
    have "x = y" if "x \<in> set (leaves (Head mn y mx))" "covers x a" for x
      using apartD [OF ok(2) that(1), of y] overlaps_covers [OF that(2) True] by auto
    then show ?thesis using True g(3,4) by (auto simp: leaf_ok_def)
  next
    case False
    then have l: "0 < l" using covers_level_0_block [of s y a] "2.prems" g by (auto intro: gr0I)
    note side = covers_side [OF "2.prems"(1) ok(1)] and nx = grid_next(1,2) [OF "2.prems"(1) l] in_block_next [OF "2.prems"(1) l "2.prems"(3)]
    show ?thesis
    proof (cases "a < s")
      case True
      then obtain r where "addrtree_locate mn a (ADDRTREE_NEXTMIN s l) (l - 1) = Some r"
        "\<forall>x. r = Some x \<longleftrightarrow> x \<in> set (leaves mn) \<and> covers x a"
        using "2.IH"(1) g False l nx by (auto simp: leaf_ok_def)
      then show ?thesis using True False l g(3,4) side by (auto simp: leaf_ok_def)
    next
      case ge: False
      then obtain r where "addrtree_locate mx a (ADDRTREE_NEXTMAX s l) (l - 1) = Some r"
        "\<forall>x. r = Some x \<longleftrightarrow> x \<in> set (leaves mx) \<and> covers x a"
        using "2.IH"(2) g False l nx by (auto simp: leaf_ok_def)
      then show ?thesis using ge False l g(3,4) side by (auto simp: leaf_ok_def)
    qed
  qed
qed simp

lemma kshmbranch_reinsert_eq: "kshmbranch_reinsert s l p x = addrtree_insert p x s l"
proof (cases "addrtree_insert p x s l")
  case None
  then show ?thesis
    using addrtree_of_kshmbranch [of p x s l] by (auto simp: kshmbranch_reinsert_def split: Option.bind_splits)
next
  case (Some r)
  then show ?thesis by (simp add: kshmbranch_reinsert_def kshmbranch_of_addrtree)
qed

lemma popone_eq: "kshmbranch_popone t s l = addrtree_pop t s l"
  unfolding kshmbranch_popone_def addrtree_pop_def kshmbranch_reinsert_eq ..

lemma insert_at:
  assumes "grid s l" and "good s l t" and "leaf_ok x" and "fits x s l" and "fresh x t"
  shows "\<exists>t'. addrtree_insert t x s l = Some t' \<and> good s l t' \<and> set (leaves t') = insert x (set (leaves t))"
  using addrtree.insert_good [OF assms(1)] assms(2-) unfolding inserts_def by blast

lemma pop_correct:
  assumes grid: "grid s l" and t: "good s l (Head mn y mx)"
  shows "\<exists>p. addrtree_pop (Head mn y mx) s l = Some (y, p) \<and> good s l p \<and> set (leaves p) = set (leaves mn) \<union> set (leaves mx)"
proof -
  let ?ins = "\<lambda>p x. addrtree_insert p x s l" and ?ok = "\<lambda>z. leaf_ok z \<and> fits z s l"
  have step: "\<exists>p'. ?ins p z = Some p' \<and> good s l p' \<and> set (leaves p') = insert z (set (leaves p))"
    if "good s l p" "?ok z" "fresh z p" for p z
    using insert_at [OF grid] that by blast
  have "tree_ok s l (Head mn y mx)" using t by (simp add: good_def)
  then have ok: "\<forall>z\<in>set (leaves (Head mn y mx)). ?ok z" using tree_ok_leaves [OF grid] by blast
  have a: "apart (set (leaves (Head mn y mx)))" "distinct (leaves (Head mn y mx))" using t by (auto simp: good_def)
  obtain p1 where p1: "reinsertall ?ins Null mn = Some p1" "good s l p1" "set (leaves p1) = set (leaves mn)"
    using reinsertall_leaves [where Q = "good s l" and ok = ?ok and ins = ?ins and p = Null and t = mn, OF step] ok a
    by (auto simp: good_def fresh_def apart_def)
  have "\<not> overlaps z x" if "z \<in> set (leaves mx)" "x \<in> set (leaves mn)" for z x
    using apartD [OF a(1), of z x] a(2) that by auto
  then have "\<forall>z\<in>set (leaves mx). ?ok z \<and> fresh z p1" using ok p1(3) by (auto simp: fresh_def)
  then obtain p2 where "reinsertall ?ins p1 mx = Some p2" "good s l p2" "set (leaves p2) = set (leaves mn) \<union> set (leaves mx)"
    using reinsertall_leaves [where Q = "good s l" and ok = ?ok and ins = ?ins and p = p1 and t = mx, OF step p1(2)] a p1(3)
    by (auto simp: apart_def)
  then show ?thesis using p1(1) by (auto simp: addrtree_pop_def)
qed

text \<open>Replacing a branch by one with some of its leaves keeps the tree well-formed.\<close>

lemma good_shrink:
  assumes "good s l (Head mn y mx)" and "0 < l"
  shows "good (ADDRTREE_NEXTMIN s l) (l - 1) mn' \<Longrightarrow> set (leaves mn') \<subseteq> set (leaves mn) \<Longrightarrow> good s l (Head mn' y mx)"
    "good (ADDRTREE_NEXTMAX s l) (l - 1) mx' \<Longrightarrow> set (leaves mx') \<subseteq> set (leaves mx) \<Longrightarrow> good s l (Head mn y mx')"
  using assms unfolding good_def apart_def by (simp, blast)+

text \<open>A removal that passes the root goes on in one of the branches.\<close>

lemma addrtree_remove_down:
  assumes "at_map_min y \<le> at_map_max y" and "fits y s l" and "\<not> covers y a" and "0 < l"
  shows "a < s \<Longrightarrow> addrtree_remove (Head mn y mx) a s l
      = Option.bind (addrtree_remove mn a (ADDRTREE_NEXTMIN s l) (l - 1)) (\<lambda>(r, mn). Some (r, Head mn y mx))"
    "\<not> a < s \<Longrightarrow> addrtree_remove (Head mn y mx) a s l
      = Option.bind (addrtree_remove mx a (ADDRTREE_NEXTMAX s l) (l - 1)) (\<lambda>(r, mx). Some (r, Head mn y mx))"
proof -
  have go: "Option.bind (Option.bind m f) g = Option.bind m (\<lambda>x. Option.bind (f x) g)" for m :: "'x option" and f :: "'x \<Rightarrow> 'y option" and g :: "'y \<Rightarrow> 'z option"
    by (cases m) auto
  show "a < s \<Longrightarrow> addrtree_remove (Head mn y mx) a s l
      = Option.bind (addrtree_remove mn a (ADDRTREE_NEXTMIN s l) (l - 1)) (\<lambda>(r, mn). Some (r, Head mn y mx))"
    using assms unfolding addrtree_remove_def
    by (cases "addrtree_plocate mn a (ADDRTREE_NEXTMIN s l) (l - 1)") (auto simp: go case_prod_unfold split: option.split)
  show "\<not> a < s \<Longrightarrow> addrtree_remove (Head mn y mx) a s l
      = Option.bind (addrtree_remove mx a (ADDRTREE_NEXTMAX s l) (l - 1)) (\<lambda>(r, mx). Some (r, Head mn y mx))"
    using assms unfolding addrtree_remove_def
    by (cases "addrtree_plocate mx a (ADDRTREE_NEXTMAX s l) (l - 1)") (auto simp: go case_prod_unfold split: option.split)
qed

lemma remove_correct:
  "grid s l \<Longrightarrow> good s l t \<Longrightarrow> in_block a s l
    \<Longrightarrow> \<exists>r t'. kshmbranch_remove_loop t a s l = Some (r, t') \<and> addrtree_remove t a s l = Some (r, t')
      \<and> good s l t' \<and> set (leaves t') = {x \<in> set (leaves t). \<not> covers x a} \<and> (\<forall>x. r = Some x \<longleftrightarrow> x \<in> set (leaves t) \<and> covers x a)"
proof (induction t a s l rule: kshmbranch_remove_loop.induct)
  case (1 a s l)
  then show ?case by (simp add: addrtree_remove_def)
next
  case (2 mn y mx a s l)
  note g = good_sub [OF "2.prems"(2)] and grid = "2.prems"(1)
  have ok: "tree_ok s l (Head mn y mx)" "apart (set (leaves (Head mn y mx)))" "distinct (leaves (Head mn y mx))"
    using "2.prems" by (auto simp: good_def)
  have blk: "ADDRTREE_MAPMIN s l \<le> a" "a \<le> ADDRTREE_MAPMAX s l" using "2.prems"(3) by (auto simp: in_block_def)
  have y: "at_map_min y \<le> at_map_max y" using g(3) by (simp add: leaf_ok_def)
  show ?case
  proof (cases "covers y a")
    case True
    have only: "x = y" if "x \<in> set (leaves (Head mn y mx))" "covers x a" for x
      using apartD [OF ok(2) that(1), of y] overlaps_covers [OF that(2) True] by auto
    obtain p where p: "addrtree_pop (Head mn y mx) s l = Some (y, p)" "good s l p" "set (leaves p) = set (leaves mn) \<union> set (leaves mx)"
      using pop_correct [OF grid "2.prems"(2)] by blast
    have "set (leaves p) = {x \<in> set (leaves (Head mn y mx)). \<not> covers x a}" using p(3) True only ok(3) by auto
    moreover have "kshmbranch_remove_loop (Head mn y mx) a s l = Some (Some y, p)"
      "addrtree_remove (Head mn y mx) a s l = Some (Some y, p)"
      using p(1) True blk y g(4) by (simp_all add: addrtree_remove_def popone_eq)
    moreover have "\<forall>x. Some y = Some x \<longleftrightarrow> x \<in> set (leaves (Head mn y mx)) \<and> covers x a" using True only by auto
    ultimately show ?thesis using p(2) by blast
  next
    case False
    then have l: "0 < l" using covers_level_0_block [of s y a] "2.prems" g by (auto intro: gr0I)
    note side = covers_side [OF grid ok(1)] and nx = grid_next(1,2) [OF grid l] in_block_next [OF grid l "2.prems"(3)]
    show ?thesis
    proof (cases "a < s")
      case True
      then obtain r mn' where r: "kshmbranch_remove_loop mn a (ADDRTREE_NEXTMIN s l) (l - 1) = Some (r, mn')"
        "addrtree_remove mn a (ADDRTREE_NEXTMIN s l) (l - 1) = Some (r, mn')"
        "good (ADDRTREE_NEXTMIN s l) (l - 1) mn'" "set (leaves mn') = {x \<in> set (leaves mn). \<not> covers x a}"
        "\<forall>x. r = Some x \<longleftrightarrow> x \<in> set (leaves mn) \<and> covers x a"
        using "2.IH"(1) [OF _ False _ True nx(1) g(1) nx(3)] l blk True by blast
      have "addrtree_remove (Head mn y mx) a s l = Some (r, Head mn' y mx)"
        using addrtree_remove_down(1) [OF y g(4) False l True] r(2) by simp
      moreover have "good s l (Head mn' y mx)" using good_shrink(1) [OF "2.prems"(2) l r(3)] r(4) by auto
      moreover have "kshmbranch_remove_loop (Head mn y mx) a s l = Some (r, Head mn' y mx)" using r(1) True False l blk by simp
      moreover have "set (leaves (Head mn' y mx)) = {x \<in> set (leaves (Head mn y mx)). \<not> covers x a}" using r(4) True False side by auto
      moreover have "\<forall>x. r = Some x \<longleftrightarrow> x \<in> set (leaves (Head mn y mx)) \<and> covers x a" using r(5) True False side by auto
      ultimately show ?thesis by blast
    next
      case ge: False
      then obtain r mx' where r: "kshmbranch_remove_loop mx a (ADDRTREE_NEXTMAX s l) (l - 1) = Some (r, mx')"
        "addrtree_remove mx a (ADDRTREE_NEXTMAX s l) (l - 1) = Some (r, mx')"
        "good (ADDRTREE_NEXTMAX s l) (l - 1) mx'" "set (leaves mx') = {x \<in> set (leaves mx). \<not> covers x a}"
        "\<forall>x. r = Some x \<longleftrightarrow> x \<in> set (leaves mx) \<and> covers x a"
        using "2.IH"(2) [OF _ False _ ge nx(2) g(2) nx(4)] l blk ge by blast
      have "addrtree_remove (Head mn y mx) a s l = Some (r, Head mn y mx')"
        using addrtree_remove_down(2) [OF y g(4) False l ge] r(2) by simp
      moreover have "good s l (Head mn y mx')" using good_shrink(2) [OF "2.prems"(2) l r(3)] r(4) by auto
      moreover have "kshmbranch_remove_loop (Head mn y mx) a s l = Some (r, Head mn y mx')" using r(1) ge False l blk by simp
      moreover have "set (leaves (Head mn y mx')) = {x \<in> set (leaves (Head mn y mx)). \<not> covers x a}" using r(4) ge False side by auto
      moreover have "\<forall>x. r = Some x \<longleftrightarrow> x \<in> set (leaves (Head mn y mx)) \<and> covers x a" using r(5) ge False side by auto
      ultimately show ?thesis by blast
    qed
  qed
qed

section \<open>The tree as a map of address ranges\<close>

text \<open>A client's sequence of calls, and what the removals return. The specification keeps the mapped ranges in
  a list; \<open>None\<close> is a call outside the contract, which asks for whole pages that are not mapped yet.\<close>

datatype 'a mapop = Map "'a leaf" | Unmap u32

fun regions_run :: "'a leaf list \<Rightarrow> 'a mapop list \<Rightarrow> ('a leaf option list \<times> 'a leaf list) option" where
  "regions_run R [] = Some ([], R)"
| "regions_run R (Map x # ops) = (if leaf_ok x \<and> (\<forall>y\<in>set R. \<not> overlaps x y) then regions_run (x # R) ops else None)"
| "regions_run R (Unmap a # ops) = map_option (\<lambda>(out, R'). (find (\<lambda>x. covers x a) R # out, R'))
     (regions_run (filter (\<lambda>x. \<not> covers x a) R) ops)"

fun tree_run :: "('t \<Rightarrow> 'a leaf \<Rightarrow> 't option) \<Rightarrow> ('t \<Rightarrow> u32 \<Rightarrow> ('a leaf option \<times> 't) option) \<Rightarrow> 't \<Rightarrow> 'a mapop list
    \<Rightarrow> ('a leaf option list \<times> 't) option" where
  "tree_run put del t [] = Some ([], t)"
| "tree_run put del t (Map x # ops) = Option.bind (put t x) (\<lambda>t. tree_run put del t ops)"
| "tree_run put del t (Unmap a # ops) = Option.bind (del t a) (\<lambda>(r, t). map_option (\<lambda>(out, t). (r # out, t)) (tree_run put del t ops))"

lemma find_unique:
  assumes "\<forall>x. r = Some x \<longleftrightarrow> x \<in> set R \<and> P x"
  shows "find P R = r"
proof (cases "find P R")
  case None
  then show ?thesis using assms by (cases r) (auto simp: find_None_iff)
next
  case (Some y)
  then have "y \<in> set R \<and> P y" by (auto simp: find_Some_iff)
  then show ?thesis using assms Some by metis
qed

locale range_map =
  fixes ok :: "'t \<Rightarrow> bool" and elems :: "'t \<Rightarrow> 'a leaf set"
    and put :: "'t \<Rightarrow> 'a leaf \<Rightarrow> 't option"
    and del :: "'t \<Rightarrow> u32 \<Rightarrow> ('a leaf option \<times> 't) option"
    and look :: "'t \<Rightarrow> u32 \<Rightarrow> 'a leaf option option"
  assumes put: "ok t \<Longrightarrow> leaf_ok x \<Longrightarrow> \<forall>y\<in>elems t. \<not> overlaps x y
      \<Longrightarrow> \<exists>t'. put t x = Some t' \<and> ok t' \<and> elems t' = insert x (elems t)"
    and del: "ok t \<Longrightarrow> \<exists>r t'. del t a = Some (r, t') \<and> ok t' \<and> elems t' = {x \<in> elems t. \<not> covers x a}
      \<and> (\<forall>x. r = Some x \<longleftrightarrow> x \<in> elems t \<and> covers x a)"
    and look: "ok t \<Longrightarrow> \<exists>r. look t a = Some r \<and> (\<forall>x. r = Some x \<longleftrightarrow> x \<in> elems t \<and> covers x a)"
begin

lemma look_find: "ok t \<Longrightarrow> set R = elems t \<Longrightarrow> look t a = Some (find (\<lambda>x. covers x a) R)"
  using look [of t a] find_unique [of _ R "\<lambda>x. covers x a"] by auto

lemma run_refines:
  "ok t \<Longrightarrow> set R = elems t \<Longrightarrow> regions_run R ops = Some (out, R')
    \<Longrightarrow> \<exists>t'. tree_run put del t ops = Some (out, t') \<and> ok t' \<and> set R' = elems t'"
proof (induction ops arbitrary: t R out)
  case Nil
  then show ?case by auto
next
  case (Cons op ops)
  show ?case
  proof (cases op)
    case (Map x)
    then have x: "leaf_ok x" "\<forall>y\<in>elems t. \<not> overlaps x y" "regions_run (x # R) ops = Some (out, R')"
      using Cons.prems by (auto split: if_splits)
    obtain t1 where "put t x = Some t1" "ok t1" "elems t1 = insert x (elems t)" using put [OF Cons.prems(1) x(1,2)] by blast
    then show ?thesis using Cons.IH [of t1 "x # R"] x Map Cons.prems by auto
  next
    case (Unmap a)
    let ?R = "filter (\<lambda>x. \<not> covers x a) R"
    obtain out' where out: "regions_run ?R ops = Some (out', R')" "out = find (\<lambda>x. covers x a) R # out'"
      using Cons.prems Unmap by auto
    obtain r t1 where r: "del t a = Some (r, t1)" "ok t1" "elems t1 = {x \<in> elems t. \<not> covers x a}"
      "\<forall>x. r = Some x \<longleftrightarrow> x \<in> elems t \<and> covers x a" using del [OF Cons.prems(1)] by blast
    moreover have "find (\<lambda>x. covers x a) R = r" using r(4) Cons.prems(2) by (intro find_unique) auto
    ultimately show ?thesis using Cons.IH [of t1 ?R out'] out Unmap Cons.prems(2) by auto
  qed
qed

end

lemma fits_init: "leaf_ok x \<Longrightarrow> fits x ADDRTREE_ADDRSEMI_INIT ADDRTREE_ADDRLEVEL_INIT"
  using in_block_init [of "at_map_min x"] in_block_init [of "at_map_max x"] by (simp add: fits_def in_block_def)

abbreviation space_ok :: "'a addrtree \<Rightarrow> bool" where
  "space_ok t \<equiv> good ADDRTREE_ADDRSEMI_INIT ADDRTREE_ADDRLEVEL_INIT t"

interpretation kshm: range_map space_ok "\<lambda>t. set (leaves t)"
  "kshmbranch_reinsert ADDRTREE_ADDRSEMI_INIT ADDRTREE_ADDRLEVEL_INIT" kshmbranch_remove kshmbranch_locate
proof
  fix t :: "'a addrtree" and x
  assume "space_ok t" "leaf_ok x" "\<forall>y\<in>set (leaves t). \<not> overlaps x y"
  then show "\<exists>t'. kshmbranch_reinsert ADDRTREE_ADDRSEMI_INIT ADDRTREE_ADDRLEVEL_INIT t x = Some t' \<and> space_ok t'
      \<and> set (leaves t') = insert x (set (leaves t))"
    using insert_at [OF grid_init(1)] fits_init [of x] by (simp add: kshmbranch_reinsert_eq fresh_def)
next
  fix t :: "'a addrtree" and a
  assume t: "space_ok t"
  show "\<exists>r t'. kshmbranch_remove t a = Some (r, t') \<and> space_ok t' \<and> set (leaves t') = {x \<in> set (leaves t). \<not> covers x a}
      \<and> (\<forall>x. r = Some x \<longleftrightarrow> x \<in> set (leaves t) \<and> covers x a)"
    using remove_correct [OF grid_init(1) t in_block_init, of a] unfolding kshmbranch_remove_def by blast
  show "\<exists>r. kshmbranch_locate t a = Some r \<and> (\<forall>x. r = Some x \<longleftrightarrow> x \<in> set (leaves t) \<and> covers x a)"
    using locate_correct [OF grid_init(1) t in_block_init, of a] unfolding kshmbranch_locate_def .
qed

interpretation addrtree_map: range_map space_ok "\<lambda>t. set (leaves t)"
  "\<lambda>t x. addrtree_insert t x ADDRTREE_ADDRSEMI_INIT ADDRTREE_ADDRLEVEL_INIT"
  "\<lambda>t a. addrtree_remove t a ADDRTREE_ADDRSEMI_INIT ADDRTREE_ADDRLEVEL_INIT"
  "\<lambda>t a. addrtree_locate t a ADDRTREE_ADDRSEMI_INIT ADDRTREE_ADDRLEVEL_INIT"
proof
  fix t :: "'a addrtree" and x
  assume "space_ok t" "leaf_ok x" "\<forall>y\<in>set (leaves t). \<not> overlaps x y"
  then show "\<exists>t'. addrtree_insert t x ADDRTREE_ADDRSEMI_INIT ADDRTREE_ADDRLEVEL_INIT = Some t' \<and> space_ok t'
      \<and> set (leaves t') = insert x (set (leaves t))"
    using insert_at [OF grid_init(1)] fits_init [of x] by (simp add: fresh_def)
next
  fix t :: "'a addrtree" and a
  assume t: "space_ok t"
  show "\<exists>r t'. addrtree_remove t a ADDRTREE_ADDRSEMI_INIT ADDRTREE_ADDRLEVEL_INIT = Some (r, t') \<and> space_ok t'
      \<and> set (leaves t') = {x \<in> set (leaves t). \<not> covers x a} \<and> (\<forall>x. r = Some x \<longleftrightarrow> x \<in> set (leaves t) \<and> covers x a)"
    using remove_correct [OF grid_init(1) t in_block_init, of a] by blast
  show "\<exists>r. addrtree_locate t a ADDRTREE_ADDRSEMI_INIT ADDRTREE_ADDRLEVEL_INIT = Some r
      \<and> (\<forall>x. r = Some x \<longleftrightarrow> x \<in> set (leaves t) \<and> covers x a)"
    using locate_correct [OF grid_init(1) t in_block_init, of a] .
qed

lemma space_ok_empty: "space_ok Null"
  by (simp add: good_def apart_def)

text \<open>
  C6. The tree of an address space is a map from addresses to mappings. Take any sequence of insertions of page
  ranges that are free and removals by address, starting from the empty tree. All calls return, without
  a failed assertion; every removal returns the mapping that covered the address (or none); and in the tree they
  leave, \<open>kshmbranch_locate\<close> finds for each address exactly what a search of the list of mapped ranges finds.
\<close>

theorem kshmbranch_refines_regions:
  assumes "regions_run [] ops = Some (out, R)"
  shows "\<exists>t. tree_run (kshmbranch_reinsert ADDRTREE_ADDRSEMI_INIT ADDRTREE_ADDRLEVEL_INIT) kshmbranch_remove Null ops = Some (out, t)
    \<and> (\<forall>a. kshmbranch_locate t a = Some (find (\<lambda>x. covers x a) R))"
proof -
  obtain t where t: "tree_run (kshmbranch_reinsert ADDRTREE_ADDRSEMI_INIT ADDRTREE_ADDRLEVEL_INIT) kshmbranch_remove Null ops
      = Some (out, t)" "space_ok t" "set R = set (leaves t)"
    using kshm.run_refines [OF space_ok_empty _ assms] by auto
  then show ?thesis using kshm.look_find [OF t(2,3)] by blast
qed

definition page_leaf :: "u32 \<Rightarrow> u32 \<Rightarrow> nat leaf" where
  "page_leaf mn mx = \<lparr>at_map_min = mn, at_map_max = mx, at_data = 0\<rparr>"

theorem kshmbranch_refines_regions_witness:
  "\<exists>t. tree_run (kshmbranch_reinsert ADDRTREE_ADDRSEMI_INIT ADDRTREE_ADDRLEVEL_INIT) kshmbranch_remove Null
      [Map (page_leaf 0x1000 0x1FFF), Map (page_leaf 0x7FFFF000 0x80000FFF), Unmap 0x1234]
      = Some ([Some (page_leaf 0x1000 0x1FFF)], t)
    \<and> (\<forall>a. kshmbranch_locate t a = Some (find (\<lambda>x. covers x a) [page_leaf 0x7FFFF000 0x80000FFF]))"
  by (rule kshmbranch_refines_regions) (simp add: page_leaf_def leaf_ok_def overlaps_def covers_def)



text \<open>The root of a subtree stays when it covers the semi address, and whatever is put below it lies apart from it.\<close>

lemma insert_below_perfect:
  assumes "addrtree_insert (Head mn x mx) z s l = Some p" and "covers x s"
  shows "\<not> overlaps z x \<and> (\<exists>mn' mx'. p = Head mn' x mx')"
proof -
  have "\<not> overlaps z x"
    using assms(1) by (subst (asm) addrtree_insert.simps) (auto split: if_splits)
  moreover from this have "\<not> covers z s" using overlaps_covers [OF _ assms(2)] by blast
  ultimately show ?thesis
    using assms(1) by (subst (asm) addrtree_insert.simps) (auto split: if_split_asm Option.bind_split_asm)
qed

lemma reinsert_below_perfect:
  "reinsertall (\<lambda>p z. addrtree_insert p z s l) (Head mn x mx) t = Some p \<Longrightarrow> covers x s
    \<Longrightarrow> (\<forall>z\<in>set (leaves t). \<not> overlaps z x) \<and> (\<exists>mn' mx'. p = Head mn' x mx')"
proof (induction t arbitrary: mn mx p)
  case Null
  then show ?case by auto
next
  case (Head a y b)
  obtain p1 p2 where p: "reinsertall (\<lambda>p z. addrtree_insert p z s l) (Head mn x mx) a = Some p1"
    "reinsertall (\<lambda>p z. addrtree_insert p z s l) p1 b = Some p2" "addrtree_insert p2 y s l = Some p"
    using Head.prems(1) by (auto split: Option.bind_splits)
  obtain mn1 mx1 where 1: "p1 = Head mn1 x mx1" "\<forall>z\<in>set (leaves a). \<not> overlaps z x" using Head.IH(1) [OF p(1)] Head.prems(2) by blast
  then obtain mn2 mx2 where 2: "p2 = Head mn2 x mx2" "\<forall>z\<in>set (leaves b). \<not> overlaps z x"
    using Head.IH(2) [of mn1 mx1 p2] p(2) Head.prems(2) by blast
  show ?case using insert_below_perfect [of mn2 x mx2 y s l p] p(3) 1 2 Head.prems(2) by auto
qed

text \<open>
  \<open>kshmbranch_insert\<close> does not report every range that is already mapped. If the new leaf covers the semi
  address of a node it does not overlap, while it overlaps a mapping below that node, the result is not \<open>KE_EXISTS\<close>:
  the node is replaced first and an assertion then fails while the branches are inserted again.
\<close>

theorem kshmbranch_insert_misses_overlap:
  assumes "covers x s" and "\<not> overlaps x y" and "z \<in> set (leaves (Head mn y mx))" and "overlaps x z"
  shows "kshmbranch_insert (Head mn y mx) x s l = None"
proof -
  have "reinsertall (\<lambda>p z. addrtree_insert p z s l) (Head Null x Null) (Head mn y mx) = None"
    using reinsert_below_perfect [of s l Null x Null "Head mn y mx"] assms overlaps_sym [of x z]
    by (cases "reinsertall (\<lambda>p z. addrtree_insert p z s l) (Head Null x Null) (Head mn y mx)") auto
  then show ?thesis
    using assms(1,2) by (subst kshmbranch_insert.simps)
      (simp del: reinsertall.simps flip: kshmbranch_reinsert_def add: kshmbranch_reinsert_eq)
qed

theorem kshmbranch_insert_misses_overlap_witness:
  "kshmbranch_insert (Head Null (page_leaf 0x1000 0x1FFF) (Head Null (page_leaf 0x90000000 0x9FFFFFFF) Null))
    (page_leaf 0x70000000 0x97FFFFFF) ADDRTREE_ADDRSEMI_INIT ADDRTREE_ADDRLEVEL_INIT = None"
  by (rule kshmbranch_insert_misses_overlap [where z = "page_leaf 0x90000000 0x9FFFFFFF"])
    (simp_all add: page_leaf_def covers_def overlaps_def ADDRTREE_ADDRSEMI_INIT_def)

end
