(* ===== verification/PageFrame.thy ===== *)
theory PageFrame
  imports Prelude
begin

text \<open>
  The allocator of physical page frames (\<^verbatim>\<open>src/kernel/pageframe.c\<close>, \<^verbatim>\<open>src/kernel/pageframe-alloc.c.inl\<close>,
  \<^verbatim>\<open>include/kos/kernel/pageframe.h\<close>). Free regions of memory are chained in a doubly linked list that is kept in the
  first page of each region.

  A pointer to a page frame is the number of the page, \<open>None\<close> is \<open>PAGEFRAME_NIL\<close>. The links are an explicit store: a
  function from pages to the three fields of \<open>kpageframe\<close>, so that writing through one pointer is
  seen through another one. The assertions and the fill patterns of the debug build are left out, and so is the
  system log. A walk along the list that does not end, and a lock that is held, are \<open>Blocked\<close>: the call does not
  return on its own.
\<close>

section \<open>State\<close>

record kpageframe =
  pff_prev :: "nat option"
  pff_next :: "nat option"
  pff_size :: size_t

record kpagealloc =
  pf_mem :: "nat \<Rightarrow> kpageframe"
  first_free_page :: "nat option"
  total_allocated_pages :: size_t
  s_spinner :: u8

definition kspinlock_trylock :: "kpagealloc \<Rightarrow> kerrno \<times> kpagealloc" where
  "kspinlock_trylock s = (if s_spinner s = 0 then (KE_OK, s\<lparr>s_spinner := 1\<rparr>) else (KE_WOULDBLOCK, s))"

definition kpagealloc_lock :: "kpagealloc \<Rightarrow> kpagealloc outcome" where
  "kpagealloc_lock s = (let (e, s) = kspinlock_trylock s in if KE_ISOK e then Done s else Blocked)"

definition kpagealloc_unlock :: "kpagealloc \<Rightarrow> kpagealloc" where
  "kpagealloc_unlock s = s\<lparr>s_spinner := 0\<rparr>"

text \<open>Writing one field of a page, and the two idioms with which the source changes links.\<close>

definition upd_page :: "nat \<Rightarrow> (kpageframe \<Rightarrow> kpageframe) \<Rightarrow> kpagealloc \<Rightarrow> kpagealloc" where
  "upd_page p f s = s\<lparr>pf_mem := (pf_mem s)(p := f (pf_mem s p))\<rparr>"

text \<open>\<open>if (q != PAGENIL) q->pff_prev = v;\<close>\<close>

definition link_prev :: "nat option \<Rightarrow> nat option \<Rightarrow> kpagealloc \<Rightarrow> kpagealloc" where
  "link_prev q v s = (case q of None \<Rightarrow> s | Some p \<Rightarrow> upd_page p (pff_prev_update (\<lambda>_. v)) s)"

text \<open>\<open>if (q != PAGENIL) q->pff_next = v; else first_free_page = v;\<close>\<close>

definition link_next :: "nat option \<Rightarrow> nat option \<Rightarrow> kpagealloc \<Rightarrow> kpagealloc" where
  "link_next q v s =
    (case q of None \<Rightarrow> s\<lparr>first_free_page := v\<rparr> | Some p \<Rightarrow> upd_page p (pff_next_update (\<lambda>_. v)) s)"

definition returns :: "'a option \<Rightarrow> 'a outcome" where
  "returns x = (case x of None \<Rightarrow> Blocked | Some y \<Rightarrow> Done y)"

section \<open>Allocation\<close>

definition kpageframe_alloc_one :: "kpagealloc \<Rightarrow> (nat option \<times> kpagealloc) outcome" where
  "kpageframe_alloc_one s = andthen (kpagealloc_lock s) (\<lambda>s.
    case first_free_page s of
      None \<Rightarrow> Done (None, kpagealloc_unlock s)
    | Some result \<Rightarrow>
        let r = pf_mem s result in
        if pff_size r \<noteq> 1 then
          let first = result + 1;
            s = s\<lparr>first_free_page := Some first\<rparr>;
            s = upd_page first (\<lambda>_. \<lparr>pff_prev = None, pff_next = pff_next r, pff_size = pff_size r - 1\<rparr>) s;
            s = link_prev (pff_next r) (Some first) s
          in Done (Some result, kpagealloc_unlock s)
        else
          let s = s\<lparr>first_free_page := pff_next r\<rparr>;
            s = link_prev (pff_next r) None s
          in Done (Some result, kpagealloc_unlock s))"

text \<open>The part of \<^verbatim>\<open>pageframe-alloc.c.inl\<close> behind \<open>take_iter\<close>.\<close>

definition take_iter :: "nat \<Rightarrow> size_t \<Rightarrow> kpagealloc \<Rightarrow> kpagealloc" where
  "take_iter iter n_pages s =
    (let i = pf_mem s iter;
       s = (if pff_size i = n_pages then link_next (pff_prev i) (pff_next i) (link_prev (pff_next i) (pff_prev i) s)
            else let split = iter + unat n_pages;
              s = upd_page split (pff_next_update (\<lambda>_. pff_next i)) s;
              s = link_prev (pff_next i) (Some split) s;
              s = upd_page split (pff_prev_update (\<lambda>_. pff_prev i)) s;
              s = link_next (pff_prev i) (Some split) s
            in upd_page split (pff_size_update (\<lambda>_. pff_size i - n_pages)) s)
     in kpagealloc_unlock (s\<lparr>total_allocated_pages := total_allocated_pages s + n_pages\<rparr>))"

partial_function (option) first_fit :: "(nat \<Rightarrow> kpageframe) \<Rightarrow> size_t \<Rightarrow> nat option \<Rightarrow> nat option option" where
  "first_fit m n_pages iter =
    (case iter of None \<Rightarrow> Some None
     | Some p \<Rightarrow> if n_pages \<le> pff_size (m p) then Some (Some p) else first_fit m n_pages (pff_next (m p)))"

definition kpageframe_alloc_many :: "size_t \<Rightarrow> kpagealloc \<Rightarrow> (nat option \<times> kpagealloc) outcome" where
  "kpageframe_alloc_many n_pages s = andthen (kpagealloc_lock s) (\<lambda>s.
    andthen (returns (first_fit (pf_mem s) n_pages (first_free_page s))) (\<lambda>hit.
      case hit of None \<Rightarrow> Done (None, kpagealloc_unlock s)
      | Some iter \<Rightarrow> Done (Some iter, take_iter iter n_pages s)))"

text \<open>The loop of \<open>kpageframe_tryalloc\<close> also keeps the largest region that is too small.\<close>

definition better :: "(nat \<Rightarrow> kpageframe) \<Rightarrow> nat option \<Rightarrow> nat \<Rightarrow> nat option" where
  "better m winner p =
    (case winner of None \<Rightarrow> Some p | Some w \<Rightarrow> if pff_size (m w) < pff_size (m p) then Some p else winner)"

partial_function (option) best_fit :: "(nat \<Rightarrow> kpageframe) \<Rightarrow> size_t \<Rightarrow> nat option \<Rightarrow> nat option \<Rightarrow> (nat + nat option) option" where
  "best_fit m n_pages iter winner =
    (case iter of None \<Rightarrow> Some (Inr winner)
     | Some p \<Rightarrow> if n_pages \<le> pff_size (m p) then Some (Inl p)
         else best_fit m n_pages (pff_next (m p)) (better m winner p))"

definition kpageframe_tryalloc :: "size_t \<Rightarrow> kpagealloc \<Rightarrow> (nat option \<times> size_t \<times> kpagealloc) outcome" where
  "kpageframe_tryalloc n_pages s = andthen (kpagealloc_lock s) (\<lambda>s.
    andthen (returns (best_fit (pf_mem s) n_pages (first_free_page s) None)) (\<lambda>r.
      case r of Inl iter \<Rightarrow> Done (Some iter, n_pages, take_iter iter n_pages s)
      | Inr winner \<Rightarrow>
          let s = kpagealloc_unlock s in
          (case winner of Some iter \<Rightarrow> Done (Some iter, pff_size (pf_mem s iter), take_iter iter n_pages s)
           | None \<Rightarrow> Done (None, 0, s))))"

partial_function (option) find_region :: "(nat \<Rightarrow> kpageframe) \<Rightarrow> nat option \<Rightarrow> nat \<Rightarrow> size_t \<Rightarrow> nat option option" where
  "find_region m iter start n_pages =
    (case iter of None \<Rightarrow> Some None
     | Some p \<Rightarrow> if p \<le> start then
           if start + unat n_pages \<le> p + unat (pff_size (m p)) then Some (Some p)
           else find_region m (pff_next (m p)) start n_pages
         else Some None)"

definition kpageframe_allocat :: "nat \<Rightarrow> size_t \<Rightarrow> kpagealloc \<Rightarrow> (nat option \<times> kpagealloc) outcome" where
  "kpageframe_allocat start n_pages s = andthen (kpagealloc_lock s) (\<lambda>s.
    andthen (returns (find_region (pf_mem s) (first_free_page s) start n_pages)) (\<lambda>hit.
      case hit of None \<Rightarrow> Done (None, kpagealloc_unlock s)
      | Some iter \<Rightarrow>
          let i = pf_mem s iter;
            s = (if start = iter then
                   if n_pages = pff_size i then link_next (pff_prev i) (pff_next i) s
                   else let split = iter + unat n_pages;
                     s = upd_page split (\<lambda>_. \<lparr>pff_prev = pff_prev i, pff_next = pff_next i, pff_size = pff_size i - n_pages\<rparr>) s
                   in link_next (pff_prev i) (Some split) s
                 else let new_iter_size = of_nat (start - iter); split = start + unat n_pages;
                     s = upd_page split (\<lambda>_. \<lparr>pff_prev = Some iter, pff_next = pff_next i,
                           pff_size = pff_size i - (new_iter_size + n_pages)\<rparr>) s
                   in upd_page iter (\<lambda>f. f\<lparr>pff_next := Some split, pff_size := new_iter_size\<rparr>) s)
          in Done (Some start, kpagealloc_unlock (s\<lparr>total_allocated_pages := total_allocated_pages s + n_pages\<rparr>))))"

section \<open>Release\<close>

text \<open>The loop of \<open>kpageframe_free\<close> stops at the first region for which one of its four cases applies.\<close>

definition free_stops :: "(nat \<Rightarrow> kpageframe) \<Rightarrow> nat \<Rightarrow> nat \<Rightarrow> nat \<Rightarrow> bool" where
  "free_stops m start region_end iter \<longleftrightarrow>
    region_end = iter \<or> iter + unat (pff_size (m iter)) = start \<or> region_end < iter \<or> pff_next (m iter) = None"

partial_function (option) free_spot :: "(nat \<Rightarrow> kpageframe) \<Rightarrow> nat \<Rightarrow> nat \<Rightarrow> nat \<Rightarrow> nat option" where
  "free_spot m start region_end iter =
    (if free_stops m start region_end iter then Some iter
     else case pff_next (m iter) of None \<Rightarrow> None | Some p \<Rightarrow> free_spot m start region_end p)"

definition free_at :: "nat \<Rightarrow> size_t \<Rightarrow> nat \<Rightarrow> kpagealloc \<Rightarrow> kpagealloc" where
  "free_at start n_pages iter s =
    (let region_end = start + unat n_pages; i = pf_mem s iter in
     if region_end = iter then
       let s = upd_page start (pff_next_update (\<lambda>_. pff_next i)) s;
         s = link_prev (pff_next i) (Some start) s;
         s = upd_page start (pff_prev_update (\<lambda>_. pff_prev i)) s;
         s = link_next (pff_prev i) (Some start) s
       in upd_page start (pff_size_update (\<lambda>_. n_pages + pff_size i)) s
     else if iter + unat (pff_size i) = start then
       let s = upd_page iter (pff_size_update (\<lambda>z. z + n_pages)) s;
         sz = pff_size i + n_pages
       in (case pff_next i of
             Some next \<Rightarrow>
               if next = iter + unat sz then
                 let s = upd_page iter (pff_size_update (\<lambda>z. z + pff_size (pf_mem s next))) s;
                   after = pff_next (pf_mem s next);
                   s = upd_page iter (pff_next_update (\<lambda>_. after)) s
                 in link_prev after (Some iter) s
               else s
           | None \<Rightarrow> s)
     else if region_end < iter then
       let s = upd_page start (pff_size_update (\<lambda>_. n_pages)) s;
         s = upd_page start (pff_prev_update (\<lambda>_. pff_prev i)) s;
         s = link_next (pff_prev i) (Some start) s;
         s = upd_page start (pff_next_update (\<lambda>_. Some iter)) s
       in upd_page iter (pff_prev_update (\<lambda>_. Some start)) s
     else
       let s = upd_page iter (pff_next_update (\<lambda>_. Some start)) s
       in upd_page start (\<lambda>_. \<lparr>pff_prev = Some iter, pff_next = None, pff_size = n_pages\<rparr>) s)"

definition kpageframe_free :: "nat \<Rightarrow> size_t \<Rightarrow> kpagealloc \<Rightarrow> kpagealloc outcome" where
  "kpageframe_free start n_pages s = andthen (kpagealloc_lock s) (\<lambda>s.
    andthen
      (case first_free_page s of
         None \<Rightarrow> Done (upd_page start (\<lambda>_. \<lparr>pff_prev = None, pff_next = None, pff_size = n_pages\<rparr>)
                       (s\<lparr>first_free_page := Some start\<rparr>))
       | Some p \<Rightarrow> andthen (returns (free_spot (pf_mem s) start (start + unat n_pages) p)) (\<lambda>iter.
                     Done (free_at start n_pages iter s)))
      (\<lambda>s. Done (kpagealloc_unlock (s\<lparr>total_allocated_pages := total_allocated_pages s - n_pages\<rparr>))))"

section \<open>Changing the size of a block\<close>

definition kpageframe_realloc_inplace :: "nat \<Rightarrow> size_t \<Rightarrow> size_t \<Rightarrow> kpagealloc \<Rightarrow> (nat option \<times> kpagealloc) outcome" where
  "kpageframe_realloc_inplace old_start old_pages new_pages s =
    (if new_pages \<le> old_pages then
       if new_pages \<noteq> old_pages then
         andthen (kpageframe_free (old_start + unat new_pages) (old_pages - new_pages) s) (\<lambda>s. Done (Some old_start, s))
       else Done (Some old_start, s)
     else andthen (kpageframe_allocat (old_start + unat old_pages) (new_pages - old_pages) s) (\<lambda>(r, s).
       Done (if r = None then None else Some old_start, s)))"

text \<open>
  \<open>kpageframe_realloc\<close> also copies the contents of the block, which the state does not have; the result says from
  where to where how many pages are copied.
\<close>

definition kpageframe_realloc :: "nat \<Rightarrow> size_t \<Rightarrow> size_t \<Rightarrow> kpagealloc
    \<Rightarrow> (nat option \<times> (nat \<times> nat \<times> size_t) option \<times> kpagealloc) outcome" where
  "kpageframe_realloc old_start old_pages new_pages s =
    andthen (kpageframe_realloc_inplace old_start old_pages new_pages s) (\<lambda>(r, s).
      if r \<noteq> None then Done (Some old_start, None, s)
      else andthen (kpageframe_allocat (old_start - unat (new_pages - old_pages)) (new_pages - old_pages) s) (\<lambda>(r, s).
        case r of Some result \<Rightarrow> Done (r, Some (result, old_start, old_pages), s)
        | None \<Rightarrow>
            andthen (kpageframe_alloc_many new_pages s) (\<lambda>(r, s).
              case r of None \<Rightarrow> Done (None, None, s)
              | Some result \<Rightarrow> andthen (kpageframe_free old_start old_pages s) (\<lambda>s.
                  Done (r, Some (result, old_start, old_pages), s)))))"

section \<open>Queries\<close>

record kpageframeinfo =
  pfi_minregion :: size_t
  pfi_maxregion :: size_t
  pfi_freeregions :: size_t
  pfi_freepages :: size_t
  pfi_usedpages :: size_t

definition info_step :: "size_t \<Rightarrow> kpageframeinfo \<Rightarrow> kpageframeinfo" where
  "info_step sz info =
    (let info = (if sz < pfi_minregion info then info\<lparr>pfi_minregion := sz\<rparr>
                 else if pfi_maxregion info < sz then info\<lparr>pfi_maxregion := sz\<rparr> else info)
     in info\<lparr>pfi_freeregions := pfi_freeregions info + 1, pfi_freepages := pfi_freepages info + sz\<rparr>)"

partial_function (option) info_loop :: "(nat \<Rightarrow> kpageframe) \<Rightarrow> nat option \<Rightarrow> kpageframeinfo \<Rightarrow> kpageframeinfo option" where
  "info_loop m iter info =
    (case iter of None \<Rightarrow> Some info
     | Some p \<Rightarrow> info_loop m (pff_next (m p)) (info_step (pff_size (m p)) info))"

definition kpageframe_getinfo :: "kpageframeinfo \<Rightarrow> kpagealloc \<Rightarrow> (kpageframeinfo \<times> kpagealloc) outcome" where
  "kpageframe_getinfo info s = andthen (kpagealloc_lock s) (\<lambda>s.
    andthen
      (case first_free_page s of
         None \<Rightarrow> Done (info\<lparr>pfi_freeregions := 0, pfi_freepages := 0\<rparr>)
       | Some p \<Rightarrow>
           let sz = pff_size (pf_mem s p) in
           returns (info_loop (pf_mem s) (pff_next (pf_mem s p))
             (info\<lparr>pfi_minregion := sz, pfi_maxregion := sz, pfi_freepages := sz, pfi_freeregions := 1\<rparr>)))
      (\<lambda>info. Done (info\<lparr>pfi_usedpages := total_allocated_pages s\<rparr>, kpagealloc_unlock s)))"

partial_function (option) isfree_loop :: "(nat \<Rightarrow> kpageframe) \<Rightarrow> nat option \<Rightarrow> nat \<Rightarrow> nat \<Rightarrow> bool option" where
  "isfree_loop m iter begin_addr end_addr =
    (case iter of None \<Rightarrow> Some False
     | Some p \<Rightarrow>
         if p * 4096 < end_addr \<and> begin_addr < (p + unat (pff_size (m p))) * 4096 then Some True
         else isfree_loop m (pff_next (m p)) begin_addr end_addr)"

text \<open>\<open>p\<close> is a byte address here. If the allocator is locked the answer is zero.\<close>

definition kpageframe_isfreepage :: "nat \<Rightarrow> nat \<Rightarrow> kpagealloc \<Rightarrow> (bool \<times> kpagealloc) outcome" where
  "kpageframe_isfreepage p sz s =
    (let (e, s) = kspinlock_trylock s in
     if e \<noteq> KE_OK then Done (False, s)
     else andthen (returns (isfree_loop (pf_mem s) (first_free_page s) p (p + sz))) (\<lambda>b. Done (b, kpagealloc_unlock s)))"

record kpageguard =
  pg_start :: "nat option"
  pg_pages :: size_t

definition kpageguard_init :: "nat \<Rightarrow> nat \<Rightarrow> kpageguard \<Rightarrow> kpagealloc \<Rightarrow> (kpageguard \<times> kpagealloc) outcome" where
  "kpageguard_init p sz g s =
    (if sz = 0 then Done (g\<lparr>pg_start := None\<rparr>, s)
     else let start = p div 4096; pages = of_nat ((sz + (p - start * 4096) + 4095) div 4096) in
       andthen (kpageframe_allocat start pages s) (\<lambda>(r, s). Done (g\<lparr>pg_start := r, pg_pages := pages\<rparr>, s)))"

definition kpageguard_quit :: "kpageguard \<Rightarrow> kpagealloc \<Rightarrow> kpagealloc outcome" where
  "kpageguard_quit g s = (case pg_start g of None \<Rightarrow> Done s | Some p \<Rightarrow> kpageframe_free p (pg_pages g) s)"

section \<open>The memory map\<close>

text \<open>
  \<open>raminfo_addregion\<close> hands a region of memory to the allocator that the boot loader reports as usable, without the
  part taken by the kernel, which lies between the linker symbols \<open>kernel_begin\<close> and \<open>kernel_end\<close>. \<open>raminfo_mark\<close> is the
  second half of the function, from the alignment of the addresses on.
\<close>

definition page_align :: "u32 \<Rightarrow> u32" where
  "page_align x = (x + 4095) AND NOT 4095"

definition page_alignd :: "u32 \<Rightarrow> u32" where
  "page_alignd x = x AND NOT 4095"

definition raminfo_mark :: "u32 \<Rightarrow> size_t \<Rightarrow> kpagealloc \<Rightarrow> kpagealloc outcome" where
  "raminfo_mark native_start native_size s =
    (let used_start = page_align native_start;
       used_size = page_alignd (native_size - (used_start - native_start))
     in if used_start = 0 then
          if used_size \<le> 4096 then Done s
          else kpageframe_free ((unat used_start + 4096) div 4096) ((used_size - 4096) div 4096) s
        else kpageframe_free (unat used_start div 4096) (used_size div 4096) s)"

lemma ucast_narrow: "(ucast (ucast (x :: u32) :: 64 word) :: u32) = x"
  by (rule bit_word_eqI) (auto simp: bit_simps)

function raminfo_addregion :: "u32 \<Rightarrow> u32 \<Rightarrow> 64 word \<Rightarrow> 64 word \<Rightarrow> kpagealloc \<Rightarrow> kpagealloc outcome" where
  "raminfo_addregion kernel_begin kernel_end start sz s =
    (if sz < 4096 then Done s
     else let last = start + (sz - 1) in
       if 4294967295 < last \<or> last < start then Done s
       else let native_start = ucast start; native_size = ucast sz in
         if native_start < kernel_end \<and> kernel_begin < native_start + native_size then
           andthen
             (if native_start \<le> kernel_begin
              then raminfo_addregion kernel_begin kernel_end (ucast native_start) (ucast (kernel_begin - native_start)) s
              else Done s)
             (\<lambda>s. let temp = kernel_end - native_start in
                if native_size \<le> temp then Done s else raminfo_mark kernel_end (native_size - temp) s)
         else raminfo_mark native_start native_size s)"
  by pat_completeness auto
termination
  by (relation "measure (\<lambda>(kb, ke, start, sz, s).
      if (ucast start :: u32) < ke \<and> kb < (ucast start :: u32) + ucast sz then 1 else 0)")
    (auto simp: ucast_narrow)

declare raminfo_addregion.simps [simp del]

section \<open>Well-formed free lists\<close>

text \<open>
  A segment of the list: the regions \<open>rs\<close> (first page and number of pages) are linked from \<open>cur\<close> on, the first one
  points back to \<open>prev\<close>, the last one is \<open>prev'\<close> and points to \<open>cur'\<close>.
\<close>

fun seg :: "(nat \<Rightarrow> kpageframe) \<Rightarrow> nat option \<Rightarrow> nat option \<Rightarrow> (nat \<times> nat) list \<Rightarrow> nat option \<Rightarrow> nat option \<Rightarrow> bool" where
  "seg m prev cur [] prev' cur' \<longleftrightarrow> prev = prev' \<and> cur = cur'"
| "seg m prev cur ((p, n) # rs) prev' cur' \<longleftrightarrow>
    cur = Some p \<and> pff_prev (m p) = prev \<and> unat (pff_size (m p)) = n \<and> seg m (Some p) (pff_next (m p)) rs prev' cur'"

text \<open>Regions are not empty, ascend, and do not touch each other; all pages have numbers below \<open>2 ^ 20\<close>.\<close>

fun spaced :: "(nat \<times> nat) list \<Rightarrow> bool" where
  "spaced [] \<longleftrightarrow> True"
| "spaced ((p, n) # rs) \<longleftrightarrow> 0 < n \<and> p + n \<le> 2 ^ 20 \<and> (\<forall>(q, k) \<in> set rs. p + n < q) \<and> spaced rs"

definition pages_of :: "(nat \<times> nat) list \<Rightarrow> nat set" where
  "pages_of rs = (\<Union>(p, n) \<in> set rs. {p..<p + n})"

definition frames :: "kpagealloc \<Rightarrow> (nat \<times> nat) list \<Rightarrow> bool" where
  "frames s rs \<longleftrightarrow> (\<exists>l. seg (pf_mem s) None (first_free_page s) rs l None) \<and> spaced rs"

lemma pages_of_simps [simp]:
  "pages_of [] = {}" "pages_of ((p, n) # rs) = {p..<p + n} \<union> pages_of rs"
  "pages_of (as @ bs) = pages_of as \<union> pages_of bs"
  by (auto simp: pages_of_def)

lemma seg_append: "seg m prev cur (as @ bs) prev' cur' \<longleftrightarrow> (\<exists>pm cm. seg m prev cur as pm cm \<and> seg m pm cm bs prev' cur')"
  by (induction m prev cur as prev' cur' rule: seg.induct) auto

lemma seg_cong: "\<forall>p \<in> fst ` set rs. m' p = m p \<Longrightarrow> seg m' prev cur rs prev' cur' = seg m prev cur rs prev' cur'"
  by (induction m prev cur rs prev' cur' rule: seg.induct) auto

text \<open>Changing a page that is not the first of a region does not change a segment.\<close>

lemma seg_upd_other [simp]: "p \<notin> fst ` set rs \<Longrightarrow> seg (m(p := f)) prev cur rs prev' cur' = seg m prev cur rs prev' cur'"
  by (rule seg_cong) auto

lemma seg_last: "seg m prev cur rs l cur' \<Longrightarrow> rs \<noteq> [] \<Longrightarrow> l = Some (fst (last rs))"
  by (induction rs arbitrary: prev cur) (auto split: if_splits)

lemma seg_end_eq: "seg m prev cur rs l c \<Longrightarrow> seg m prev cur rs l' c' \<Longrightarrow> l = l' \<and> c = c'"
  by (induction m prev cur rs l c rule: seg.induct) auto

text \<open>Pointing the last region of a segment, or the head of the list, somewhere else.\<close>

lemma seg_set_next:
  assumes "seg m prev cur rs (Some q) c" and "rs \<noteq> []" and "distinct (map fst rs)"
  shows "seg (m(q := (m q)\<lparr>pff_next := v\<rparr>)) prev cur rs (Some q) v"
  using assms
proof (induction rs arbitrary: prev cur)
  case (Cons r rs)
  obtain p n where r: "r = (p, n)" by (cases r)
  show ?case
  proof (cases "rs = []")
    case True
    then show ?thesis using Cons.prems r by auto
  next
    case False
    have "q = fst (last rs)" using seg_last [of m "Some p" "pff_next (m p)" rs "Some q" c] Cons.prems r False by auto
    then have "q \<noteq> p" using Cons.prems(3) r False last_in_set [of rs] by (metis distinct.simps(2) image_eqI list.map(2) list.set_map fst_conv)
    then show ?thesis using Cons r False by auto
  qed
qed simp

lemma seg_set_prev:
  assumes "seg m prev (Some q) rs l c" and "rs \<noteq> []" and "distinct (map fst rs)"
  shows "seg (m(q := (m q)\<lparr>pff_prev := v\<rparr>)) v (Some q) rs l c"
  using assms by (cases rs) (auto simp: image_iff)

lemma spaced_append:
  "spaced (as @ bs) \<longleftrightarrow> spaced as \<and> spaced bs \<and> (\<forall>(p, n) \<in> set as. \<forall>(q, k) \<in> set bs. p + n < q)"
  by (induction as rule: spaced.induct) auto

lemma spaced_distinct: "spaced rs \<Longrightarrow> distinct (map fst rs)"
  by (induction rs rule: spaced.induct) force+

lemma spaced_pos: "spaced rs \<Longrightarrow> (p, n) \<in> set rs \<Longrightarrow> 0 < n \<and> p + n \<le> 2 ^ 20"
  by (induction rs rule: spaced.induct) auto

text \<open>
  All changes of the list are one of two: a region is unlinked, or a page becomes a region between two
  neighbours.
\<close>

definition unlinked :: "nat option \<Rightarrow> nat option \<Rightarrow> kpagealloc \<Rightarrow> kpagealloc" where
  "unlinked pr c s = link_next pr c (link_prev c pr s)"

definition spliced :: "nat option \<Rightarrow> nat \<Rightarrow> size_t \<Rightarrow> nat option \<Rightarrow> kpagealloc \<Rightarrow> kpagealloc" where
  "spliced pr q k c s =
    link_next pr (Some q) (link_prev c (Some q) (upd_page q (\<lambda>_. \<lparr>pff_prev = pr, pff_next = c, pff_size = k\<rparr>) s))"

lemma seg_first: "seg m prev cur rs l c \<Longrightarrow> rs \<noteq> [] \<Longrightarrow> cur = Some (fst (hd rs))"
  by (cases rs) auto

lemma link_prev_seg:
  assumes "seg (pf_mem s) x c bs l None" and "distinct (map fst bs)"
  shows "seg (pf_mem (link_prev c v s)) v c bs (if bs = [] then v else l) None"
    and "p \<notin> fst ` set bs \<Longrightarrow> pf_mem (link_prev c v s) p = pf_mem s p"
    and "first_free_page (link_prev c v s) = first_free_page s"
  using assms by (cases bs; auto simp: link_prev_def upd_page_def image_iff)+

lemma link_next_seg:
  assumes "seg (pf_mem s) None (first_free_page s) as pr c" and "distinct (map fst as)"
  shows "seg (pf_mem (link_next pr v s)) None (first_free_page (link_next pr v s)) as pr v"
    and "p \<notin> fst ` set as \<Longrightarrow> pf_mem (link_next pr v s) p = pf_mem s p"
proof -
  have "as = [] \<and> pr = None \<or> as \<noteq> [] \<and> pr = Some (fst (last as))"
    using seg_last [OF assms(1)] assms(1) by (cases "as = []") auto
  then show "seg (pf_mem (link_next pr v s)) None (first_free_page (link_next pr v s)) as pr v"
    and "p \<notin> fst ` set as \<Longrightarrow> pf_mem (link_next pr v s) p = pf_mem s p"
    using assms seg_set_next [of "pf_mem s" None "first_free_page s" as _ c v] last_in_set [of as]
    by (auto simp: link_next_def upd_page_def)
qed

lemma unlinked_seg:
  assumes "seg (pf_mem s) None (first_free_page s) as pr c0" and "seg (pf_mem s) x c bs l None"
    and "distinct (map fst (as @ bs))"
  shows "\<exists>l'. seg (pf_mem (unlinked pr c s)) None (first_free_page (unlinked pr c s)) (as @ bs) l' None"
proof -
  let ?s1 = "link_prev c pr s"
  have d: "distinct (map fst as)" "distinct (map fst bs)" "fst ` set as \<inter> fst ` set bs = {}" using assms(3) by auto
  have "seg (pf_mem ?s1) None (first_free_page ?s1) as pr c0"
    using assms(1) link_prev_seg(2,3) [OF assms(2) d(2), where v = pr] d(3)
    by (subst seg_cong [of as "pf_mem ?s1" "pf_mem s"]) auto
  then have "seg (pf_mem (unlinked pr c s)) None (first_free_page (unlinked pr c s)) as pr c"
    and same: "p \<notin> fst ` set as \<Longrightarrow> pf_mem (unlinked pr c s) p = pf_mem ?s1 p" for p
    using link_next_seg [of ?s1 as pr c0, where v = c] d(1) by (auto simp: unlinked_def)
  moreover have "seg (pf_mem (unlinked pr c s)) pr c bs (if bs = [] then pr else l) None"
    using link_prev_seg(1) [OF assms(2) d(2), where v = pr] same d(3) by (subst seg_cong [of bs _ "pf_mem ?s1"]) auto
  ultimately show ?thesis unfolding seg_append by blast
qed

lemma spliced_seg:
  assumes "seg (pf_mem s) None (first_free_page s) as pr c0" and "seg (pf_mem s) x c bs l None"
    and "distinct (map fst (as @ bs))" and "q \<notin> fst ` set (as @ bs)"
  shows "\<exists>l'. seg (pf_mem (spliced pr q k c s)) None (first_free_page (spliced pr q k c s)) (as @ (q, unat k) # bs) l' None"
proof -
  let ?s1 = "upd_page q (\<lambda>_. \<lparr>pff_prev = pr, pff_next = c, pff_size = k\<rparr>) s"
  let ?s2 = "link_prev c (Some q) ?s1"
  have d: "distinct (map fst as)" "distinct (map fst bs)" "fst ` set as \<inter> fst ` set bs = {}"
    "q \<notin> fst ` set as" "q \<notin> fst ` set bs" using assms(3,4) by auto
  have s1: "seg (pf_mem ?s1) None (first_free_page ?s1) as pr c0" "seg (pf_mem ?s1) x c bs l None"
    using assms(1,2) d(4,5) by (simp_all add: upd_page_def)
  note lp = link_prev_seg [OF s1(2) d(2), where v = "Some q"]
  have "seg (pf_mem ?s2) None (first_free_page ?s2) as pr c0"
    using s1(1) lp(2,3) d(3) by (subst seg_cong [of as "pf_mem ?s2" "pf_mem ?s1"]) auto
  note ln = link_next_seg [OF this d(1), where v = "Some q", folded spliced_def]
  have node: "pf_mem (spliced pr q k c s) q = \<lparr>pff_prev = pr, pff_next = c, pff_size = k\<rparr>"
    using ln(2) [of q] lp(2) [of q] d(4,5) by (simp add: upd_page_def)
  have "seg (pf_mem (spliced pr q k c s)) (Some q) c bs (if bs = [] then Some q else l) None"
    using lp(1) ln(2) d(3) by (subst seg_cong [of bs _ "pf_mem ?s2"]) auto
  then show ?thesis using ln(1) node unfolding seg_append by fastforce
qed

lemma frames_at:
  assumes "frames s (as @ (p, n) # bs)"
  obtains l where "seg (pf_mem s) None (first_free_page s) as (pff_prev (pf_mem s p)) (Some p)"
    and "unat (pff_size (pf_mem s p)) = n" and "seg (pf_mem s) (Some p) (pff_next (pf_mem s p)) bs l None"
    and "distinct (map fst (as @ (p, n) # bs))" and "spaced (as @ (p, n) # bs)"
proof -
  obtain l where l: "seg (pf_mem s) None (first_free_page s) (as @ (p, n) # bs) l None" and sp: "spaced (as @ (p, n) # bs)"
    using assms by (auto simp: frames_def)
  obtain pm cm where "seg (pf_mem s) None (first_free_page s) as pm cm" "seg (pf_mem s) pm cm ((p, n) # bs) l None"
    using l unfolding seg_append by blast
  then show thesis using that [of l] sp spaced_distinct [OF sp] by simp
qed

lemma unlinked_frames:
  assumes "frames s (as @ (p, n) # bs)"
  shows "frames (unlinked (pff_prev (pf_mem s p)) (pff_next (pf_mem s p)) s) (as @ bs)"
proof -
  obtain l where s: "seg (pf_mem s) None (first_free_page s) as (pff_prev (pf_mem s p)) (Some p)"
    "seg (pf_mem s) (Some p) (pff_next (pf_mem s p)) bs l None"
    "distinct (map fst (as @ bs))" "spaced (as @ (p, n) # bs)"
    using assms by (rule frames_at) auto
  then show ?thesis using unlinked_seg [OF s(1-3)] by (auto simp: frames_def spaced_append)
qed

lemma replaced_frames:
  assumes "frames s (as @ (p, n) # bs)" and "spaced (as @ (q, unat k) # bs)"
  shows "frames (spliced (pff_prev (pf_mem s p)) q k (pff_next (pf_mem s p)) s) (as @ (q, unat k) # bs)"
proof -
  obtain l where s: "seg (pf_mem s) None (first_free_page s) as (pff_prev (pf_mem s p)) (Some p)"
    "seg (pf_mem s) (Some p) (pff_next (pf_mem s p)) bs l None" "distinct (map fst (as @ bs))"
    using assms(1) by (rule frames_at) auto
  have "q \<notin> fst ` set (as @ bs)" using spaced_distinct [OF assms(2)] by auto
  then show ?thesis using spliced_seg [OF s, of q k] assms(2) by (auto simp: frames_def)
qed

lemma inserted_frames:
  assumes "frames s (as @ (p, n) # bs)" and "spaced (as @ (q, unat k) # (p, n) # bs)"
  shows "frames (spliced (pff_prev (pf_mem s p)) q k (Some p) s) (as @ (q, unat k) # (p, n) # bs)"
proof -
  obtain l where s: "seg (pf_mem s) None (first_free_page s) as (pff_prev (pf_mem s p)) (Some p)"
    "seg (pf_mem s) (pff_prev (pf_mem s p)) (Some p) ((p, n) # bs) l None" "distinct (map fst (as @ (p, n) # bs))"
    using assms(1) by (rule frames_at) auto
  have "q \<notin> fst ` set (as @ (p, n) # bs)" using spaced_distinct [OF assms(2)] by auto
  then show ?thesis using spliced_seg [OF s, of q k] assms(2) by (auto simp: frames_def)
qed

lemma appended_frames:
  assumes "frames s (as @ [(p, n)])" and "spaced (as @ (p, n) # [(q, unat k)])"
  shows "frames (spliced (Some p) q k None s) (as @ (p, n) # [(q, unat k)])"
proof -
  have s: "seg (pf_mem s) None (first_free_page s) (as @ [(p, n)]) (Some p) None" "distinct (map fst (as @ [(p, n)]))"
    using assms(1) spaced_distinct [of "as @ [(p, n)]"] unfolding frames_def seg_append by auto
  have "q \<notin> fst ` set (as @ [(p, n)])" using spaced_distinct [OF assms(2)] by auto
  then show ?thesis
    using spliced_seg [OF s(1), of None None "[]" None q k] s(2) assms(2) by (auto simp: frames_def)
qed

lemma splice_sequence:
  assumes "pr \<noteq> Some q" and "c \<noteq> Some q"
  shows "upd_page q (pff_size_update (\<lambda>_. k)) (link_next pr (Some q) (upd_page q (pff_prev_update (\<lambda>_. pr))
      (link_prev c (Some q) (upd_page q (pff_next_update (\<lambda>_. c)) s)))) = spliced pr q k c s"
    and "upd_page q (pff_next_update (\<lambda>_. c)) (link_next pr (Some q) (upd_page q (pff_prev_update (\<lambda>_. pr))
      (upd_page q (pff_size_update (\<lambda>_. k)) s))) = link_next pr (Some q) (upd_page q (\<lambda>_. \<lparr>pff_prev = pr, pff_next = c, pff_size = k\<rparr>) s)"
  using assms by (cases pr; cases c; auto simp: spliced_def link_next_def link_prev_def upd_page_def fun_eq_iff)+

lemma fst_notin_spaced: "spaced (as @ (p, n) # bs) \<Longrightarrow> p < q \<Longrightarrow> q < p + n \<Longrightarrow> q \<notin> fst ` set (as @ (p, n) # bs)"
  by (fastforce simp: spaced_append)

section \<open>Allocation and release on the list of regions\<close>

lemma first_fit_find:
  "seg m prev cur rs l None \<Longrightarrow> first_fit m n cur = Some (map_option fst (find (\<lambda>(p, k). unat n \<le> k) rs))"
proof (induction rs arbitrary: prev cur)
  case Nil
  then show ?case by (subst first_fit.simps) simp
next
  case (Cons r rs)
  then show ?case by (subst first_fit.simps) (cases r; auto simp: word_le_nat_alt)
qed

lemma find_split: "find P xs = Some x \<Longrightarrow> \<exists>as bs. xs = as @ x # bs \<and> P x \<and> (\<forall>y \<in> set as. \<not> P y)"
proof (induction xs)
  case (Cons y xs)
  then show ?case
  proof (cases "P y")
    case False
    then obtain as bs where "xs = as @ x # bs \<and> P x \<and> (\<forall>y \<in> set as. \<not> P y)" using Cons by auto
    then show ?thesis using False by (intro exI [of _ "y # as"] exI [of _ bs]) auto
  qed (auto intro: exI [of _ "[]"])
qed simp

lemma frames_locked [simp]:
  "frames (s\<lparr>s_spinner := x\<rparr>) rs = frames s rs" "frames (kpagealloc_unlock s) rs = frames s rs"
  "frames (s\<lparr>total_allocated_pages := t\<rparr>) rs = frames s rs"
  by (simp_all add: frames_def kpagealloc_unlock_def)

lemma kpagealloc_lock_free: "s_spinner s = 0 \<Longrightarrow> kpagealloc_lock s = Done (s\<lparr>s_spinner := 1\<rparr>)"
  by (simp add: kpagealloc_lock_def kspinlock_trylock_def)

text \<open>What is left of a region from which \<open>n\<close> pages are taken.\<close>

definition rest_of :: "nat \<times> nat \<Rightarrow> nat \<Rightarrow> (nat \<times> nat) list" where
  "rest_of r n = (if snd r = n then [] else [(fst r + n, snd r - n)])"

lemma spaced_rest:
  assumes "spaced (as @ (p, k) # bs)" and "0 < n" and "n \<le> k"
  shows "spaced (as @ rest_of (p, k) n @ bs)"
    and "pages_of (as @ rest_of (p, k) n @ bs) = pages_of (as @ (p, k) # bs) - {p..<p + n}"
    and "{p..<p + n} \<subseteq> pages_of (as @ (p, k) # bs)"
proof -
  show "spaced (as @ rest_of (p, k) n @ bs)"
    using assms by (fastforce simp: spaced_append rest_of_def)
  have "q + j < p" if "(q, j) \<in> set as" for q j using assms(1) that by (fastforce simp: spaced_append)
  moreover have "p + k < q" if "(q, j) \<in> set bs" for q j using assms(1) that by (fastforce simp: spaced_append)
  ultimately have "{p..<p + n} \<inter> pages_of as = {}" "{p..<p + n} \<inter> pages_of bs = {}"
    using assms(3) by (fastforce simp: pages_of_def)+
  then show "pages_of (as @ rest_of (p, k) n @ bs) = pages_of (as @ (p, k) # bs) - {p..<p + n}"
    using assms(2,3) by (auto simp: rest_of_def)
  show "{p..<p + n} \<subseteq> pages_of (as @ (p, k) # bs)" using assms(3) by auto
qed

lemma neighbours:
  assumes "frames s (as @ (p, k) # bs)"
  shows "pff_prev (pf_mem s p) = (if as = [] then None else Some (fst (last as)))"
    and "pff_next (pf_mem s p) = (if bs = [] then None else Some (fst (hd bs)))"
    and "q \<notin> fst ` set (as @ (p, k) # bs) \<Longrightarrow> pff_prev (pf_mem s p) \<noteq> Some q \<and> pff_next (pf_mem s p) \<noteq> Some q"
proof -
  obtain l where s: "seg (pf_mem s) None (first_free_page s) as (pff_prev (pf_mem s p)) (Some p)"
    "seg (pf_mem s) (Some p) (pff_next (pf_mem s p)) bs l None"
    using assms by (rule frames_at)
  show prev: "pff_prev (pf_mem s p) = (if as = [] then None else Some (fst (last as)))"
    using seg_last [OF s(1)] s(1) by auto
  show succ: "pff_next (pf_mem s p) = (if bs = [] then None else Some (fst (hd bs)))"
    using seg_first [OF s(2)] s(2) by auto
  show "pff_prev (pf_mem s p) \<noteq> Some q \<and> pff_next (pf_mem s p) \<noteq> Some q" if "q \<notin> fst ` set (as @ (p, k) # bs)"
    using that last_in_set [of as] hd_in_set [of bs] unfolding prev succ by auto
qed

lemma take_iter_spinner [simp]: "s_spinner (take_iter p n s) = 0"
  by (simp add: take_iter_def kpagealloc_unlock_def Let_def)

lemma take_iter_frames:
  assumes "frames s (as @ (p, k) # bs)" and "0 < unat n" and "unat n \<le> k"
  shows "frames (take_iter p n s) (as @ rest_of (p, k) (unat n) @ bs)"
proof -
  obtain l where s: "unat (pff_size (pf_mem s p)) = k" "spaced (as @ (p, k) # bs)"
    "seg (pf_mem s) None (first_free_page s) as (pff_prev (pf_mem s p)) (Some p)"
    "seg (pf_mem s) (Some p) (pff_next (pf_mem s p)) bs l None"
    using assms(1) by (rule frames_at)
  show ?thesis
  proof (cases "k = unat n")
    case True
    then have "pff_size (pf_mem s p) = n" using s(1) by (auto intro: unsigned_word_eqI)
    then show ?thesis
      using unlinked_frames [OF assms(1)] True by (simp add: take_iter_def unlinked_def rest_of_def Let_def)
  next
    case False
    let ?q = "p + unat n" and ?z = "pff_size (pf_mem s p) - n"
    have ne: "pff_size (pf_mem s p) \<noteq> n" using False s(1) by auto
    have z: "unat ?z = k - unat n" using assms(3) s(1) by (simp add: unat_sub word_le_nat_alt)
    have "?q \<notin> fst ` set (as @ (p, k) # bs)" using s(2) assms(2,3) False by (intro fst_notin_spaced) auto
    then have "pff_prev (pf_mem s p) \<noteq> Some ?q" "pff_next (pf_mem s p) \<noteq> Some ?q"
      using neighbours [OF assms(1)] by auto
    moreover have "spaced (as @ (?q, unat ?z) # bs)"
      using spaced_rest(1) [OF s(2) assms(2,3)] False z by (simp add: rest_of_def)
    ultimately show ?thesis
      using replaced_frames [OF assms(1), of ?q ?z] splice_sequence(1) ne False z
      by (simp add: take_iter_def rest_of_def Let_def)
  qed
qed

text \<open>Regions do not touch, so consecutive free pages lie in one region.\<close>

lemma gap_behind: "spaced rs \<Longrightarrow> (p, k) \<in> set rs \<Longrightarrow> p + k \<notin> pages_of rs"
proof (induction rs rule: spaced.induct)
  case (2 q j rs)
  then show ?case
  proof (cases "(p, k) = (q, j)")
    case True
    then have "p + k < q'" if "(q', j') \<in> set rs" for q' j' using 2 that by auto
    then have "p + k \<notin> pages_of rs" by (force simp: pages_of_def)
    then show ?thesis using True by simp
  next
    case False
    then have "q + j < p" using 2 by auto
    then show ?thesis using 2 False by auto
  qed
qed simp

lemma run_in_region:
  assumes "spaced rs" and "{q..<q + n} \<subseteq> pages_of rs" and "0 < n"
  shows "\<exists>(p, k) \<in> set rs. n \<le> k"
proof -
  have "q \<in> pages_of rs" using assms(2,3) by auto
  then obtain p k where r: "(p, k) \<in> set rs" "p \<le> q" "q < p + k" by (auto simp: pages_of_def)
  have "i < n \<Longrightarrow> q + i < p + k" for i
  proof (induction i)
    case (Suc i)
    have "q + Suc i \<in> pages_of rs" using assms(2) Suc.prems by auto
    then have "q + Suc i \<noteq> p + k" using gap_behind [OF assms(1) r(1)] by auto
    then show ?case using Suc by simp
  qed (use r in simp)
  from this [of "n - 1"] have "n \<le> k" using assms(3) r(2) by simp
  then show ?thesis using r(1) by auto
qed

lemma alloc_many_frames:
  assumes "frames s rs" and "s_spinner s = 0" and "n \<noteq> 0"
  shows "\<exists>r s' rs'. kpageframe_alloc_many n s = Done (r, s') \<and> frames s' rs' \<and> s_spinner s' = 0
    \<and> (case r of None \<Rightarrow> pages_of rs' = pages_of rs \<and> (\<forall>p. \<not> {p..<p + unat n} \<subseteq> pages_of rs)
       | Some p \<Rightarrow> {p..<p + unat n} \<subseteq> pages_of rs \<and> pages_of rs' = pages_of rs - {p..<p + unat n})"
proof -
  let ?s = "s\<lparr>s_spinner := 1\<rparr>"
  have n: "0 < unat n" using assms(3) by (simp add: word_gt_0_unat [symmetric])
  obtain l where l: "seg (pf_mem ?s) None (first_free_page ?s) rs l None" and sp: "spaced rs"
    using assms(1) by (auto simp: frames_def)
  note fit = first_fit_find [OF l, of n]
  show ?thesis
  proof (cases "find (\<lambda>(p, k). unat n \<le> k) rs")
    case None
    then have "\<not> {p..<p + unat n} \<subseteq> pages_of rs" for p
      using run_in_region [OF sp, of p "unat n"] n by (fastforce simp: find_None_iff)
    then show ?thesis
      using None fit assms(1) unfolding kpageframe_alloc_many_def kpagealloc_lock_free [OF assms(2)]
      by (intro exI [of _ None] exI [of _ "kpagealloc_unlock ?s"] exI [of _ rs]) (simp add: returns_def kpagealloc_unlock_def)
  next
    case (Some r)
    obtain p k where r: "r = (p, k)" by (cases r)
    obtain as bs where split: "rs = as @ (p, k) # bs" "unat n \<le> k" using find_split [OF Some] r by auto
    have "frames ?s (as @ (p, k) # bs)" using assms(1) split by simp
    from take_iter_frames [OF this n split(2)] spaced_rest [OF sp [unfolded split(1)] n split(2)]
    show ?thesis
      using Some r fit split(1) unfolding kpageframe_alloc_many_def kpagealloc_lock_free [OF assms(2)]
      by (intro exI [of _ "Some p"] exI [of _ "take_iter p n ?s"] exI [of _ "as @ rest_of (p, k) (unat n) @ bs"])
        (simp add: returns_def)
  qed
qed

lemma free_spot_split:
  assumes "seg m prev (Some p0) rs l None"
  shows "\<exists>as p k bs. rs = as @ (p, k) # bs \<and> free_spot m st en p0 = Some p
    \<and> (en = p \<or> p + k = st \<or> en < p \<or> bs = [])
    \<and> (\<forall>(q, j) \<in> set as. en \<noteq> q \<and> q + j \<noteq> st \<and> q < en)"
  using assms
proof (induction rs arbitrary: prev p0)
  case (Cons r rs)
  obtain k where r: "r = (p0, k)" "unat (pff_size (m p0)) = k" and tail: "seg m (Some p0) (pff_next (m p0)) rs l None"
    using Cons.prems by (cases r) auto
  have nil: "pff_next (m p0) = None \<longleftrightarrow> rs = []" using tail by (cases rs) auto
  show ?case
  proof (cases "free_stops m st en p0")
    case True
    then show ?thesis using r nil
      by (intro exI [of _ "[]"] exI [of _ p0] exI [of _ k] exI [of _ rs]) (subst free_spot.simps, auto simp: free_stops_def)
  next
    case False
    then obtain p1 where p1: "pff_next (m p0) = Some p1" by (auto simp: free_stops_def)
    obtain as p k' bs where IH: "rs = as @ (p, k') # bs" "free_spot m st en p1 = Some p"
      "en = p \<or> p + k' = st \<or> en < p \<or> bs = []" "\<forall>(q, j) \<in> set as. en \<noteq> q \<and> q + j \<noteq> st \<and> q < en"
      using Cons.IH [of "Some p0" p1] tail p1 by auto
    have "free_spot m st en p0 = Some p" using False p1 IH(2) by (subst free_spot.simps) simp
    then show ?thesis using IH False r
      by (intro exI [of _ "r # as"] exI [of _ p] exI [of _ k'] exI [of _ bs]) (auto simp: free_stops_def)
  qed
qed simp

text \<open>The five cases of \<open>kpageframe_free\<close>; links that are already right are not changed by setting them.\<close>

lemma link_next_same:
  "(case pr of None \<Rightarrow> first_free_page s | Some x \<Rightarrow> pff_next (pf_mem s x)) = v \<Longrightarrow> link_next pr v s = s"
  by (cases pr) (auto simp: link_next_def upd_page_def)

lemma link_prev_same:
  "(\<And>x. c = Some x \<Longrightarrow> pff_prev (pf_mem s x) = v) \<Longrightarrow> link_prev c v s = s"
  by (cases c) (auto simp: link_prev_def upd_page_def)

lemma seg_end_next:
  assumes "seg m prev cur rs pr c" and "prev = None"
  shows "(case pr of None \<Rightarrow> cur | Some x \<Rightarrow> pff_next (m x)) = c"
proof (cases "rs = []")
  case False
  then obtain rs' p n where "rs = rs' @ [(p, n)]" by (metis append_butlast_last_id surj_pair)
  then show ?thesis using assms(1) by (auto simp: seg_append)
qed (use assms in auto)

lemma free_at_below:
  assumes "start + unat n = p" and "pff_prev (pf_mem s p) \<noteq> Some start" and "pff_next (pf_mem s p) \<noteq> Some start"
  shows "free_at start n p s
    = spliced (pff_prev (pf_mem s p)) start (n + pff_size (pf_mem s p)) (pff_next (pf_mem s p)) s"
  using assms splice_sequence(1) [OF assms(2,3)] by (simp add: free_at_def Let_def)

lemma free_at_before:
  assumes "start + unat n < p" and "p + unat (pff_size (pf_mem s p)) \<noteq> start"
    and "pff_prev (pf_mem s p) \<noteq> Some start" and "pff_prev (pf_mem s p) \<noteq> Some p"
  shows "free_at start n p s = spliced (pff_prev (pf_mem s p)) start n (Some p) s"
  using assms splice_sequence(2) [OF assms(3), of "Some p" n s]
  by (cases "pff_prev (pf_mem s p)")
    (auto simp: free_at_def Let_def spliced_def link_next_def link_prev_def upd_page_def fun_eq_iff)

lemma free_at_last:
  assumes "p \<noteq> start" and "p + unat (pff_size (pf_mem s p)) \<noteq> start" and "\<not> start + unat n \<le> p"
  shows "free_at start n p s = spliced (Some p) start n None s"
  using assms by (auto simp: free_at_def Let_def spliced_def link_next_def link_prev_def upd_page_def fun_eq_iff)

lemma respliced:
  assumes "frames s (as @ (p, k) # bs)"
  shows "spliced (pff_prev (pf_mem s p)) p z c s = link_prev c (Some p) (upd_page p (\<lambda>f. f\<lparr>pff_next := c, pff_size := z\<rparr>) s)"
proof -
  let ?pr = "pff_prev (pf_mem s p)" and ?u = "upd_page p (\<lambda>f. f\<lparr>pff_next := c, pff_size := z\<rparr>) s"
  obtain l where s: "seg (pf_mem s) None (first_free_page s) as ?pr (Some p)" "distinct (map fst (as @ (p, k) # bs))"
    using assms by (rule frames_at)
  have u: "upd_page p (\<lambda>_. \<lparr>pff_prev = ?pr, pff_next = c, pff_size = z\<rparr>) s = ?u"
    by (simp add: upd_page_def fun_eq_iff)
  have "?pr \<noteq> Some p" using neighbours(1) [OF assms] s(2) last_in_set [of as] by (auto simp: image_iff)
  then have "(case ?pr of None \<Rightarrow> first_free_page (link_prev c (Some p) ?u)
      | Some x \<Rightarrow> pff_next (pf_mem (link_prev c (Some p) ?u) x)) = Some p"
    using seg_end_next [OF s(1) refl]
    by (auto simp: link_prev_def upd_page_def split: option.splits)
  then show ?thesis unfolding spliced_def u by (rule link_next_same)
qed

lemma free_at_above:
  assumes "frames s (as @ (p, k) # bs)" and "p + k = start" and "bs = [] \<or> fst (hd bs) \<noteq> start + unat n"
    and "start + unat n \<le> 2 ^ 20" and "n \<noteq> 0" and "spaced (as @ (p, k + unat n) # bs)"
  shows "frames (free_at start n p s) (as @ (p, k + unat n) # bs)"
proof -
  let ?z = "pff_size (pf_mem s p) + n" and ?c = "pff_next (pf_mem s p)"
  obtain l where s: "unat (pff_size (pf_mem s p)) = k" "seg (pf_mem s) (Some p) ?c bs l None" "distinct (map fst (as @ (p, k) # bs))"
    using assms(1) by (rule frames_at)
  have z: "unat ?z = k + unat n" using assms(2,4) s(1) by (subst unat_plus_if') simp
  have "link_prev ?c (Some p) (upd_page p (\<lambda>f. f\<lparr>pff_next := ?c, pff_size := ?z\<rparr>) s) = upd_page p (pff_size_update (\<lambda>x. x + n)) s"
    using s(2,3) by (subst link_prev_same; cases bs) (auto simp: upd_page_def fun_eq_iff)
  then have "spliced (pff_prev (pf_mem s p)) p ?z ?c s = upd_page p (pff_size_update (\<lambda>x. x + n)) s"
    using respliced [OF assms(1)] by simp
  moreover have "free_at start n p s = upd_page p (pff_size_update (\<lambda>x. x + n)) s"
    using assms(2,3,5) s(1) z neighbours(2) [OF assms(1)]
    by (auto simp: free_at_def Let_def word_gt_0_unat split: option.split if_splits)
  ultimately show ?thesis using replaced_frames [OF assms(1), of p ?z] z assms(6) by simp
qed

lemma free_at_join:
  assumes "frames s (as @ (p, k) # (start + unat n, j) # bs)" and "p + k = start"
    and "start + unat n \<le> 2 ^ 20" and "n \<noteq> 0" and "spaced (as @ (p, k + unat n + j) # bs)"
  shows "frames (free_at start n p s) (as @ (p, k + unat n + j) # bs)"
proof -
  let ?q = "start + unat n"
  let ?z = "pff_size (pf_mem s p) + n + pff_size (pf_mem s ?q)" and ?c = "pff_next (pf_mem s ?q)"
  obtain l where s: "unat (pff_size (pf_mem s p)) = k" "seg (pf_mem s) (Some p) (pff_next (pf_mem s p)) ((?q, j) # bs) l None"
    "distinct (map fst (as @ (p, k) # (?q, j) # bs))" "seg (pf_mem s) None (first_free_page s) as (pff_prev (pf_mem s p)) (Some p)"
    "spaced (as @ (p, k) # (?q, j) # bs)"
    using assms(1) by (rule frames_at)
  have q: "pff_next (pf_mem s p) = Some ?q" "unat (pff_size (pf_mem s ?q)) = j" "seg (pf_mem s) (Some ?q) ?c bs l None"
    using s(2) by auto
  have z1: "unat (pff_size (pf_mem s p) + n) = k + unat n" using assms(2,3) s(1) by (subst unat_plus_if') simp
  have "?q + j \<le> 2 ^ 20" using s(5) by (auto simp: spaced_append)
  then have z: "unat ?z = k + unat n + j" using assms(2) z1 q(2) by (subst unat_plus_if') simp
  have "?q \<noteq> p" using assms(2,4) by (simp add: word_gt_0_unat)
  have "free_at start n p s = link_prev ?c (Some p) (upd_page p (\<lambda>f. f\<lparr>pff_next := ?c, pff_size := ?z\<rparr>) s)"
  proof -
    have "free_at start n p s = link_prev ?c (Some p) (upd_page p (pff_next_update (\<lambda>_. ?c))
        (upd_page p (pff_size_update (\<lambda>x. x + pff_size (pf_mem s ?q))) (upd_page p (pff_size_update (\<lambda>x. x + n)) s)))"
      using assms(2) s(1) q(1) z1 \<open>?q \<noteq> p\<close> by (simp add: free_at_def Let_def upd_page_def add.assoc)
    then show ?thesis by (cases "pf_mem s p") (simp add: upd_page_def)
  qed
  also have "\<dots> = spliced (pff_prev (pf_mem s p)) p ?z ?c s"
    using respliced [OF assms(1)] by simp
  finally show ?thesis
    using spliced_seg [OF s(4) q(3), of p ?z] s(3) z assms(5) by (auto simp: frames_def image_iff)
qed

lemma disjoint_region:
  assumes "{start..<e} \<inter> pages_of rs = {}" and "(q, j) \<in> set rs" and "0 < j" and "start < e"
  shows "q + j \<le> start \<or> e \<le> q"
proof (rule ccontr)
  assume "\<not> ?thesis"
  then have "max q start \<in> {start..<e} \<and> max q start \<in> {q..<q + j}" using assms(3,4) by auto
  moreover have "{q..<q + j} \<subseteq> pages_of rs" using assms(2) by (auto simp: pages_of_def)
  ultimately show False using assms(1) by blast
qed

lemma spaced_hd_le: "spaced bs \<Longrightarrow> (q, j) \<in> set bs \<Longrightarrow> fst (hd bs) \<le> q"
  by (cases bs) fastforce+

lemma free_above_frames:
  assumes fr: "frames s (as @ (p, k) # bs)" and n: "n \<noteq> 0" and above: "p + k = start" and e: "start + unat n \<le> 2 ^ 20"
    and behind: "\<forall>(q, j) \<in> set bs. start + unat n \<le> q"
  shows "\<exists>rs'. frames (free_at start n p s) rs' \<and> pages_of rs' = pages_of (as @ (p, k) # bs) \<union> {start..<start + unat n}"
proof -
  let ?e = "start + unat n"
  obtain l where sp: "spaced (as @ (p, k) # bs)" using fr by (rule frames_at)
  have pk: "0 < k" "spaced as" "spaced bs" "\<forall>(q, j) \<in> set as. q + j < p" using sp by (fastforce simp: spaced_append)+
  show ?thesis
  proof (cases "bs \<noteq> [] \<and> fst (hd bs) = ?e")
    case True
    then obtain j bs' where b: "bs = (?e, j) # bs'" by (cases bs) auto
    have "0 < j" "spaced bs'" "\<forall>(q, i) \<in> set bs'. ?e + j < q" "?e + j \<le> 2 ^ 20" using pk(3) b by auto
    then have "spaced (as @ (p, k + unat n + j) # bs')" using pk sp above b by (fastforce simp: spaced_append)
    then have "frames (free_at start n p s) (as @ (p, k + unat n + j) # bs')"
      using fr b above e n by (intro free_at_join) auto
    moreover have "pages_of (as @ (p, k + unat n + j) # bs') = pages_of (as @ (p, k) # bs) \<union> {start..<?e}"
      using above b by auto
    ultimately show ?thesis by blast
  next
    case False
    have "?e < q" if "(q, j) \<in> set bs" for q j
    proof -
      have "?e \<le> fst (hd bs)" using behind that by (cases bs) auto
      then show ?thesis using spaced_hd_le [OF pk(3) that] False that by (cases "bs = []") auto
    qed
    then have "spaced (as @ (p, k + unat n) # bs)" using pk sp above e by (fastforce simp: spaced_append)
    then have "frames (free_at start n p s) (as @ (p, k + unat n) # bs)"
      using fr above e n False by (intro free_at_above) auto
    moreover have "pages_of (as @ (p, k + unat n) # bs) = pages_of (as @ (p, k) # bs) \<union> {start..<?e}" using above by auto
    ultimately show ?thesis by blast
  qed
qed

lemma free_at_frames:
  assumes fr: "frames s (as @ (p, k) # bs)" and n: "n \<noteq> 0"
    and dis: "{start..<start + unat n} \<inter> pages_of (as @ (p, k) # bs) = {}" and e: "start + unat n \<le> 2 ^ 20"
    and stop: "start + unat n = p \<or> p + k = start \<or> start + unat n < p \<or> bs = []"
    and before: "\<forall>(q, j) \<in> set as. start + unat n \<noteq> q \<and> q + j \<noteq> start \<and> q < start + unat n"
  shows "\<exists>rs'. frames (free_at start n p s) rs' \<and> pages_of rs' = pages_of (as @ (p, k) # bs) \<union> {start..<start + unat n}"
proof -
  let ?e = "start + unat n"
  have n0: "0 < unat n" using n by (simp add: word_gt_0_unat)
  obtain l where s: "unat (pff_size (pf_mem s p)) = k" "spaced (as @ (p, k) # bs)" "distinct (map fst (as @ (p, k) # bs))"
    using fr by (rule frames_at)
  have pos: "0 < j \<and> (q + j \<le> start \<or> ?e \<le> q)" if "(q, j) \<in> set (as @ (p, k) # bs)" for q j
    using spaced_pos [OF s(2) that] disjoint_region [OF dis that] n0 by auto
  have as: "q + j < start" if "(q, j) \<in> set as" for q j using pos [of q j] before that by fastforce
  have st: "start \<notin> fst ` set (as @ (p, k) # bs)" using pos n0 by fastforce
  have bs: "p + k < q" if "(q, j) \<in> set bs" for q j using s(2) that by (fastforce simp: spaced_append)
  note nb = neighbours [OF fr]
  have pk: "0 < k" "p + k \<le> 2 ^ 20" "spaced as" "spaced bs" using s(2) by (auto simp: spaced_append)
  consider (below) "?e = p" | (above) "p + k = start" | (ahead) "?e < p" | (last) "bs = []" "p < ?e" "p + k \<noteq> start"
    using stop by fastforce
  then show ?thesis
  proof cases
    case below
    have z: "unat (n + pff_size (pf_mem s p)) = unat n + k" using below pk(2) s(1) by (subst unat_plus_if') simp
    have "spaced (as @ (start, unat n + k) # bs)" using pk as bs below by (fastforce simp: spaced_append)
    then have "frames (free_at start n p s) (as @ (start, unat n + k) # bs)"
      using replaced_frames [OF fr, of start "n + pff_size (pf_mem s p)"] free_at_below [of start n p s] nb(3) [OF st] below z by simp
    moreover have "pages_of (as @ (start, unat n + k) # bs) = pages_of (as @ (p, k) # bs) \<union> {start..<?e}" using below by auto
    ultimately show ?thesis by blast
  next
    case above
    have "?e \<le> q" if "(q, j) \<in> set bs" for q j using pos [of q j] bs [OF that] above that by auto
    then have "\<forall>(q, j) \<in> set bs. ?e \<le> q" by auto
    then show ?thesis using free_above_frames [OF fr n above e] by simp
  next
    case ahead
    have "spaced (as @ (start, unat n) # (p, k) # bs)" using s(2) as bs ahead n0 e by (fastforce simp: spaced_append)
    moreover have "pff_prev (pf_mem s p) \<noteq> Some p" using nb(1) s(3) last_in_set [of as] by (auto simp: image_iff)
    then have "free_at start n p s = spliced (pff_prev (pf_mem s p)) start n (Some p) s"
      using ahead s(1) nb(3) [OF st] n0 by (intro free_at_before) auto
    ultimately have "frames (free_at start n p s) (as @ (start, unat n) # (p, k) # bs)"
      using inserted_frames [OF fr, of start n] by simp
    moreover have "pages_of (as @ (start, unat n) # (p, k) # bs) = pages_of (as @ (p, k) # bs) \<union> {start..<?e}" by auto
    ultimately show ?thesis by blast
  next
    case last
    have "p + k < start" using pos [of p k] last by auto
    then have "spaced (as @ (p, k) # [(start, unat n)])" using s(2) as last n0 e by (fastforce simp: spaced_append)
    moreover have "free_at start n p s = spliced (Some p) start n None s"
      using last st s(1) by (intro free_at_last) auto
    ultimately have "frames (free_at start n p s) (as @ (p, k) # [(start, unat n)])"
      using appended_frames [of s as p k start n] fr last(1) by simp
    moreover have "pages_of (as @ (p, k) # [(start, unat n)]) = pages_of (as @ (p, k) # bs) \<union> {start..<?e}" using last by auto
    ultimately show ?thesis by blast
  qed
qed

lemma free_frames:
  assumes "frames s rs" and "s_spinner s = 0" and "n \<noteq> 0" and "{start..<start + unat n} \<inter> pages_of rs = {}"
    and "start + unat n \<le> 2 ^ 20"
  shows "\<exists>s' rs'. kpageframe_free start n s = Done s' \<and> frames s' rs' \<and> s_spinner s' = 0
    \<and> pages_of rs' = pages_of rs \<union> {start..<start + unat n}"
proof -
  let ?s = "s\<lparr>s_spinner := 1\<rparr>" and ?e = "start + unat n"
  have fr: "frames ?s rs" using assms(1) by simp
  obtain l where l: "seg (pf_mem ?s) None (first_free_page ?s) rs l None" using assms(1) by (auto simp: frames_def)
  have fin: "\<exists>s' rs'. kpageframe_free start n s = Done s' \<and> frames s' rs' \<and> s_spinner s' = 0
      \<and> pages_of rs' = pages_of rs \<union> {start..<?e}"
    if "kpageframe_free start n s = Done (kpagealloc_unlock (t\<lparr>total_allocated_pages := total_allocated_pages t - n\<rparr>))"
      and "frames t rs'" and "pages_of rs' = pages_of rs \<union> {start..<?e}" for t rs'
    using that by (intro exI [of _ "kpagealloc_unlock (t\<lparr>total_allocated_pages := total_allocated_pages t - n\<rparr>)"] exI [of _ rs'])
      (simp add: kpagealloc_unlock_def)
  note unfold = kpageframe_free_def kpagealloc_lock_free [OF assms(2)]
  show ?thesis
  proof (cases rs)
    case Nil
    let ?t = "upd_page start (\<lambda>_. \<lparr>pff_prev = None, pff_next = None, pff_size = n\<rparr>) (?s\<lparr>first_free_page := Some start\<rparr>)"
    have "frames ?t [(start, unat n)]"
      using assms(3,5) by (auto simp: frames_def upd_page_def word_gt_0_unat)
    moreover have "kpageframe_free start n s = Done (kpagealloc_unlock (?t\<lparr>total_allocated_pages := total_allocated_pages ?t - n\<rparr>))"
      using l Nil by (simp add: unfold)
    ultimately show ?thesis using fin [of ?t "[(start, unat n)]"] Nil by simp
  next
    case (Cons r rs')
    then have first: "first_free_page ?s = Some (fst r)" using l by (cases r) auto
    obtain as p k bs where split: "rs = as @ (p, k) # bs" "free_spot (pf_mem ?s) start ?e (fst r) = Some p"
      "?e = p \<or> p + k = start \<or> ?e < p \<or> bs = []" "\<forall>(q, j) \<in> set as. ?e \<noteq> q \<and> q + j \<noteq> start \<and> q < ?e"
      using free_spot_split [of "pf_mem ?s" None "fst r" rs l start ?e] l first by auto
    obtain rs' where "frames (free_at start n p ?s) rs'" "pages_of rs' = pages_of rs \<union> {start..<?e}"
      using free_at_frames [of ?s as p k bs n start] fr assms(3-5) split by auto
    moreover have "kpageframe_free start n s =
        Done (kpagealloc_unlock ((free_at start n p ?s)\<lparr>total_allocated_pages := total_allocated_pages (free_at start n p ?s) - n\<rparr>))"
      using first split(2) by (simp add: unfold returns_def)
    ultimately show ?thesis by (intro fin)
  qed
qed

lemma alloc_one_frames:
  assumes "frames s rs" and "s_spinner s = 0"
  shows "\<exists>r s' rs'. kpageframe_alloc_one s = Done (r, s') \<and> frames s' rs' \<and> s_spinner s' = 0
    \<and> total_allocated_pages s' = total_allocated_pages s
    \<and> (case r of None \<Rightarrow> rs = [] \<and> rs' = []
       | Some p \<Rightarrow> p \<in> pages_of rs \<and> pages_of rs' = pages_of rs - {p})"
proof (cases rs)
  case Nil
  then have "first_free_page s = None" using assms(1) by (auto simp: frames_def)
  then show ?thesis
    using Nil assms by (auto simp: kpageframe_alloc_one_def kpagealloc_lock_free kpagealloc_unlock_def)
next
  case (Cons r rs')
  obtain p k where r: "r = (p, k)" by (cases r)
  let ?s = "s\<lparr>s_spinner := 1\<rparr>" and ?z = "pff_size (pf_mem s p)"
  have fr: "frames ?s ([] @ (p, k) # rs')" using assms(1) Cons r by simp
  obtain l where s: "unat ?z = k" "spaced ([] @ (p, k) # rs')" "seg (pf_mem ?s) None (first_free_page ?s) [] (pff_prev (pf_mem ?s p)) (Some p)"
    using fr by (rule frames_at) simp
  have first: "first_free_page s = Some p" "pff_prev (pf_mem s p) = None" using s(3) by auto
  note rest = spaced_rest [OF s(2), of 1]
  have k: "0 < k" using s(2) by simp
  show ?thesis
  proof (cases "?z = 1")
    case True
    then have "rest_of (p, k) 1 = []" using s(1) by (simp add: rest_of_def)
    moreover have "kpageframe_alloc_one s = Done (Some p, kpagealloc_unlock (unlinked None (pff_next (pf_mem s p)) ?s))"
      using assms(2) first True
      by (cases s; cases "pff_next (pf_mem s p)")
        (simp_all add: kpageframe_alloc_one_def kpagealloc_lock_free unlinked_def link_next_def link_prev_def upd_page_def Let_def)
    ultimately show ?thesis
      using unlinked_frames [OF fr] first rest k Cons r
      by (intro exI [of _ "Some p"] exI [of _ "kpagealloc_unlock (unlinked None (pff_next (pf_mem s p)) ?s)"] exI [of _ rs'])
        (auto simp: kpagealloc_unlock_def unlinked_def link_next_def link_prev_def upd_page_def split: option.split)
  next
    case False
    let ?t = "spliced None (p + 1) (?z - 1) (pff_next (pf_mem s p)) ?s"
    have ne: "k \<noteq> 1" using False s(1) by (metis unat_1 unsigned_word_eqI)
    have z: "unat (?z - 1) = k - 1" using s(1) k by (simp add: unat_minus_one word_gt_0_unat)
    have run: "kpageframe_alloc_one s = Done (Some p, kpagealloc_unlock ?t)"
      using assms(2) first False
      by (cases s; cases "pff_next (pf_mem s p)")
        (simp_all add: kpageframe_alloc_one_def kpagealloc_lock_free spliced_def link_next_def link_prev_def upd_page_def Let_def)
    have "frames ?t ([] @ (p + 1, unat (?z - 1)) # rs')"
      using replaced_frames [OF fr, of "p + 1" "?z - 1"] rest(1) k ne z first by (simp add: rest_of_def)
    then show ?thesis
      using run rest(2,3) k ne z Cons r
      by (intro exI [of _ "Some p"] exI [of _ "kpagealloc_unlock ?t"] exI [of _ "rest_of (p, k) 1 @ rs'"])
        (auto simp: rest_of_def kpagealloc_unlock_def spliced_def link_next_def link_prev_def upd_page_def split: option.split)
  qed
qed

end
