(* ===== verification/PageAlloc.thy ===== *)
theory PageAlloc
  imports PageFrame
begin

text \<open>
  What the users of the page frame allocator rely on. The interface \<open>page_allocator\<close> and its clients, that the functions
  of \<^verbatim>\<open>src/kernel/pageframe.c\<close> implement it, the registration of the memory map of the boot loader, the queries, and
  where the allocator damages its own list.
\<close>

section \<open>The free pages of an allocator\<close>

lemma seg_unique: "seg m prev cur rs l None \<Longrightarrow> seg m prev cur rs' l' None \<Longrightarrow> rs = rs'"
proof (induction rs arbitrary: prev cur rs')
  case Nil
  then show ?case by (cases rs') auto
next
  case (Cons r rs)
  obtain p n where r: "r = (p, n)" by (cases r)
  have cur: "cur = Some p" "seg m (Some p) (pff_next (m p)) rs l None" "n = unat (pff_size (m p))"
    using Cons.prems(1) r by auto
  obtain rs'' where "rs' = (p, n) # rs''" "seg m (Some p) (pff_next (m p)) rs'' l' None"
    using Cons.prems(2) cur(1,3) by (cases rs') auto
  then show ?case using Cons.IH [OF cur(2)] r by simp
qed

lemma frames_unique: "frames s rs \<Longrightarrow> frames s rs' \<Longrightarrow> rs = rs'"
  unfolding frames_def using seg_unique by blast

definition pf_ok :: "kpagealloc \<Rightarrow> bool" where
  "pf_ok s \<longleftrightarrow> (\<exists>rs. frames s rs) \<and> s_spinner s = 0"

definition free_pages :: "kpagealloc \<Rightarrow> nat set" where
  "free_pages s = {p. \<exists>rs. frames s rs \<and> p \<in> pages_of rs}"

lemma free_pages_eq: "frames s rs \<Longrightarrow> free_pages s = pages_of rs"
  unfolding free_pages_def using frames_unique by blast

section \<open>Clients of a page allocator\<close>

text \<open>
  What a client relies on: a request either fails, and then there is no run of that many free pages, or hands out
  pages that were free; a block that is not free can be given back. A client asks for blocks and gives back
  what it holds, in any order.
\<close>

datatype request = Get size_t | Put nat

abbreviation block :: "nat \<times> size_t \<Rightarrow> nat set" where
  "block b \<equiv> {fst b..<fst b + unat (snd b)}"

fun serve :: "(size_t \<Rightarrow> 's \<Rightarrow> (nat option \<times> 's) outcome) \<Rightarrow> (nat \<Rightarrow> size_t \<Rightarrow> 's \<Rightarrow> 's outcome)
    \<Rightarrow> request list \<Rightarrow> 's \<Rightarrow> (nat \<times> size_t) list \<Rightarrow> ('s \<times> (nat \<times> size_t) list) outcome" where
  "serve alloc release [] s held = Done (s, held)"
| "serve alloc release (Get n # qs) s held =
    (if n = 0 then serve alloc release qs s held
     else andthen (alloc n s) (\<lambda>(r, s).
       serve alloc release qs s (case r of None \<Rightarrow> held | Some p \<Rightarrow> (p, n) # held)))"
| "serve alloc release (Put i # qs) s held =
    (if i < length held then
       andthen (release (fst (held ! i)) (snd (held ! i)) s) (\<lambda>s.
         serve alloc release qs s (take i held @ drop (Suc i) held))
     else serve alloc release qs s held)"

definition held_apart :: "(nat \<times> size_t) list \<Rightarrow> nat set \<Rightarrow> bool" where
  "held_apart held free \<longleftrightarrow> sorted_wrt (\<lambda>a b. block a \<inter> block b = {}) held
    \<and> (\<forall>b \<in> set held. snd b \<noteq> 0 \<and> block b \<inter> free = {})"

lemma held_apart_add:
  assumes "held_apart held free" and "n \<noteq> 0" and "{p..<p + unat n} \<subseteq> free"
  shows "held_apart ((p, n) # held) (free - {p..<p + unat n})"
proof -
  have "block (p, n) \<inter> block b = {}" "block b \<inter> (free - {p..<p + unat n}) = {}" "snd b \<noteq> 0" if "b \<in> set held" for b
    using assms(1,3) that unfolding held_apart_def fst_conv snd_conv by blast+
  then show ?thesis using assms(1,2) unfolding held_apart_def sorted_wrt.simps(2) set_simps ball_simps(7) fst_conv snd_conv by blast
qed

lemma held_apart_remove:
  assumes "held_apart (as @ b # bs) free"
  shows "held_apart (as @ bs) (free \<union> block b)" and "block b \<inter> free = {}" and "snd b \<noteq> 0"
  using assms by (auto simp: held_apart_def sorted_wrt_append)

lemma block_bound:
  assumes "n \<noteq> 0" and "{p..<p + unat n} \<subseteq> {..<k}"
  shows "p + unat n \<le> k"
proof -
  have "0 < unat n" using assms(1) by (simp add: word_gt_0_unat [symmetric] word_neq_0_conv)
  then have "p + unat n - 1 \<in> {p..<p + unat n}" by auto
  then have "p + unat n - 1 < k" using assms(2) by auto
  then show ?thesis by simp
qed

locale page_allocator =
  fixes ok :: "'s \<Rightarrow> bool" and free :: "'s \<Rightarrow> nat set"
    and alloc :: "size_t \<Rightarrow> 's \<Rightarrow> (nat option \<times> 's) outcome"
    and release :: "nat \<Rightarrow> size_t \<Rightarrow> 's \<Rightarrow> 's outcome"
  assumes alloc_law: "ok s \<Longrightarrow> n \<noteq> 0 \<Longrightarrow> \<exists>r s'. alloc n s = Done (r, s') \<and> ok s'
      \<and> (case r of None \<Rightarrow> free s' = free s \<and> (\<forall>p. \<not> {p..<p + unat n} \<subseteq> free s)
         | Some p \<Rightarrow> {p..<p + unat n} \<subseteq> free s \<and> free s' = free s - {p..<p + unat n})"
    and release_law: "ok s \<Longrightarrow> n \<noteq> 0 \<Longrightarrow> p + unat n \<le> 2 ^ 20 \<Longrightarrow> {p..<p + unat n} \<inter> free s = {}
      \<Longrightarrow> \<exists>s'. release p n s = Done s' \<and> ok s' \<and> free s' = free s \<union> {p..<p + unat n}"
begin

lemma serve_conserves:
  assumes "ok s" and "held_apart held (free s)" and "free s \<union> \<Union> (block ` set held) = all" and "all \<subseteq> {..<2 ^ 20}"
  shows "\<exists>s' held'. serve alloc release qs s held = Done (s', held') \<and> ok s' \<and> held_apart held' (free s')
    \<and> free s' \<union> \<Union> (block ` set held') = all"
  using assms
proof (induction qs arbitrary: s held)
  case (Cons q qs)
  show ?case
  proof (cases q)
    case (Get n)
    show ?thesis
    proof (cases "n = 0")
      case False
      obtain r t where t: "alloc n s = Done (r, t)" "ok t"
        "case r of None \<Rightarrow> free t = free s | Some p \<Rightarrow> {p..<p + unat n} \<subseteq> free s \<and> free t = free s - {p..<p + unat n}"
        using alloc_law [OF Cons.prems(1) False] by (fastforce split: option.splits)
      let ?h = "case r of None \<Rightarrow> held | Some p \<Rightarrow> (p, n) # held"
      have "held_apart ?h (free t)" "free t \<union> \<Union> (block ` set ?h) = all"
        using t(3) Cons.prems(2,3) False by (auto simp: held_apart_add split: option.splits)
      then show ?thesis using Cons.IH [OF t(2)] Cons.prems(4) Get False t(1) by simp
    qed (use Get Cons in auto)
  next
    case (Put i)
    show ?thesis
    proof (cases "i < length held")
      case True
      let ?b = "held ! i"
      have h: "held = take i held @ ?b # drop (Suc i) held" using True by (rule id_take_nth_drop)
      note rem = held_apart_remove [of "take i held" ?b "drop (Suc i) held" "free s", folded h, OF Cons.prems(2)]
      have un: "\<Union> (block ` set held) = block ?b \<union> \<Union> (block ` set (take i held @ drop (Suc i) held))"
        by (subst h) auto
      have le: "fst ?b + unat (snd ?b) \<le> 2 ^ 20"
        using block_bound [OF rem(3)] un Cons.prems(3,4) by blast
      obtain t where t: "release (fst ?b) (snd ?b) s = Done t" "ok t" "free t = free s \<union> block ?b"
        using release_law [OF Cons.prems(1) rem(3) le rem(2)] by auto
      show ?thesis using Cons.IH [OF t(2), of "take i held @ drop (Suc i) held"] rem(1) t un Cons.prems(3,4) Put True
        by (simp add: Un_assoc)
    qed (use Put Cons in auto)
  qed
qed auto

end

lemma pf_alloc_law:
  assumes "pf_ok s" and "n \<noteq> 0"
  shows "\<exists>r s'. kpageframe_alloc_many n s = Done (r, s') \<and> pf_ok s'
      \<and> (case r of None \<Rightarrow> free_pages s' = free_pages s \<and> (\<forall>p. \<not> {p..<p + unat n} \<subseteq> free_pages s)
         | Some p \<Rightarrow> {p..<p + unat n} \<subseteq> free_pages s \<and> free_pages s' = free_pages s - {p..<p + unat n})"
proof -
  obtain rs where rs: "frames s rs" "s_spinner s = 0" using assms(1) by (auto simp: pf_ok_def)
  obtain r s' rs' where "kpageframe_alloc_many n s = Done (r, s')" "frames s' rs'" "s_spinner s' = 0"
    "case r of None \<Rightarrow> pages_of rs' = pages_of rs \<and> (\<forall>p. \<not> {p..<p + unat n} \<subseteq> pages_of rs)
       | Some p \<Rightarrow> {p..<p + unat n} \<subseteq> pages_of rs \<and> pages_of rs' = pages_of rs - {p..<p + unat n}"
    using alloc_many_frames [OF rs assms(2)] by blast
  then show ?thesis using rs free_pages_eq [OF rs(1)] free_pages_eq [of s' rs'] unfolding pf_ok_def
    by (intro exI [of _ r] exI [of _ s']) (auto split: option.splits)
qed

lemma pf_release_law:
  assumes "pf_ok s" and "n \<noteq> 0" and "p + unat n \<le> 2 ^ 20" and "{p..<p + unat n} \<inter> free_pages s = {}"
  shows "\<exists>s'. kpageframe_free p n s = Done s' \<and> pf_ok s' \<and> free_pages s' = free_pages s \<union> {p..<p + unat n}"
proof -
  obtain rs where rs: "frames s rs" "s_spinner s = 0" using assms(1) by (auto simp: pf_ok_def)
  obtain s' rs' where "kpageframe_free p n s = Done s'" "frames s' rs'" "s_spinner s' = 0"
    "pages_of rs' = pages_of rs \<union> {p..<p + unat n}"
    using free_frames [OF rs assms(2) _ assms(3)] assms(4) free_pages_eq [OF rs(1)] by auto
  then show ?thesis using free_pages_eq [OF rs(1)] free_pages_eq [of s' rs'] by (auto simp: pf_ok_def)
qed

lemma pf_alloc_one_law:
  assumes "pf_ok s"
  shows "\<exists>r s'. kpageframe_alloc_one s = Done (r, s') \<and> pf_ok s' \<and> total_allocated_pages s' = total_allocated_pages s
      \<and> (case r of None \<Rightarrow> free_pages s = {} \<and> free_pages s' = {}
         | Some p \<Rightarrow> p \<in> free_pages s \<and> free_pages s' = free_pages s - {p})"
proof -
  obtain rs where rs: "frames s rs" "s_spinner s = 0" using assms(1) by (auto simp: pf_ok_def)
  obtain r s' rs' where "kpageframe_alloc_one s = Done (r, s')" "frames s' rs'" "s_spinner s' = 0"
    "total_allocated_pages s' = total_allocated_pages s"
    "case r of None \<Rightarrow> rs = [] \<and> rs' = [] | Some p \<Rightarrow> p \<in> pages_of rs \<and> pages_of rs' = pages_of rs - {p}"
    using alloc_one_frames [OF rs] by blast
  then show ?thesis using rs free_pages_eq [OF rs(1)] free_pages_eq [of s' rs'] unfolding pf_ok_def
    by (intro exI [of _ r] exI [of _ s']) (auto split: option.splits)
qed

interpretation pf: page_allocator pf_ok free_pages kpageframe_alloc_many kpageframe_free
  by unfold_locales (rule pf_alloc_law pf_release_law; assumption)+

lemma free_pages_bounded: "pf_ok s \<Longrightarrow> free_pages s \<subseteq> {..<2 ^ 20}"
proof -
  assume "pf_ok s"
  then obtain rs where rs: "frames s rs" by (auto simp: pf_ok_def)
  have "spaced rs \<Longrightarrow> pages_of rs \<subseteq> {..<2 ^ 20}" by (induction rs rule: spaced.induct) auto
  then show ?thesis using rs free_pages_eq [OF rs] by (simp add: frames_def)
qed

section \<open>Adding memory\<close>

lemma unat_page_alignd: "unat (page_alignd x) = unat x div 4096 * 4096"
proof -
  have "(x AND 4095) + (x AND NOT 4095) = (x AND 4095) OR (x AND NOT 4095)"
    by (rule disjunctive_add) (simp add: bit_simps)
  also have "\<dots> = x" by (rule bit_eqI) (auto simp: bit_simps)
  finally have "x AND NOT 4095 = x - (x AND 4095)" by (simp add: algebra_simps)
  moreover have "x AND 4095 = take_bit 12 x" by (simp add: take_bit_eq_mask mask_eq_exp_minus_1)
  moreover have "unat (take_bit 12 x) = unat x mod 4096"
    by (simp add: take_bit_eq_mod unat_mod)
  ultimately have "unat (page_alignd x) = unat x - unat x mod 4096" by (simp add: page_alignd_def unat_sub_if')
  then show ?thesis by (simp add: minus_mod_eq_div_mult)
qed

text \<open>The pages that lie in the bytes from \<open>a\<close> up to \<open>b\<close>, without the page at address zero.\<close>

definition whole_pages :: "nat \<Rightarrow> nat \<Rightarrow> nat set" where
  "whole_pages a b = {p. 0 < p \<and> a \<le> 4096 * p \<and> 4096 * (p + 1) \<le> b}"

lemma whole_pages_eq: "whole_pages a b = {max 1 ((a + 4095) div 4096)..<b div 4096}"
  by (auto simp: whole_pages_def)

lemma div_nat_minus: "(x - 4096 * u) div 4096 = x div 4096 - (u :: nat)"
  by linarith

lemma page_ceiling:
  "x \<le> 4096 * ((x + 4095) div 4096)" "4096 * ((x + 4095) div 4096) \<le> x + (4095 :: nat)"
  by linarith+

lemma raminfo_sizes:
  assumes "unat a + unat n \<le> 2 ^ 32" and "8191 \<le> unat n"
  defines "u \<equiv> (unat a + 4095) div 4096" and "c \<equiv> (unat a + unat n) div 4096 - (unat a + 4095) div 4096"
  shows "unat (page_align a) = 4096 * u" and "unat (page_alignd (n - (page_align a - a))) = 4096 * c"
    and "0 < c" and "u + c = (unat a + unat n) div 4096"
proof -
  have s: "unat (a + 4095) = unat a + 4095" using assms(1,2) by (simp add: unat_plus_if')
  have "page_align a = page_alignd (a + 4095)" by (simp add: page_align_def page_alignd_def)
  then show 1: "unat (page_align a) = 4096 * u" using s by (simp add: unat_page_alignd u_def)
  note r = page_ceiling [of "unat a", folded u_def]
  have d: "unat (page_align a - a) = 4096 * u - unat a" using 1 r(1) by (simp add: unat_sub_if')
  then have "page_align a - a \<le> n" using r assms(2) unfolding word_le_nat_alt by linarith
  then have "unat (n - (page_align a - a)) = unat a + unat n - 4096 * u" using d r unat_sub by fastforce
  moreover have "(unat a + unat n - 4096 * u) div 4096 = c"
    using div_nat_minus [of "unat a + unat n" u] by (simp add: c_def u_def)
  ultimately show "unat (page_alignd (n - (page_align a - a))) = 4096 * c" by (simp add: unat_page_alignd)
  show "0 < c" "u + c = (unat a + unat n) div 4096" using assms(2) unfolding c_def u_def by linarith+
qed

lemma raminfo_mark_adds:
  assumes "pf_ok s" and "unat a + unat n \<le> 2 ^ 32" and "8191 \<le> unat n"
    and "whole_pages (unat a) (unat a + unat n) \<inter> free_pages s = {}"
  shows "\<exists>s'. raminfo_mark a n s = Done s' \<and> pf_ok s' \<and> free_pages s' = free_pages s \<union> whole_pages (unat a) (unat a + unat n)"
proof -
  define u c where "u = (unat a + 4095) div 4096" and "c = (unat a + unat n) div 4096 - u"
  note sz = raminfo_sizes [OF assms(2,3), folded u_def, folded c_def]
  have e: "u + c \<le> 2 ^ 20" using sz(4) div_le_mono [OF assms(2), of 4096] by simp
  have w: "whole_pages (unat a) (unat a + unat n) = {max 1 u..<u + c}" using sz(4) by (simp add: whole_pages_eq u_def)
  show ?thesis
  proof (cases "u = 0")
    case True
    then have z: "page_align a = 0" using sz(1) by (metis mult_0_right unat_eq_zero)
    show ?thesis
    proof (cases "c = 1")
      case True
      then show ?thesis using assms(1) z sz(2) w \<open>u = 0\<close> by (simp add: raminfo_mark_def Let_def word_le_nat_alt)
    next
      case False
      let ?k = "(page_alignd (n - (page_align a - a)) - 4096) div 4096"
      have k: "unat ?k = c - 1" using sz(2,3) by (simp add: unat_div unat_sub_if' flip: diff_mult_distrib2)
      then have "?k \<noteq> 0" using sz(3) False by (auto simp del: unat_eq_0 simp flip: unat_eq_0)
      then show ?thesis
        using k pf_release_law [OF assms(1), of ?k 1] assms(4) z sz(2,3) False w \<open>u = 0\<close> e
        by (auto simp: raminfo_mark_def Let_def word_le_nat_alt)
    qed
  next
    case False
    then have z: "page_align a \<noteq> 0" "unat (page_align a) div 4096 = u" using sz(1) by auto
    let ?k = "page_alignd (n - (page_align a - a)) div 4096"
    have k: "unat ?k = c" using sz(2) by (simp add: unat_div)
    then have nz: "?k \<noteq> 0" using sz(3) by auto
    show ?thesis using pf_release_law [OF assms(1) nz, of u] assms(4) z k w False e
      by (simp add: raminfo_mark_def Let_def)
  qed
qed

text \<open>
  The regions for which \<open>raminfo_addregion\<close> keeps its bookkeeping: apart from the kernel and of at least 8191 bytes, or
  around the kernel, with parts below and above it that are large enough (or too small to be looked at).
\<close>

definition usable_region :: "nat \<Rightarrow> nat \<Rightarrow> nat \<Rightarrow> nat \<Rightarrow> bool" where
  "usable_region kb ke a b \<longleftrightarrow> b \<le> 2 ^ 32 \<and>
    ((b \<le> kb \<or> ke \<le> a) \<and> a + 8191 \<le> b \<and> b - a < 2 ^ 32
     \<or> kb < ke \<and> a \<le> kb \<and> ke \<le> b \<and> a + 4096 \<le> b \<and> b < 2 ^ 32 \<and> (kb < a + 4096 \<or> a + 8191 \<le> kb) \<and> (b = ke \<or> ke + 8191 \<le> b))"

definition usable_pages :: "nat \<Rightarrow> nat \<Rightarrow> nat \<Rightarrow> nat \<Rightarrow> nat set" where
  "usable_pages kb ke a b = {p \<in> whole_pages a b. 4096 * (p + 1) \<le> kb \<or> ke \<le> 4096 * p}"

lemma usable_pages_apart: "b \<le> kb \<or> ke \<le> a \<Longrightarrow> usable_pages kb ke a b = whole_pages a b"
  by (auto simp: usable_pages_def whole_pages_def)

lemma usable_pages_around:
  "a \<le> kb \<Longrightarrow> kb < ke \<Longrightarrow> ke \<le> b \<Longrightarrow> usable_pages kb ke a b = whole_pages a kb \<union> whole_pages ke b"
  by (auto simp: usable_pages_def whole_pages_def)

lemma raminfo_native:
  assumes "unat a + unat n \<le> 2 ^ 32" and "unat n < 2 ^ 32" and "4096 \<le> unat n"
  shows "unat (ucast a :: u32) = unat a" and "unat (ucast n :: u32) = unat n"
    and "\<not> n < 4096" and "\<not> 4294967295 < a + (n - 1)" and "\<not> a + (n - 1) < (a :: 64 word)"
proof -
  show "unat (ucast a :: u32) = unat a" "unat (ucast n :: u32) = unat n"
    using assms by (simp_all add: unsigned_ucast_eq take_bit_nat_eq_self)
  have "unat (n - 1) = unat n - 1" using assms(3) by (intro unat_minus_one) auto
  then have "unat (a + (n - 1)) = unat a + (unat n - 1)" using assms by (simp add: unat_plus_if')
  then show "\<not> 4294967295 < a + (n - 1)" "\<not> a + (n - 1) < a" "\<not> n < 4096"
    using assms by (simp_all add: word_less_nat_alt)
qed

lemma raminfo_addregion_apart:
  assumes "unat a + unat n \<le> 2 ^ 32" and "unat n < 2 ^ 32" and "4096 \<le> unat n"
    and "unat a + unat n \<le> unat kb \<or> unat ke \<le> unat a"
  shows "raminfo_addregion kb ke a n s = raminfo_mark (ucast a) (ucast n) s"
proof -
  note n = raminfo_native [OF assms(1-3)]
  have "\<not> ((ucast a :: u32) < ke \<and> kb < (ucast a :: u32) + ucast n)"
    using assms(1,4) n(1,2) by (auto simp: word_less_nat_alt unat_plus_if')
  then show ?thesis by (subst raminfo_addregion.simps) (simp only: n Let_def if_False simp_thms)
qed

lemma unat_widen: "unat (ucast (x :: u32) :: 64 word) = unat x"
proof -
  have "unat x < 2 ^ LENGTH(32)" by (rule unsigned_less)
  then show ?thesis by (simp add: unsigned_ucast_eq take_bit_nat_eq_self)
qed

lemma raminfo_addregion_around:
  assumes "unat a + unat n < 2 ^ 32" and "4096 \<le> unat n"
    and "unat a \<le> unat kb" and "unat kb < unat ke" and "unat ke \<le> unat a + unat n"
  shows "raminfo_addregion kb ke a n s =
    andthen (raminfo_addregion kb ke a (ucast (kb - ucast a)) s) (\<lambda>s.
      if unat a + unat n = unat ke then Done s else raminfo_mark ke (ucast n - (ke - ucast a)) s)"
    and "unat (ucast (kb - ucast a) :: 64 word) = unat kb - unat a"
    and "unat (ucast n - (ke - ucast a) :: u32) = unat a + unat n - unat ke"
proof -
  note n = raminfo_native [of a n, OF less_imp_le [OF assms(1)] _ assms(2)]
  have lt: "unat n < 2 ^ 32" using assms(1) by simp
  note n = n [OF lt]
  have t: "unat (ke - ucast a) = unat ke - unat a" using assms(3,4) n(1) by (simp add: unat_sub_if')
  have c: "(ucast a :: u32) < ke" "kb < (ucast a :: u32) + ucast n" "(ucast a :: u32) \<le> kb"
    using assms n(1,2) by (simp_all add: word_less_nat_alt word_le_nat_alt unat_plus_if')
  have up: "ucast (ucast a :: u32) = a"
    using n(1) unat_widen [of "ucast a"] by (simp only: word_unat_eq_iff)
  have e: "(ucast n \<le> ke - (ucast a :: u32)) = (unat a + unat n = unat ke)"
    using assms n(2) t by (auto simp: word_le_nat_alt)
  show "raminfo_addregion kb ke a n s =
    andthen (raminfo_addregion kb ke a (ucast (kb - ucast a)) s) (\<lambda>s.
      if unat a + unat n = unat ke then Done s else raminfo_mark ke (ucast n - (ke - ucast a)) s)"
    by (subst raminfo_addregion.simps) (simp only: n Let_def if_False if_True simp_thms c up e)
  show "unat (ucast (kb - ucast a) :: 64 word) = unat kb - unat a"
    using assms(3) n(1) unfolding unat_widen by (simp add: unat_sub_if')
  show "unat (ucast n - (ke - ucast a) :: u32) = unat a + unat n - unat ke"
    using t n(2) assms by (simp add: unat_sub_if' [of "ucast n"]) linarith
qed

lemma raminfo_apart_adds:
  assumes "pf_ok s" and "unat a + unat n \<le> 2 ^ 32" and "unat n < 2 ^ 32" and "8191 \<le> unat n"
    and "unat a + unat n \<le> unat kb \<or> unat ke \<le> unat a" and "whole_pages (unat a) (unat a + unat n) \<inter> free_pages s = {}"
  shows "\<exists>s'. raminfo_addregion kb ke a n s = Done s' \<and> pf_ok s'
    \<and> free_pages s' = free_pages s \<union> whole_pages (unat a) (unat a + unat n)"
proof -
  have "4096 \<le> unat n" using assms(4) by simp
  note n = raminfo_native [OF assms(2,3) this] and r = raminfo_addregion_apart [OF assms(2,3) this assms(5)]
  show ?thesis using raminfo_mark_adds [OF assms(1), of "ucast a" "ucast n"] assms(2,4,6) n(1,2) r by simp
qed

lemma raminfo_around_adds:
  assumes "pf_ok s" and "unat a + unat n < 2 ^ 32" and "4096 \<le> unat n"
    and "unat a \<le> unat kb" and "unat kb < unat ke" and "unat ke \<le> unat a + unat n"
    and low: "unat kb < unat a + 4096 \<or> unat a + 8191 \<le> unat kb"
    and high: "unat a + unat n = unat ke \<or> unat ke + 8191 \<le> unat a + unat n"
    and fresh: "(whole_pages (unat a) (unat kb) \<union> whole_pages (unat ke) (unat a + unat n)) \<inter> free_pages s = {}"
  shows "\<exists>s'. raminfo_addregion kb ke a n s = Done s' \<and> pf_ok s'
    \<and> free_pages s' = free_pages s \<union> (whole_pages (unat a) (unat kb) \<union> whole_pages (unat ke) (unat a + unat n))"
proof -
  note r = raminfo_addregion_around [OF assms(2-6)]
  let ?low = "ucast (kb - ucast a) :: 64 word"
  have "\<exists>t. raminfo_addregion kb ke a ?low s = Done t \<and> pf_ok t \<and> free_pages t = free_pages s \<union> whole_pages (unat a) (unat kb)"
  proof (cases "unat a + 8191 \<le> unat kb")
    case True
    then have "unat a + unat ?low = unat kb" "8191 \<le> unat ?low" "unat ?low < 2 ^ 32" "unat kb \<le> 2 ^ 32"
      using r(2) assms(2,4,5,6) by simp_all
    moreover have "whole_pages (unat a) (unat kb) \<inter> free_pages s = {}" using fresh by blast
    ultimately show ?thesis using raminfo_apart_adds [OF assms(1), of a ?low kb ke] by simp
  next
    case False
    then have "?low < 4096" "whole_pages (unat a) (unat kb) = {}"
      using low r(2) by (auto simp: word_less_nat_alt whole_pages_def)
    then show ?thesis using assms(1) by (subst raminfo_addregion.simps) simp
  qed
  then obtain t where t: "raminfo_addregion kb ke a ?low s = Done t" "pf_ok t" "free_pages t = free_pages s \<union> whole_pages (unat a) (unat kb)"
    by blast
  have "whole_pages (unat a) (unat kb) \<inter> whole_pages (unat ke) (unat a + unat n) = {}"
    using assms(5) by (auto simp: whole_pages_def)
  then have apart: "whole_pages (unat ke) (unat a + unat n) \<inter> free_pages t = {}" using t(3) fresh by blast
  show ?thesis
  proof (cases "unat a + unat n = unat ke")
    case True
    then have "whole_pages (unat ke) (unat a + unat n) = {}" by (auto simp: whole_pages_def)
    then show ?thesis using r(1) t True by simp
  next
    case False
    let ?h = "ucast n - (ke - ucast a)"
    have h: "unat ke + unat ?h = unat a + unat n" "8191 \<le> unat ?h" using r(3) assms(6) high False by simp_all
    obtain t' where "raminfo_mark ke ?h t = Done t'" "pf_ok t'" "free_pages t' = free_pages t \<union> whole_pages (unat ke) (unat a + unat n)"
      using raminfo_mark_adds [OF t(2), of ke ?h, unfolded h(1)] h(2) apart assms(2) by auto
    then show ?thesis using r(1) t(1,3) False by (simp add: Un_assoc)
  qed
qed

section \<open>Allocating at a given address\<close>

lemma find_region_hit:
  assumes "seg m prev cur (as @ (p, k) # bs) l None" and "spaced (as @ (p, k) # bs)"
    and "p \<le> start" and "start + unat n \<le> p + k" and "n \<noteq> 0"
  shows "find_region m cur start n = Some (Some p)"
  using assms
proof (induction as arbitrary: prev cur)
  case Nil
  then show ?case by (subst find_region.simps) auto
next
  case (Cons r as)
  obtain q j where r: "r = (q, j)" by (cases r)
  have "0 < unat n" using assms(5) by (simp add: word_gt_0_unat [symmetric] word_neq_0_conv)
  then have "q + j < p" "q \<le> start" "\<not> start + unat n \<le> q + j" using Cons.prems(2,3) r by auto
  then show ?case using Cons.IH [of "Some q" "pff_next (m q)"] Cons.prems r
    by (subst find_region.simps) auto
qed

lemma find_region_miss:
  assumes "seg m prev cur rs l None" and "spaced rs" and "\<forall>(p, k) \<in> set rs. \<not> (p \<le> start \<and> start + unat n \<le> p + k)"
  shows "find_region m cur start n = Some None"
  using assms
proof (induction rs arbitrary: prev cur)
  case Nil
  then show ?case by (subst find_region.simps) auto
next
  case (Cons r rs)
  then show ?case by (subst find_region.simps) (cases r; auto)
qed

lemma allocat_at:
  assumes "frames s (as @ (p, k) # bs)" and "s_spinner s = 0" and "p < start" and "start + unat n \<le> p + k" and "n \<noteq> 0"
  defines "split \<equiv> start + unat n"
  shows "kpageframe_allocat start n s = Done (Some start, s\<lparr>
    pf_mem := (pf_mem s)(split := \<lparr>pff_prev = Some p, pff_next = pff_next (pf_mem s p),
        pff_size = pff_size (pf_mem s p) - (of_nat (start - p) + n)\<rparr>,
      p := (pf_mem s p)\<lparr>pff_next := Some split, pff_size := of_nat (start - p)\<rparr>),
    total_allocated_pages := total_allocated_pages s + n, s_spinner := 0\<rparr>)"
proof -
  obtain l where "seg (pf_mem s) None (first_free_page s) (as @ (p, k) # bs) l None" "spaced (as @ (p, k) # bs)"
    using assms(1) by (auto simp: frames_def)
  from find_region_hit [OF this less_imp_le [OF assms(3)] assms(4,5)]
  show ?thesis using assms(2,3)
    by (cases s) (simp add: kpageframe_allocat_def kpagealloc_lock_free returns_def Let_def upd_page_def kpagealloc_unlock_def split_def)
qed

lemma allocat_miss:
  assumes "frames s rs" and "s_spinner s = 0" and "\<forall>(p, k) \<in> set rs. \<not> (p \<le> start \<and> start + unat n \<le> p + k)"
  shows "kpageframe_allocat start n s = Done (None, s)"
proof -
  obtain l where "seg (pf_mem s) None (first_free_page s) rs l None" "spaced rs" using assms(1) by (auto simp: frames_def)
  from find_region_miss [OF this assms(3)] show ?thesis using assms(2)
    by (simp add: kpageframe_allocat_def kpagealloc_lock_free returns_def kpagealloc_unlock_def)
qed

lemma seg_prefix:
  "seg m prev cur as x y \<Longrightarrow> seg m prev cur rs l None \<Longrightarrow> y \<noteq> None \<Longrightarrow> \<exists>rest. rs = as @ rest \<and> seg m x y rest l None"
proof (induction as arbitrary: prev cur rs)
  case (Cons r as)
  obtain p k where r: "r = (p, k)" by (cases r)
  have cur: "cur = Some p" "k = unat (pff_size (m p))" "seg m (Some p) (pff_next (m p)) as x y" using Cons.prems(1) r by auto
  obtain rs' where rs': "rs = (p, k) # rs'" "seg m (Some p) (pff_next (m p)) rs' l None"
    using Cons.prems(2) cur(1,2) by (cases rs) auto
  obtain rest where "rs' = as @ rest" "seg m x y rest l None" using Cons.IH [OF cur(3) rs'(2) Cons.prems(3)] by blast
  then show ?case using rs'(1) r by simp
qed simp

lemma zero_region_not_ok:
  assumes "seg (pf_mem s) None (first_free_page s) as x (Some q)" and "pff_size (pf_mem s q) = 0"
  shows "\<not> pf_ok s"
proof
  assume "pf_ok s"
  then obtain rs l where rs: "seg (pf_mem s) None (first_free_page s) rs l None" "spaced rs"
    by (auto simp: pf_ok_def frames_def)
  obtain rest where rest: "rs = as @ rest" "seg (pf_mem s) x (Some q) rest l None"
    using seg_prefix [OF assms(1) rs(1)] by auto
  then obtain bs where "rest = (q, 0) # bs" using assms(2) by (cases rest) auto
  then show False using rs(2) rest(1) by (simp add: spaced_append)
qed

lemma allocat_end:
  assumes "frames s (as @ (p, k) # bs)" and "s_spinner s = 0" and "p < start" and "n \<noteq> 0" and "start + unat n = p + k"
  shows "\<exists>s'. kpageframe_allocat start n s = Done (Some start, s')
      \<and> p + k \<notin> free_pages s \<and> pf_mem s' (p + k) = \<lparr>pff_prev = Some p, pff_next = pff_next (pf_mem s p), pff_size = 0\<rparr>
      \<and> pff_next (pf_mem s' p) = Some (p + k) \<and> \<not> pf_ok s'"
proof -
  let ?m = "(pf_mem s)(p + k := \<lparr>pff_prev = Some p, pff_next = pff_next (pf_mem s p), pff_size = 0\<rparr>,
      p := (pf_mem s p)\<lparr>pff_next := Some (p + k), pff_size := of_nat (start - p)\<rparr>)"
  let ?s = "s\<lparr>pf_mem := ?m, total_allocated_pages := total_allocated_pages s + n, s_spinner := 0\<rparr>"
  obtain l where f: "seg (pf_mem s) None (first_free_page s) as (pff_prev (pf_mem s p)) (Some p)"
    "unat (pff_size (pf_mem s p)) = k" "distinct (map fst (as @ (p, k) # bs))" "spaced (as @ (p, k) # bs)"
    using assms(1) by (rule frames_at)
  have k: "0 < k" "p + k \<le> 2 ^ 20" using f(4) by (auto simp: spaced_append)
  have "k = start - p + unat n" "pff_size (pf_mem s p) = of_nat k" using f(2) assms(3,5) by auto
  then have "pff_size (pf_mem s p) = of_nat (start - p) + n" by (simp only: of_nat_add) simp
  then have run: "kpageframe_allocat start n s = Done (Some start, ?s)"
    using allocat_at [OF assms(1-3) _ assms(4)] assms(5) by simp
  have out: "p + k \<notin> fst ` set as" using f(4) by (fastforce simp: spaced_append)
  have "seg ?m None (first_free_page s) as (pff_prev (pf_mem s p)) (Some p)"
    using f(1,3) out by (simp add: image_iff)
  then have "seg (pf_mem ?s) None (first_free_page ?s) (as @ [(p, unat (of_nat (start - p) :: size_t))]) (Some p) (Some (p + k))"
    using k(1) by (auto simp: seg_append)
  from zero_region_not_ok [OF this] have "\<not> pf_ok ?s" using k(1) by simp
  moreover have "p + k \<notin> free_pages s" using gap_behind [OF f(4), of p k] free_pages_eq [OF assms(1)] by simp
  ultimately show ?thesis using run k(1) by auto
qed

section \<open>Queries\<close>

lemma isfree_loop_frames:
  "seg m prev cur rs l None
    \<Longrightarrow> isfree_loop m cur b e = Some (\<exists>(q, k) \<in> set rs. q * 4096 < e \<and> b < (q + k) * 4096)"
proof (induction rs arbitrary: prev cur)
  case Nil
  then show ?case by (subst isfree_loop.simps) auto
next
  case (Cons r rs)
  then show ?case by (subst isfree_loop.simps) (cases r; auto)
qed

lemma isfreepage_frames:
  assumes "frames s rs" and "s_spinner s = 0"
  shows "kpageframe_isfreepage p sz s = Done (\<exists>(q, k) \<in> set rs. q * 4096 < p + sz \<and> p < (q + k) * 4096, s)"
proof -
  obtain l where "seg (pf_mem s) None (first_free_page s) rs l None" using assms(1) by (auto simp: frames_def)
  from isfree_loop_frames [OF this] show ?thesis using assms(2)
    by (simp add: kpageframe_isfreepage_def kspinlock_trylock_def returns_def kpagealloc_unlock_def Let_def)
qed

lemma byte_in_region:
  assumes "0 < sz" and "0 < (k :: nat)"
  shows "(q * 4096 < p + sz \<and> p < (q + k) * 4096) \<longleftrightarrow> (\<exists>x \<in> {p..<p + sz}. x div 4096 \<in> {q..<q + k})"
proof
  assume "q * 4096 < p + sz \<and> p < (q + k) * 4096"
  then show "\<exists>x \<in> {p..<p + sz}. x div 4096 \<in> {q..<q + k}"
    using assms by (intro bexI [of _ "max p (q * 4096)"]) (auto simp: max_def less_mult_imp_div_less)
qed (use assms in \<open>auto simp: div_less_iff_less_mult less_eq_div_iff_mult_less_eq\<close>)

text \<open>For a range that is not empty the answer is whether one of its bytes is in a free page.\<close>

lemma isfreepage_exact:
  assumes "pf_ok s" and "0 < sz"
  shows "kpageframe_isfreepage p sz s = Done (\<exists>x \<in> {p..<p + sz}. x div 4096 \<in> free_pages s, s)"
proof -
  obtain rs where rs: "frames s rs" "s_spinner s = 0" using assms(1) by (auto simp: pf_ok_def)
  have pos: "0 < k" if "(q, k) \<in> set rs" for q k
    using rs(1) that by (auto simp: frames_def spaced_append in_set_conv_decomp)
  have "(\<exists>(q, k) \<in> set rs. q * 4096 < p + sz \<and> p < (q + k) * 4096) =
      (\<exists>(q, k) \<in> set rs. \<exists>x \<in> {p..<p + sz}. x div 4096 \<in> {q..<q + k})"
    using byte_in_region [OF assms(2) pos] by (intro bex_cong refl) (simp only: split_paired_all prod.case)
  also have "\<dots> = (\<exists>x \<in> {p..<p + sz}. x div 4096 \<in> pages_of rs)" unfolding pages_of_def by fast
  finally show ?thesis using isfreepage_frames [OF rs] free_pages_eq [OF rs(1)] by simp
qed

text \<open>An empty range within a free region counts as free, although the header promises false.\<close>

lemma isfreepage_empty_range:
  assumes "frames s [(q, k)]" and "s_spinner s = 0" and "q * 4096 < p" and "p < (q + k) * 4096"
  shows "kpageframe_isfreepage p 0 s = Done (True, s)"
  using isfreepage_frames [OF assms(1,2)] assms(3,4) by simp

lemma info_loop_frames:
  "seg m prev cur rs l None \<Longrightarrow> info_loop m cur info = Some (fold info_step (map (\<lambda>(p, k). of_nat k) rs) info)"
proof (induction rs arbitrary: prev cur info)
  case Nil
  then show ?case by (subst info_loop.simps) auto
next
  case (Cons r rs)
  then show ?case by (subst info_loop.simps) (cases r; auto)
qed

lemma info_fold:
  assumes "pfi_minregion info \<le> pfi_maxregion info"
  shows "pfi_freepages (fold info_step zs info) = pfi_freepages info + sum_list zs
    \<and> pfi_freeregions (fold info_step zs info) = pfi_freeregions info + of_nat (length zs)
    \<and> (\<forall>n. (n \<le> pfi_maxregion (fold info_step zs info)) = (n \<le> pfi_maxregion info \<or> (\<exists>z \<in> set zs. n \<le> z)))"
  using assms
proof (induction zs arbitrary: info)
  case (Cons z zs)
  let ?i = "info_step z info"
  have i: "pfi_minregion ?i \<le> pfi_maxregion ?i" "pfi_freepages ?i = pfi_freepages info + z"
    "pfi_freeregions ?i = pfi_freeregions info + 1" "\<And>n. (n \<le> pfi_maxregion ?i) = (n \<le> pfi_maxregion info \<or> n \<le> z)"
    using Cons.prems by (auto simp: info_step_def Let_def)
  show ?case using Cons.IH [OF i(1)] i(2-4) by (auto simp: algebra_simps)
qed simp

lemma card_pages: "spaced rs \<Longrightarrow> finite (pages_of rs) \<and> card (pages_of rs) = sum_list (map snd rs)"
proof (induction rs)
  case (Cons r rs)
  obtain p k where r: "r = (p, k)" by (cases r)
  have "\<forall>(q, j) \<in> set rs. p + k < q" using Cons.prems r by simp
  then have "{p..<p + k} \<inter> pages_of rs = {}" by (fastforce simp: pages_of_def)
  then show ?case using Cons r by (simp add: card_Un_disjoint)
qed simp

lemma getinfo_frames:
  assumes "frames s rs" and "s_spinner s = 0"
  shows "\<exists>i. kpageframe_getinfo info s = Done (i, s) \<and> pfi_usedpages i = total_allocated_pages s
    \<and> pfi_freepages i = of_nat (sum_list (map snd rs)) \<and> pfi_freeregions i = of_nat (length rs)
    \<and> (rs \<noteq> [] \<longrightarrow> (\<forall>n. (n \<le> pfi_maxregion i) = (\<exists>(p, k) \<in> set rs. n \<le> of_nat k)))"
proof (cases rs)
  case Nil
  then have "first_free_page s = None" using assms(1) by (auto simp: frames_def)
  then show ?thesis using Nil assms(2)
    by (simp add: kpageframe_getinfo_def kpagealloc_lock_free kpagealloc_unlock_def)
next
  case (Cons r rs')
  obtain p k where r: "r = (p, k)" by (cases r)
  obtain l where s: "seg (pf_mem s) None (first_free_page s) rs l None" using assms(1) by (auto simp: frames_def)
  then have p: "first_free_page s = Some p" "unat (pff_size (pf_mem s p)) = k" "seg (pf_mem s) (Some p) (pff_next (pf_mem s p)) rs' l None"
    using Cons r by auto
  have z: "pff_size (pf_mem s p) = of_nat k" using p(2) by auto
  let ?z = "of_nat k :: size_t"
  let ?i = "info\<lparr>pfi_minregion := ?z, pfi_maxregion := ?z, pfi_freepages := ?z, pfi_freeregions := 1\<rparr>"
  let ?j = "fold info_step (map (\<lambda>(p, k). of_nat k) rs') ?i"
  have "kpageframe_getinfo info s = Done (?j\<lparr>pfi_usedpages := total_allocated_pages s\<rparr>, s)"
    using p(1) z assms(2) info_loop_frames [OF p(3)]
    by (simp add: kpageframe_getinfo_def kpagealloc_lock_free kpagealloc_unlock_def Let_def returns_def)
  moreover have "sum_list (map (\<lambda>(p, k). of_nat k) rs') = (of_nat (sum_list (map snd rs')) :: size_t)"
    by (induction rs') auto
  moreover have "pfi_minregion ?i \<le> pfi_maxregion ?i" by simp
  ultimately show ?thesis using info_fold [of ?i, where zs = "map (\<lambda>(p, k). of_nat k) rs'"] Cons r by (auto simp: split_def)
qed

text \<open>An allocation succeeds exactly if some region is large enough.\<close>

lemma alloc_many_fits:
  assumes "frames s rs" and "s_spinner s = 0" and "n \<noteq> 0"
  shows "(\<exists>p s'. kpageframe_alloc_many n s = Done (Some p, s')) = (\<exists>(p, k) \<in> set rs. n \<le> of_nat k)"
proof -
  obtain l where l: "seg (pf_mem s) None (first_free_page s) rs l None" and sp: "spaced rs"
    using assms(1) by (auto simp: frames_def)
  have k: "unat (of_nat k :: size_t) = k" if "(p, k) \<in> set rs" for p k
    using sp that by (auto simp: spaced_append in_set_conv_decomp unsigned_of_nat take_bit_nat_eq_self)
  have "(\<exists>p s'. kpageframe_alloc_many n s = Done (Some p, s')) = (find (\<lambda>(p, k). unat n \<le> k) rs \<noteq> None)"
    using first_fit_find [OF l, of n] assms(2)
    by (auto simp: kpageframe_alloc_many_def kpagealloc_lock_free returns_def split: option.splits)
  also have "\<dots> = (\<exists>(p, k) \<in> set rs. unat n \<le> k)" by (auto simp: find_None_iff)
  also have "\<dots> = (\<exists>(p, k) \<in> set rs. n \<le> of_nat k)"
    using k by (intro bex_cong refl) (auto simp: word_le_nat_alt)
  finally show ?thesis .
qed

section \<open>Properties\<close>

definition pf_example :: kpagealloc where
  "pf_example = \<lparr>pf_mem = (\<lambda>_. \<lparr>pff_prev = None, pff_next = None, pff_size = 0\<rparr>)
      (5 := \<lparr>pff_prev = None, pff_next = Some 12, pff_size = 4\<rparr>, 12 := \<lparr>pff_prev = Some 5, pff_next = None, pff_size = 2\<rparr>),
    first_free_page = Some 5, total_allocated_pages = 0, s_spinner = 0\<rparr>"

lemma pf_example_frames: "frames pf_example [(5, 4), (12, 2)]"
  by (simp add: frames_def pf_example_def)

lemma pf_example_ok: "pf_ok pf_example" "free_pages pf_example = {5..<9} \<union> {12..<14}"
  using pf_example_frames free_pages_eq [OF pf_example_frames] by (auto simp: pf_ok_def pf_example_def)







text \<open>
  C39. The statistics are exact: they count the free pages and, unless there are none, report as the largest region the
  largest number of pages for which an allocation succeeds.
\<close>

theorem kpageframe_getinfo_exact:
  assumes "pf_ok s"
  shows "\<exists>i. kpageframe_getinfo info s = Done (i, s) \<and> unat (pfi_freepages i) = card (free_pages s)
    \<and> pfi_usedpages i = total_allocated_pages s
    \<and> (free_pages s \<noteq> {} \<longrightarrow> (\<forall>n. n \<noteq> 0 \<longrightarrow>
        (\<exists>p s'. kpageframe_alloc_many n s = Done (Some p, s')) = (n \<le> pfi_maxregion i)))"
proof -
  obtain rs where rs: "frames s rs" "s_spinner s = 0" using assms by (auto simp: pf_ok_def)
  obtain i where i: "kpageframe_getinfo info s = Done (i, s)" "pfi_freepages i = of_nat (sum_list (map snd rs))"
    "pfi_usedpages i = total_allocated_pages s" "rs \<noteq> [] \<longrightarrow> (\<forall>n. (n \<le> pfi_maxregion i) = (\<exists>(p, k) \<in> set rs. n \<le> of_nat k))"
    using getinfo_frames [OF rs, of info] by blast
  note pages = free_pages_eq [OF rs(1)]
  have c: "card (free_pages s) = sum_list (map snd rs)" using card_pages [of rs] rs(1) pages by (auto simp: frames_def)
  have "card (free_pages s) \<le> 2 ^ 20" using card_mono [OF _ free_pages_bounded [OF assms]] by simp
  then have "unat (pfi_freepages i) = card (free_pages s)" using i(2) c by (simp add: unsigned_of_nat take_bit_nat_eq_self)
  moreover have "(\<exists>p s'. kpageframe_alloc_many n s = Done (Some p, s')) = (n \<le> pfi_maxregion i)"
    if "free_pages s \<noteq> {}" "n \<noteq> 0" for n
    using alloc_many_fits [OF rs that(2)] i(4) that(1) pages by auto
  ultimately show ?thesis using i(1,3) by blast
qed

theorem kpageframe_getinfo_exact_witness:
  "\<exists>i. kpageframe_getinfo \<lparr>pfi_minregion = 0, pfi_maxregion = 0, pfi_freeregions = 0, pfi_freepages = 0, pfi_usedpages = 0\<rparr> pf_example
      = Done (i, pf_example) \<and> unat (pfi_freepages i) = 6
    \<and> (\<exists>p s'. kpageframe_alloc_many 4 pf_example = Done (Some p, s')) = (4 \<le> pfi_maxregion i)"
proof -
  have "card ({5..<9} \<union> {12..<14 :: nat}) = 6" by (subst card_Un_disjoint) auto
  moreover have "5 \<in> free_pages pf_example" using pf_example_ok(2) by simp
  ultimately show ?thesis
    using kpageframe_getinfo_exact [OF pf_example_ok(1), of "\<lparr>pfi_minregion = 0, pfi_maxregion = 0, pfi_freeregions = 0, pfi_freepages = 0, pfi_usedpages = 0\<rparr>"]
      pf_example_ok(2) by fastforce
qed



section \<open>Two more defects\<close>

text \<open>
  If no region is large enough, \<open>kpageframe_tryalloc\<close> takes the largest one, but still takes \<open>n_pages\<close> pages from it:
  what remains has wrapped around. The list then starts behind the memory that was free, with a region of almost
  \<open>2 ^ 32\<close> pages.
\<close>

lemma tryalloc_wraps:
  assumes "frames s [(p, k)]" and "s_spinner s = 0" and "k < unat n"
  shows "\<exists>s'. kpageframe_tryalloc n s = Done (Some p, of_nat k, s') \<and> first_free_page s' = Some (p + unat n)
    \<and> unat (pff_size (pf_mem s' (p + unat n))) = 2 ^ 32 + k - unat n"
proof -
  have f: "first_free_page s = Some p" "pff_prev (pf_mem s p) = None" "pff_next (pf_mem s p) = None"
    "unat (pff_size (pf_mem s p)) = k" using assms(1) by (auto simp: frames_def)
  have z: "pff_size (pf_mem s p) = of_nat k" using f(4) by auto
  have n: "\<not> n \<le> pff_size (pf_mem s p)" "pff_size (pf_mem s p) \<noteq> n" using f(4) assms(3) by (auto simp: word_le_nat_alt)
  have "best_fit (pf_mem s) n (Some p) None = Some (Inr (Some p))"
    using n f(3) by (subst best_fit.simps, simp, subst best_fit.simps) (simp add: better_def)
  moreover have "unat (pff_size (pf_mem s p) - n) = 2 ^ 32 + k - unat n" using f(4) assms(3) by (simp add: unat_sub_if')
  ultimately show ?thesis using f(1-3) n(2) z assms(2)
    by (simp add: kpageframe_tryalloc_def kpagealloc_lock_free returns_def kpagealloc_unlock_def take_iter_def Let_def
        link_prev_def link_next_def upd_page_def)
qed

text \<open>
  If what is left of a region behind the kernel ends before the next page starts, the size that remains after
  alignment wraps around too, and \<open>raminfo_addregion\<close> declares nearly all of the address space free.
\<close>

lemma raminfo_short_rest:
  assumes "unat a mod 4096 \<noteq> 0" and "unat n < 4096 - unat a mod 4096" and "unat a < 2 ^ 32 - 4096"
  shows "raminfo_mark a n s = kpageframe_free (unat a div 4096 + 1) 1048575 s"
proof -
  define q r where "q = unat a div 4096" and "r = unat a mod 4096"
  have r: "unat a = 4096 * q + r" "r < 4096" "r \<noteq> 0" "unat n < 4096 - r" using assms(1,2) by (simp_all add: q_def r_def)
  have "unat (a + 4095) = unat a + 4095" using assms(3) by (simp add: unat_plus_if')
  moreover have "(unat a + 4095) div 4096 = q + 1" by (rule div_nat_eqI) (use r in \<open>simp_all\<close>)
  moreover have "page_align a = page_alignd (a + 4095)" by (simp add: page_align_def page_alignd_def)
  ultimately have u: "unat (page_align a) = 4096 * (q + 1)" by (simp add: unat_page_alignd)
  have "unat a \<le> unat (page_align a)" using r(1,2) unfolding u by simp
  then have "unat (page_align a - a) = unat (page_align a) - unat a" by (intro unat_sub) (simp add: word_le_nat_alt)
  then have d: "unat (page_align a - a) = 4096 - r" using r(1,2) unfolding u by simp
  have "unat (n - (page_align a - a)) = 2 ^ 32 + unat n - (4096 - r)"
    using d r(2,4) by (subst unat_sub_if') simp
  moreover have "(2 ^ 32 + unat n - (4096 - r)) div 4096 = 1048575"
    by (rule div_nat_eqI) (use r(2,4) in \<open>simp_all\<close>)
  ultimately have "unat (page_alignd (n - (page_align a - a)) div 4096) = 1048575"
    by (simp add: unat_page_alignd unat_div)
  then have "page_alignd (n - (page_align a - a)) div 4096 = 1048575" by (simp add: word_unat_eq_iff)
  moreover have "page_align a \<noteq> 0" "unat (page_align a) div 4096 = q + 1" using u by auto
  ultimately show ?thesis by (simp add: raminfo_mark_def Let_def q_def)
qed

end
