(* ===== verification/LibcNum.thy ===== *)
theory LibcNum
  imports Prelude
begin

text \<open>
  Numbers as text: \<^verbatim>\<open>libs/libc/itos.impl.inl\<close> (both instances) and the conversions of \<^verbatim>\<open>libs/libc/atoi.c\<close>.
  Memory is the list of bytes that can be accessed from the pointer on. A \<open>char\<close> is signed.
\<close>

type_synonym u64 = "64 word"

section \<open>Printing\<close>

text \<open>\<open>digit_chars\<close>, with its terminating zero. Reading behind it is the result \<open>None\<close>.\<close>

definition digit_chars :: "u8 list" where
  "digit_chars = [48, 49, 50, 51, 52, 53, 54, 55, 56, 57, 97, 98, 99, 100, 101, 102, 0]"

definition MAX_NUMSYS :: int where "MAX_NUMSYS = 16"

text \<open>The loop that counts the digits. It does not end for the base 1; a base of zero is a division by zero.\<close>

partial_function (option) utos_count :: "'a :: len word \<Rightarrow> 'a word \<Rightarrow> nat \<Rightarrow> nat option" where
  "utos_count numsys used_i n =
     (if numsys = 0 then None
      else let used_i = used_i div numsys in
        if used_i \<noteq> 0 then utos_count numsys used_i (n + 1) else Some (n + 1))"

text \<open>The loop that stores the digits from the last to the first, those that have room.\<close>

partial_function (option) utos_fill :: "'a :: len word \<Rightarrow> 'a word \<Rightarrow> nat \<Rightarrow> u8 list \<Rightarrow> u8 list option" where
  "utos_fill numsys used_i dst buf =
     (let dst = dst - 1; d = unat (used_i mod numsys) in
      if dst < length buf \<and> d \<ge> length digit_chars then None
      else let buf = (if dst < length buf then buf[dst := digit_chars ! d] else buf); used_i = used_i div numsys in
        if used_i \<noteq> 0 then utos_fill numsys used_i dst buf else Some buf)"

definition utos_ns :: "u8 list \<Rightarrow> 'a :: len word \<Rightarrow> int \<Rightarrow> (nat \<times> u8 list) option" where
  "utos_ns buf i numsys =
     (if numsys > MAX_NUMSYS then Some (0, buf)
      else Option.bind (utos_count (of_int numsys) i 0) (\<lambda>result.
        let buf = (if result < length buf then buf[result := 0] else buf) in
        Option.bind (utos_fill (of_int numsys) i result buf) (\<lambda>buf. Some (result, buf))))"

definition itos_ns :: "u8 list \<Rightarrow> 'a :: len word \<Rightarrow> int \<Rightarrow> (nat \<times> u8 list) option" where
  "itos_ns buf i numsys =
     (if sint i < 0 \<and> numsys \<le> MAX_NUMSYS
      then (case buf of
          [] \<Rightarrow> Option.bind (utos_ns [] (- i) numsys) (\<lambda>(n, buf). Some (1 + n, buf))
        | c # buf \<Rightarrow> Option.bind (utos_ns buf (- i) numsys) (\<lambda>(n, buf). Some (1 + n, 45 # buf)))
      else utos_ns buf i numsys)"

definition itos32_ns :: "u8 list \<Rightarrow> u32 \<Rightarrow> int \<Rightarrow> (nat \<times> u8 list) option" where
  "itos32_ns = itos_ns"

definition itos64_ns :: "u8 list \<Rightarrow> u64 \<Rightarrow> int \<Rightarrow> (nat \<times> u8 list) option" where
  "itos64_ns = itos_ns"

section \<open>Reading\<close>

definition CH2INT :: "u8 \<Rightarrow> int" where
  "CH2INT c = (if sint c \<ge> 97 then 10 + (sint c - 97) else if sint c \<ge> 65 then 10 + (sint c - 65)
     else if sint c \<ge> 48 then sint c - 48 else -1)"

text \<open>\<open>CONSUMENUMSYS\<close>: the base and the number of characters consumed. The bounded form may read the character
  behind the bound, and even go past it.\<close>

definition CONSUMENUMSYS :: "u8 list \<Rightarrow> (int \<times> nat) outcome" where
  "CONSUMENUMSYS s =
     andthen (vec_read s 0) (\<lambda>c. if c = 48
       then andthen (vec_read s 1) (\<lambda>c. Done (if c = 120 then (16, 2) else if c = 98 then (2, 2) else (8, 1)))
       else Done (10, 0))"

definition CONSUMENUMSYSN :: "u8 list \<Rightarrow> nat \<Rightarrow> (int \<times> nat) outcome" where
  "CONSUMENUMSYSN s max_chars =
     andthen (vec_read s 0) (\<lambda>c. if c = 48
       then if max_chars = 1 then Done (10, 1)
         else andthen (vec_read s 1) (\<lambda>c.
           if c = 120 then if max_chars \<noteq> 2 then Done (16, 2)
             else andthen (vec_read s 2) (\<lambda>c. Done (if c = 98 then (2, 3) else (8, 2)))
           else if c = 98 then if max_chars \<noteq> 2 then Done (2, 2) else Done (8, 2)
           else Done (8, 1))
       else Done (10, 0))"

text \<open>The result of a conversion: the number, where the text ended (not set after an overflow), and whether
  \<open>errno\<close> was set to \<open>ERANGE\<close>.\<close>

type_synonym 'n conv = "'n \<times> nat option \<times> bool"

function strtou_loop :: "u8 list \<Rightarrow> nat option \<Rightarrow> int \<Rightarrow> nat \<Rightarrow> 'a :: len word \<Rightarrow> 'a word conv outcome" where
  "strtou_loop s send base pos result =
     (if send = Some pos then Done (result, Some pos, False)
      else if pos \<ge> length s then Fault
      else let part = CH2INT (s ! pos) in
        if part \<ge> 0 \<and> part < base then
          let newresult = result * of_int base + of_int part in
          if newresult < result then Done (-1, None, True)
          else strtou_loop s send base (pos + 1) newresult
        else Done (result, Some pos, False))"
  by pat_completeness auto

termination by (relation "measure (\<lambda>(s, send, base, pos, result). length s - pos)") auto

declare strtou_loop.simps [simp del]

definition strtou :: "u8 list option \<Rightarrow> int \<Rightarrow> 'a :: len word conv outcome" where
  "strtou string base =
     (case string of
        None \<Rightarrow> Done (0, Some 0, False)
      | Some s \<Rightarrow> andthen (if base = 0 then CONSUMENUMSYS s else Done (base, 0)) (\<lambda>(base, pos).
          strtou_loop s None base pos 0))"

definition strntou :: "u8 list option \<Rightarrow> nat \<Rightarrow> int \<Rightarrow> 'a :: len word conv outcome" where
  "strntou string max_chars base =
     (case string of
        None \<Rightarrow> Done (0, Some 0, False)
      | Some s \<Rightarrow> if max_chars = 0 then Done (0, Some 0, False)
          else andthen (if base = 0 then CONSUMENUMSYSN s max_chars else Done (base, 0)) (\<lambda>(base, pos).
            strtou_loop s (Some max_chars) base pos 0))"

definition to_signed :: "bool \<Rightarrow> 'a :: len word conv \<Rightarrow> int conv" where
  "to_signed sign r = (case r of (ures, endptr, erange) \<Rightarrow>
     if uint ures > 2 ^ (LENGTH('a) - 1) - 1 then (if sign then - (2 ^ (LENGTH('a) - 1)) else 2 ^ (LENGTH('a) - 1) - 1, endptr, True)
     else (if sign then - uint ures else uint ures, endptr, erange))"

definition shift_end :: "'n conv \<Rightarrow> 'n conv" where
  "shift_end r = (case r of (v, endptr, erange) \<Rightarrow> (v, map_option Suc endptr, erange))"

definition strtos_via :: "'a :: len itself \<Rightarrow> u8 list option \<Rightarrow> int \<Rightarrow> int conv outcome" where
  "strtos_via w string base =
     (case string of
        None \<Rightarrow> andthen (strtou None base :: 'a word conv outcome) (\<lambda>r. Done (to_signed False r))
      | Some s \<Rightarrow> andthen (vec_read s 0) (\<lambda>c.
          if c = 45 then andthen (strtou (Some (tl s)) base :: 'a word conv outcome) (\<lambda>r. Done (to_signed True (shift_end r)))
          else andthen (strtou (Some s) base :: 'a word conv outcome) (\<lambda>r. Done (to_signed False r))))"

definition strntos_via :: "'a :: len itself \<Rightarrow> u8 list option \<Rightarrow> nat \<Rightarrow> int \<Rightarrow> int conv outcome" where
  "strntos_via w string max_chars base =
     (case string of
        None \<Rightarrow> andthen (strntou None max_chars base :: 'a word conv outcome) (\<lambda>r. Done (to_signed False r))
      | Some s \<Rightarrow>
          if max_chars = 0 then andthen (strntou (Some s) 0 base :: 'a word conv outcome) (\<lambda>r. Done (to_signed False r))
          else andthen (vec_read s 0) (\<lambda>c.
            if c = 45 then andthen (strntou (Some (tl s)) (max_chars - 1) base :: 'a word conv outcome)
              (\<lambda>r. Done (to_signed True (shift_end r)))
            else andthen (strntou (Some s) max_chars base :: 'a word conv outcome) (\<lambda>r. Done (to_signed False r))))"

definition strtou32 :: "u8 list option \<Rightarrow> int \<Rightarrow> u32 conv outcome" where "strtou32 = strtou"

definition strtou64 :: "u8 list option \<Rightarrow> int \<Rightarrow> u64 conv outcome" where "strtou64 = strtou"

definition strntou32 :: "u8 list option \<Rightarrow> nat \<Rightarrow> int \<Rightarrow> u32 conv outcome" where "strntou32 = strntou"

definition strntou64 :: "u8 list option \<Rightarrow> nat \<Rightarrow> int \<Rightarrow> u64 conv outcome" where "strntou64 = strntou"

definition strtos32 :: "u8 list option \<Rightarrow> int \<Rightarrow> int conv outcome" where "strtos32 = strtos_via TYPE(32)"

definition strtos64 :: "u8 list option \<Rightarrow> int \<Rightarrow> int conv outcome" where "strtos64 = strtos_via TYPE(64)"

definition strntos32 :: "u8 list option \<Rightarrow> nat \<Rightarrow> int \<Rightarrow> int conv outcome" where "strntos32 = strntos_via TYPE(32)"

definition strntos64 :: "u8 list option \<Rightarrow> nat \<Rightarrow> int \<Rightarrow> int conv outcome" where "strntos64 = strntos_via TYPE(64)"

definition atoi :: "u8 list option \<Rightarrow> int outcome" where
  "atoi string = andthen (strtos32 string 0) (\<lambda>(v, endptr, erange). Done v)"

definition atol :: "u8 list option \<Rightarrow> int outcome" where
  "atol string = andthen (strtos32 string 0) (\<lambda>(v, endptr, erange). Done v)"

definition atoll :: "u8 list option \<Rightarrow> int outcome" where
  "atoll string = andthen (strtos64 string 0) (\<lambda>(v, endptr, erange). Done v)"

section \<open>Digits\<close>

text \<open>The digits of a number, the most significant first, and the number that a list of digits stands for.\<close>

fun digits :: "nat \<Rightarrow> nat \<Rightarrow> nat list" where
  "digits b n = (if b \<le> 1 \<or> n < b then [n] else digits b (n div b) @ [n mod b])"

declare digits.simps [simp del]

definition undigits :: "nat \<Rightarrow> nat \<Rightarrow> nat list \<Rightarrow> nat" where
  "undigits b a ds = foldl (\<lambda>a d. a * b + d) a ds"

lemma undigits_simps [simp]: "undigits b a [] = a" "undigits b a (d # ds) = undigits b (a * b + d) ds"
  "undigits b a (ds @ es) = undigits b (undigits b a ds) es"
  by (simp_all add: undigits_def)

lemma undigits_digits: "undigits b 0 (digits b n) = n"
  by (induction b n rule: digits.induct) (subst digits.simps, auto)

lemma digits_less: "1 < b \<Longrightarrow> \<forall>d\<in>set (digits b n). d < b"
  by (induction b n rule: digits.induct) (subst digits.simps, auto)

lemma undigits_ge: "0 < b \<Longrightarrow> a \<le> undigits b a ds"
proof (induction ds arbitrary: a)
  case (Cons d ds)
  have "a \<le> a * b + d" using Cons.prems by (simp add: trans_le_add1)
  then show ?case using Cons.IH [of "a * b + d"] Cons.prems by simp
qed simp

lemma length_digits: "1 < b \<Longrightarrow> n < b ^ k \<Longrightarrow> 0 < k \<Longrightarrow> length (digits b n) \<le> k"
proof (induction b n arbitrary: k rule: digits.induct)
  case (1 b n)
  show ?case
  proof (cases "n < b")
    case True
    then show ?thesis using "1.prems" by (subst digits.simps) simp
  next
    case False
    obtain j where j: "k = Suc j" using "1.prems" by (cases k) auto
    then have k: "k = Suc j" "0 < j" using "1.prems" False by (cases j; simp)+
    then have "n div b < b ^ j" using "1.prems" by (simp add: div_less_iff_less_mult mult.commute)
    then show ?thesis using "1.IH" [of j] "1.prems" False k by (subst digits.simps) simp
  qed
qed

lemma bounded_base:
  fixes b :: nat
  assumes "2 \<le> b" and "b \<le> 16" and "5 \<le> LENGTH('a :: len)"
  shows "unat (of_int (int b) :: 'a word) = b"
proof -
  have "(2 :: nat) ^ 5 \<le> 2 ^ LENGTH('a)" using assms(3) by (intro power_increasing) auto
  then have "b < 2 ^ LENGTH('a)" using assms(2) by simp
  then show ?thesis by (simp add: unsigned_of_nat take_bit_nat_eq_self)
qed

section \<open>What printing stores\<close>

lemma utos_count_digits:
  fixes i nb :: "'a :: len word"
  assumes "unat nb = b" and "2 \<le> b"
  shows "utos_count nb i n = Some (n + length (digits b (unat i)))"
proof (induction "unat i" arbitrary: i n rule: less_induct)
  case less
  have nb: "nb \<noteq> 0" using assms by auto
  have d: "unat (i div nb) = unat i div b" using assms by (simp add: unat_div)
  show ?case
  proof (cases "unat i < b")
    case True
    then have "i div nb = 0" using d by (simp add: unat_eq_0 flip: unat_eq_zero)
    then show ?thesis using True nb by (subst utos_count.simps) (simp add: digits.simps [of b "unat i"])
  next
    case False
    then have nz: "i div nb \<noteq> 0" using d assms(2) by (auto simp: unat_eq_zero div_eq_0_iff)
    have "unat (i div nb) < unat i" using d False assms(2) by (simp add: div_less_dividend)
    from less [OF this, of "n + 1"] show ?thesis
      using False nb nz d assms(2) by (subst utos_count.simps) (simp add: digits.simps [of b "unat i"])
  qed
qed

definition digit_text :: "nat list \<Rightarrow> u8 list" where
  "digit_text ds = map (\<lambda>d. digit_chars ! d) ds"

lemma utos_fill_digits:
  fixes i nb :: "'a :: len word"
  assumes "unat nb = b" and "2 \<le> b" and "b \<le> 16"
  shows "dst = length (digits b (unat i)) \<Longrightarrow> dst \<le> length buf
    \<Longrightarrow> utos_fill nb i dst buf = Some (digit_text (digits b (unat i)) @ drop dst buf)"
proof (induction "unat i" arbitrary: i dst buf rule: less_induct)
  case less
  have d: "unat (i div nb) = unat i div b" "unat (i mod nb) = unat i mod b" using assms by (simp_all add: unat_div unat_mod)
  have "unat i mod b < b" using assms(2) by simp
  then have m: "unat i mod b < 16" using assms(3) by simp
  have len: "length digit_chars = 17" by (simp add: digit_chars_def)
  show ?case
  proof (cases "unat i < b")
    case True
    then have dg: "digits b (unat i) = [unat i]" by (simp add: digits.simps [of b "unat i"])
    have "i div nb = 0" using d True by (simp add: unat_eq_zero [symmetric])
    moreover obtain x xs where "buf = x # xs" using less.prems dg by (cases buf) auto
    ultimately show ?thesis using less.prems True dg d m len by (subst utos_fill.simps) (simp add: digit_text_def)
  next
    case False
    then have dg: "digits b (unat i) = digits b (unat i div b) @ [unat i mod b]"
      using assms(2) by (simp add: digits.simps [of b "unat i"])
    have nz: "i div nb \<noteq> 0" using d False assms(2) by (auto simp: unat_eq_zero [symmetric] div_eq_0_iff)
    have "unat (i div nb) < unat i" using d False assms(2) by (simp add: div_less_dividend)
    from less.hyps [OF this, of "dst - 1" "buf[dst - 1 := digit_chars ! (unat i mod b)]"]
    have "utos_fill nb (i div nb) (dst - 1) (buf[dst - 1 := digit_chars ! (unat i mod b)])
        = Some (digit_text (digits b (unat i div b)) @ drop (dst - 1) (buf[dst - 1 := digit_chars ! (unat i mod b)]))"
      using less.prems dg d by simp
    moreover have "drop (dst - 1) (buf[dst - 1 := v]) = v # drop dst buf" for v
    proof -
      have "dst - 1 < length buf" "Suc (dst - 1) = dst" using less.prems dg by auto
      then show ?thesis by (metis Cons_nth_drop_Suc drop_update_cancel length_list_update lessI nth_list_update_eq)
    qed
    ultimately show ?thesis
      using less.prems nz d m len dg by (subst utos_fill.simps) (simp add: digit_text_def Let_def)
  qed
qed

lemma utos_stores:
  fixes i :: "'a :: len word"
  assumes "2 \<le> b" and "b \<le> 16" and "5 \<le> LENGTH('a)" and "length (digits b (unat i)) < length buf"
  shows "\<exists>rest. utos_ns buf i (int b) = Some (length (digits b (unat i)), digit_text (digits b (unat i)) @ 0 # rest)"
proof -
  let ?d = "digits b (unat i)" and ?n = "length (digits b (unat i))"
  have nb: "unat (of_int (int b) :: 'a word) = b" using assms by (intro bounded_base)
  have "drop ?n (buf[?n := 0]) = 0 # drop (Suc ?n) buf" using assms(4) by (simp add: Cons_nth_drop_Suc [symmetric])
  then have "utos_fill (of_int (int b)) i ?n (buf[?n := 0]) = Some (digit_text ?d @ 0 # drop (Suc ?n) buf)"
    using utos_fill_digits [OF nb assms(1,2) refl, of i "buf[?n := 0]"] assms(4) by simp
  then show ?thesis
    using utos_count_digits [OF nb assms(1), of i 0] assms by (simp add: utos_ns_def MAX_NUMSYS_def)
qed

section \<open>What reading makes of it\<close>

lemma CH2INT_digit:
  assumes "d < 16"
  shows "CH2INT (digit_chars ! d) = int d" "digit_chars ! d \<noteq> 45"
proof -
  have "\<forall>d\<in>set [0..<16]. CH2INT (digit_chars ! d) = int d \<and> digit_chars ! d \<noteq> 45"
    by (simp add: digit_chars_def CH2INT_def upt_conv_Cons)
  then show "CH2INT (digit_chars ! d) = int d" "digit_chars ! d \<noteq> 45" using assms by auto
qed

lemma CH2INT_0: "CH2INT 0 = -1"
  by (simp add: CH2INT_def)

lemma strtou_loop_digits:
  fixes r :: "'a :: len word"
  assumes "0 < b" and "b \<le> 16"
  shows "\<forall>d\<in>set ds. d < b \<Longrightarrow> undigits b (unat r) ds < 2 ^ LENGTH('a) \<Longrightarrow> s = pre @ digit_text ds @ 0 # rest
    \<Longrightarrow> strtou_loop s None (int b) (length pre) r = Done (of_nat (undigits b (unat r) ds), Some (length pre + length ds), False)"
proof (induction ds arbitrary: r pre)
  case Nil
  then show ?case by (subst strtou_loop.simps) (simp add: digit_text_def CH2INT_0)
next
  case (Cons d ds)
  let ?r = "r * of_int (int b) + of_int (int d) :: 'a word"
  have d: "d < 16" "CH2INT (digit_chars ! d) = int d" using Cons.prems(1) assms CH2INT_digit [of d] by auto
  have "unat r * b + d < 2 ^ LENGTH('a)" using Cons.prems(2) undigits_ge [OF assms(1), of "unat r * b + d" ds] by simp
  moreover have "?r = of_nat (unat r * b + d)" by simp
  ultimately have r: "unat ?r = unat r * b + d" by (simp only: unsigned_of_nat take_bit_nat_eq_self of_nat_id)
  then have "\<not> ?r < r" using assms(1) by (simp add: word_less_nat_alt trans_le_add1 not_less)
  moreover have "s ! length pre = digit_chars ! d" "length pre < length s" using Cons.prems(3) by (auto simp: digit_text_def nth_append)
  moreover have "strtou_loop s None (int b) (length (pre @ [digit_chars ! d])) ?r
      = Done (of_nat (undigits b (unat ?r) ds), Some (length (pre @ [digit_chars ! d]) + length ds), False)"
    using Cons.IH [of ?r "pre @ [digit_chars ! d]"] Cons.prems r by (simp add: digit_text_def)
  ultimately show ?case
    using d Cons.prems(1) r by (subst strtou_loop.simps) (simp add: Let_def)
qed

lemma strtou_digits:
  assumes "2 \<le> b" and "b \<le> 16" and "n < 2 ^ LENGTH('a :: len)"
  shows "(strtou (Some (digit_text (digits b n) @ 0 # rest)) (int b) :: 'a word conv outcome)
    = Done (of_nat n, Some (length (digits b n)), False)"
  using strtou_loop_digits [where 'a = 'a, of b "digits b n" 0 "digit_text (digits b n) @ 0 # rest" "[]" rest] assms digits_less [of b n]
  by (simp add: strtou_def undigits_digits)

lemma digits_nonempty: "digits b n \<noteq> []"
  by (subst digits.simps) simp

section \<open>Round trip\<close>

text \<open>A buffer that holds every number in every base: a sign, one digit for each bit, and the terminating zero.\<close>

lemma digits_fit:
  assumes "2 \<le> b" and "n < 2 ^ k" and "0 < k"
  shows "length (digits b n) \<le> k"
proof -
  have "2 ^ k \<le> b ^ k" using assms(1) by (intro power_mono) auto
  with assms(2) have "n < b ^ k" by (rule less_le_trans)
  then show ?thesis using assms by (intro length_digits) auto
qed

lemma sint_cases:
  fixes i :: "'a :: len word"
  shows "\<not> sint i < 0 \<Longrightarrow> uint i = sint i" "sint i < 0 \<Longrightarrow> uint (- i) = - sint i"
    "- (2 ^ (LENGTH('a) - 1)) \<le> sint i" "sint i \<le> 2 ^ (LENGTH('a) - 1) - 1"
proof -
  let ?h = "2 ^ (LENGTH('a) - 1) :: int"
  have h: "2 ^ LENGTH('a) = 2 * ?h" "0 < ?h" by (simp_all flip: power_Suc)
  have b: "- ?h \<le> sint i" "sint i < ?h" by (rule sint_ge, rule sint_lt)
  then show "- ?h \<le> sint i" "sint i \<le> ?h - 1" by simp_all
  have u: "uint i = sint i mod 2 ^ LENGTH('a)" by (simp add: uint_sint take_bit_eq_mod)
  show "\<not> sint i < 0 \<Longrightarrow> uint i = sint i" using u b h by simp
  have "uint (- i) = - sint i mod 2 ^ LENGTH('a)" by (simp add: uint_word_ariths(4) u mod_minus_eq)
  then show "sint i < 0 \<Longrightarrow> uint (- i) = - sint i" using b h by simp
qed

lemma itos_roundtrip:
  fixes i :: "'a :: len word"
  assumes "2 \<le> b" and "b \<le> 16" and "5 \<le> LENGTH('a)" and "LENGTH('a) + 2 \<le> length buf"
  shows "\<exists>n buf'. itos_ns buf i (int b) = Some (n, buf')
    \<and> strtos_via TYPE('a) (Some buf') (int b) = Done (sint i, Some n, sint i = - (2 ^ (LENGTH('a) - 1)))"
proof (cases "sint i < 0")
  case False
  have len: "length (digits b (unat i)) \<le> LENGTH('a)" using assms unsigned_less [of i, where 'a = nat] by (intro digits_fit) auto
  then obtain rest where u: "utos_ns buf i (int b) = Some (length (digits b (unat i)), digit_text (digits b (unat i)) @ 0 # rest)"
    using utos_stores [OF assms(1-3), of i buf] assms(4) by auto
  obtain d ds where d: "digits b (unat i) = d # ds" using digits_nonempty [of b "unat i"] by (cases "digits b (unat i)") auto
  then have "digit_chars ! d \<noteq> 45" using digits_less [of b "unat i"] assms CH2INT_digit(2) [of d] by auto
  moreover have "sint i \<noteq> - (2 ^ (LENGTH('a) - 1))" using False by (metis neg_less_0_iff_less zero_less_numeral zero_less_power)
  ultimately show ?thesis
    using False u strtou_digits [where 'a = 'a, OF assms(1,2), of "unat i" rest] d sint_cases [of i]
    by (auto simp: itos_ns_def strtos_via_def digit_text_def to_signed_def unsigned_less)
next
  case True
  obtain c cs where buf: "buf = c # cs" using assms(4) by (cases buf) auto
  have len: "length (digits b (unat (- i))) \<le> LENGTH('a)" using assms unsigned_less [of "- i", where 'a = nat] by (intro digits_fit) auto
  then obtain rest where u: "utos_ns cs (- i) (int b) = Some (length (digits b (unat (- i))), digit_text (digits b (unat (- i))) @ 0 # rest)"
    using utos_stores [OF assms(1-3), of "- i" cs] assms(4) buf by auto
  have "itos_ns buf i (int b) = Some (1 + length (digits b (unat (- i))), 45 # digit_text (digits b (unat (- i))) @ 0 # rest)"
    using True u buf assms(2) by (simp add: itos_ns_def MAX_NUMSYS_def)
  moreover have "strtos_via TYPE('a) (Some (45 # digit_text (digits b (unat (- i))) @ 0 # rest)) (int b)
      = Done (sint i, Some (1 + length (digits b (unat (- i)))), sint i = - (2 ^ (LENGTH('a) - 1)))"
    using strtou_digits [where 'a = 'a, OF assms(1,2), of "unat (- i)" rest] sint_cases [of i] True
    by (simp add: strtos_via_def to_signed_def shift_end_def unsigned_less)
  ultimately show ?thesis by blast
qed

text \<open>
  C9. Numbers survive being printed and read back. In every base from 2 to 16, for both widths and every
  signed number: printing it into a buffer with room for a sign, a digit for each bit and a zero returns, and
  reading the buffer in the same base gives the number again and ends behind its last digit. \<open>errno\<close> stays as it was, except
  for the smallest number, for which an overflow is reported with the right result.
\<close>

theorem itos_strtos_roundtrip:
  assumes "2 \<le> b" and "b \<le> 16" and "66 \<le> length buf"
  shows "(\<exists>n t. itos32_ns buf i (int b) = Some (n, t) \<and> strtos32 (Some t) (int b) = Done (sint i, Some n, sint i = - (2 ^ 31)))
    \<and> (\<exists>n t. itos64_ns buf j (int b) = Some (n, t) \<and> strtos64 (Some t) (int b) = Done (sint j, Some n, sint j = - (2 ^ 63)))"
  using itos_roundtrip [OF assms(1,2), of buf i] itos_roundtrip [OF assms(1,2), of buf j] assms(3)
  by (simp add: itos32_ns_def itos64_ns_def strtos32_def strtos64_def)

theorem itos_strtos_roundtrip_witness:
  "\<exists>n t. itos32_ns (replicate 66 7) (- 42) 10 = Some (n, t) \<and> strtos32 (Some t) 10 = Done (- 42, Some n, False)"
  using itos_strtos_roundtrip [of 10 "replicate 66 7" "- 42"] by simp

text \<open>
  \<open>strtoul\<close> accepts what it should reject: the hexadecimal number 123456789 does not fit 32 bits, but is
  returned without its first digit and without \<open>ERANGE\<close> (the test for an overflow only notices a smaller number);
  and a colon is read as the digit ten.
\<close>

theorem strtou32_overflow_missed:
  "strtou32 (Some [49, 50, 51, 52, 53, 54, 55, 56, 57, 0]) 16 = Done (0x23456789, Some 9, False)
    \<and> strtou32 (Some [58, 0]) 16 = Done (10, Some 1, False)"
  by code_simp

end
