(* ===== verification/LibcChar.thy ===== *)
theory LibcChar
  imports Prelude
begin

text \<open>
  Character classes (\<^verbatim>\<open>libs/libc/ctype.c\<close>, \<^verbatim>\<open>include/ctype.h\<close>). Characters are passed as C \<open>int\<close>s, here \<open>int\<close>;
  a \<open>char\<close> read from memory is a byte, and its value is the signed one (\<open>char_val\<close>), because \<open>char\<close> is signed on i386.
  A truth value of C is a \<open>bool\<close>.
\<close>

section \<open>Definitions\<close>

abbreviation F_IS_CNTRL :: u8 where "F_IS_CNTRL \<equiv> 0x01"
abbreviation F_IS_PUNCT :: u8 where "F_IS_PUNCT \<equiv> 0x02"
abbreviation F_IS_GRAPH :: u8 where "F_IS_GRAPH \<equiv> 0x04"
abbreviation F_IS_PRINT :: u8 where "F_IS_PRINT \<equiv> 0x08"
abbreviation F_IS_SPACE :: u8 where "F_IS_SPACE \<equiv> 0x10"
abbreviation F_IS_DIGIT :: u8 where "F_IS_DIGIT \<equiv> 0x20"
abbreviation F_IS_LOWER :: u8 where "F_IS_LOWER \<equiv> 0x40"
abbreviation F_IS_UPPER :: u8 where "F_IS_UPPER \<equiv> 0x80"

definition ctype_map :: "u8 list" where
  "ctype_map = [
    0x01, 0x01, 0x01, 0x01, 0x01, 0x01, 0x01, 0x01, 0x01, 0x11, 0x11, 0x11, 0x11, 0x11, 0x01, 0x01,
    0x01, 0x01, 0x01, 0x01, 0x01, 0x01, 0x01, 0x01, 0x01, 0x01, 0x01, 0x01, 0x01, 0x01, 0x01, 0x01,
    0x18, 0x0e, 0x0e, 0x0e, 0x0e, 0x0e, 0x0e, 0x0e, 0x0e, 0x0e, 0x0e, 0x0e, 0x0e, 0x0e, 0x0e, 0x0e,
    0x2c, 0x2c, 0x2c, 0x2c, 0x2c, 0x2c, 0x2c, 0x2c, 0x2c, 0x2c, 0x0e, 0x0e, 0x0e, 0x0e, 0x0e, 0x0e,
    0x0e, 0x8c, 0x8c, 0x8c, 0x8c, 0x8c, 0x8c, 0x8c, 0x8c, 0x8c, 0x8c, 0x8c, 0x8c, 0x8c, 0x8c, 0x8c,
    0x8c, 0x8c, 0x8c, 0x8c, 0x8c, 0x8c, 0x8c, 0x8c, 0x8c, 0x8c, 0x8c, 0x0c, 0x0e, 0x0e, 0x0e, 0xce,
    0x0e, 0x4c, 0x4c, 0x4c, 0x4c, 0x4c, 0x4c, 0x4c, 0x4c, 0x4c, 0x4c, 0x4c, 0x4c, 0x4c, 0x4c, 0x4c,
    0x4c, 0x4c, 0x4c, 0x4c, 0x4c, 0x4c, 0x4c, 0x4c, 0x4c, 0x4c, 0x4c, 0x0e, 0x0e, 0x0e, 0x0e, 0x01,
    0x00, 0x00, 0x00, 0x00, 0x00, 0x00, 0x00, 0x00, 0x00, 0x00, 0x00, 0x00, 0x00, 0x00, 0x00, 0x00,
    0x00, 0x00, 0x00, 0x00, 0x00, 0x00, 0x00, 0x00, 0x00, 0x00, 0x00, 0x00, 0x00, 0x00, 0x00, 0x00,
    0x00, 0x00, 0x00, 0x00, 0x00, 0x00, 0x00, 0x00, 0x00, 0x00, 0x00, 0x00, 0x00, 0x00, 0x00, 0x00,
    0x00, 0x00, 0x00, 0x00, 0x00, 0x00, 0x00, 0x00, 0x00, 0x00, 0x00, 0x00, 0x00, 0x00, 0x00, 0x00,
    0x00, 0x00, 0x00, 0x00, 0x00, 0x00, 0x00, 0x00, 0x00, 0x00, 0x00, 0x00, 0x00, 0x00, 0x00, 0x00,
    0x00, 0x00, 0x00, 0x00, 0x00, 0x00, 0x00, 0x00, 0x00, 0x00, 0x00, 0x00, 0x00, 0x00, 0x00, 0x00,
    0x00, 0x00, 0x00, 0x00, 0x00, 0x00, 0x00, 0x00, 0x00, 0x00, 0x00, 0x00, 0x00, 0x00, 0x00, 0x00,
    0x00, 0x00, 0x00, 0x00, 0x00, 0x00, 0x00, 0x00, 0x00, 0x00, 0x00, 0x00, 0x00, 0x00, 0x00, 0x00]"

definition ctype_has :: "u8 \<Rightarrow> int \<Rightarrow> bool" where
  "ctype_has flags ch = (ctype_map ! nat (ch AND 0xff) AND flags \<noteq> 0)"

definition isalnum :: "int \<Rightarrow> bool" where
  "isalnum = ctype_has (F_IS_DIGIT OR F_IS_LOWER OR F_IS_UPPER)"

definition isalpha :: "int \<Rightarrow> bool" where
  "isalpha = ctype_has (F_IS_LOWER OR F_IS_UPPER)"

definition isblank :: "int \<Rightarrow> bool" where
  "isblank ch = (ch = 9 \<or> ch = 32)"

definition iscntrl :: "int \<Rightarrow> bool" where
  "iscntrl = ctype_has F_IS_CNTRL"

definition isdigit :: "int \<Rightarrow> bool" where
  "isdigit = ctype_has F_IS_DIGIT"

definition isgraph :: "int \<Rightarrow> bool" where
  "isgraph = ctype_has F_IS_GRAPH"

definition islower :: "int \<Rightarrow> bool" where
  "islower = ctype_has F_IS_LOWER"

definition isprint :: "int \<Rightarrow> bool" where
  "isprint = ctype_has F_IS_PRINT"

definition ispunct :: "int \<Rightarrow> bool" where
  "ispunct = ctype_has F_IS_PUNCT"

definition isspace :: "int \<Rightarrow> bool" where
  "isspace = ctype_has F_IS_SPACE"

definition isupper :: "int \<Rightarrow> bool" where
  "isupper = ctype_has F_IS_UPPER"

definition isxdigit :: "int \<Rightarrow> bool" where
  "isxdigit ch = ((97 \<le> ch \<and> ch \<le> 102) \<or> (65 \<le> ch \<and> ch \<le> 70))"

definition tolower :: "int \<Rightarrow> int" where
  "tolower ch = (if 65 \<le> ch \<and> ch \<le> 90 then ch + (97 - 65) else ch)"

definition toupper :: "int \<Rightarrow> int" where
  "toupper ch = (if 97 \<le> ch \<and> ch \<le> 122 then ch + (65 - 97) else ch)"

definition ctype_tohex :: "u8 list list" where
  "ctype_tohex = [[48, 49, 50, 51, 52, 53, 54, 55, 56, 57, 97, 98, 99, 100, 101, 102],
    [48, 49, 50, 51, 52, 53, 54, 55, 56, 57, 65, 66, 67, 68, 69, 70]]"

definition tohex2 :: "int \<Rightarrow> int \<Rightarrow> u8" where
  "tohex2 uppercase x = ctype_tohex ! (if uppercase \<noteq> 0 then 1 else 0) ! nat (x AND 0xf)"

definition char_val :: "u8 \<Rightarrow> int" where
  "char_val c = sint c"

text \<open>Storing an \<open>int\<close> in a \<open>char\<close>.\<close>

definition to_char :: "int \<Rightarrow> u8" where
  "to_char v = word_of_int v"


section \<open>Properties\<close>

lemmas ctype_defs = isalnum_def isalpha_def isblank_def iscntrl_def isdigit_def isgraph_def islower_def
  isprint_def ispunct_def isspace_def isupper_def isxdigit_def ctype_has_def

text \<open>The classes of ISO C for the ASCII characters.\<close>

definition ascii_classes_at :: "int \<Rightarrow> bool" where
  "ascii_classes_at ch \<longleftrightarrow>
    isupper ch = (65 \<le> ch \<and> ch \<le> 90) \<and> islower ch = (97 \<le> ch \<and> ch \<le> 122) \<and>
    isdigit ch = (48 \<le> ch \<and> ch \<le> 57) \<and> isalpha ch = (isupper ch \<or> islower ch) \<and>
    isalnum ch = (isalpha ch \<or> isdigit ch) \<and> isspace ch = (ch = 32 \<or> 9 \<le> ch \<and> ch \<le> 13) \<and>
    iscntrl ch = (ch < 32 \<or> ch = 127) \<and> isprint ch = (32 \<le> ch \<and> ch < 127) \<and>
    isgraph ch = (32 < ch \<and> ch < 127) \<and> ispunct ch = (isgraph ch \<and> \<not> isalnum ch)"

lemma ascii_table: "list_all (\<lambda>ch. ch \<noteq> 91 \<and> ch \<noteq> 95 \<longrightarrow> ascii_classes_at ch) [0..127]"
  by code_simp

lemma ascii_exceptions:
  "\<not> ispunct 91" "isgraph 91" "\<not> isalnum 91" "isupper 95" "islower 95" "isalnum 95" "ispunct 95"
  by code_simp+

lemma high_table: "list_all (\<lambda>ch. ctype_map ! nat (ch AND 0xff) = 0) [-128..-1]"
  by code_simp

lemma tolower_idem [simp]: "tolower (tolower ch) = tolower ch"
  by (simp add: tolower_def)

lemma toupper_idem [simp]: "toupper (toupper ch) = toupper ch"
  by (simp add: toupper_def)

lemma tolower_eq_toupper: "tolower a = tolower b \<longleftrightarrow> toupper a = toupper b"
  by (auto simp: tolower_def toupper_def)

lemma tolower_0_iff [simp]: "tolower ch = 0 \<longleftrightarrow> ch = 0"
  by (auto simp: tolower_def)

lemma to_char_char_val [simp]: "to_char (char_val c) = c"
  by (simp add: to_char_def char_val_def)

lemma char_val_0_iff [simp]: "char_val c = 0 \<longleftrightarrow> c = 0"
  by (metis char_val_def signed_0 to_char_char_val)

lemma char_val_inj [simp]: "char_val c = char_val d \<longleftrightarrow> c = d"
  by (metis to_char_char_val)

lemma char_val_range: "- 128 \<le> char_val c \<and> char_val c < 128"
  using sint_ge [of c] sint_lt [of c] by (simp add: char_val_def)

text \<open>
  The table of character classes agrees with ISO C on every ASCII character except \<open>[\<close> and \<open>_\<close>, and puts
  no other value of a \<open>char\<close> into any class. The two exceptions are errors of the table: \<open>[\<close> is not punctuation
  and \<open>_\<close> is an upper and a lower case letter.
\<close>

theorem ctype_classes:
  assumes "- 128 \<le> ch" and "ch < 128"
  shows "(0 \<le> ch \<and> ch \<noteq> 91 \<and> ch \<noteq> 95 \<longrightarrow> ascii_classes_at ch)
    \<and> (ch < 0 \<longrightarrow> \<not> (isalnum ch \<or> iscntrl ch \<or> isgraph ch \<or> isprint ch \<or> ispunct ch \<or> isspace ch))
    \<and> \<not> ispunct 91 \<and> isupper 95 \<and> islower 95"
proof (intro conjI impI)
  show "ascii_classes_at ch" if "0 \<le> ch \<and> ch \<noteq> 91 \<and> ch \<noteq> 95"
    using ascii_table that assms(2) by (simp only: list_all_iff set_upto) force
  show "\<not> (isalnum ch \<or> iscntrl ch \<or> isgraph ch \<or> isprint ch \<or> ispunct ch \<or> isspace ch)" if "ch < 0"
  proof -
    have "ctype_map ! nat (ch AND 0xff) = 0"
      using high_table that assms(1) by (simp only: list_all_iff set_upto) force
    then show ?thesis by (simp add: ctype_defs)
  qed
qed (fact ascii_exceptions)+

theorem ctype_classes_witness: "ascii_classes_at 65 \<and> \<not> isprint (- 1)"
  using ctype_classes [of 65] ctype_classes [of "- 1"] by simp

end
