(* ===== verification/LibcMem.thy ===== *)
theory LibcMem
  imports LibcChar
begin

text \<open>
  The memory routines of \<^verbatim>\<open>libs/libc/string.c\<close> in their portable form (the branches without an
  architecture specific replacement). Memory is a list of bytes and a pointer is an offset into it; touching a
  byte outside the list is a \<open>Fault\<close>. Routines that only read take the bytes behind each pointer as a list, and
  give a found position as an offset, with \<open>None\<close> for \<open>NULL\<close>. Numbers of bytes are \<open>nat\<close>: a routine that is given
  more bytes than there is memory faults before any pointer could wrap around. The checks of the debug
  build (\<open>__STRING_ASSERTMEM\<close>, overlap assertions) are left out.
\<close>

section \<open>Bit scan\<close>

partial_function (option) ffs_loop :: "'a::len word \<Rightarrow> int \<Rightarrow> int option" where
  "ffs_loop i result = (if i AND 1 = 0 then ffs_loop (drop_bit 1 i) (result + 1) else Some result)"

definition ffs :: "'a::len word \<Rightarrow> int option" where
  "ffs i = (if i = 0 then Some 0 else ffs_loop i 1)"

definition ffs8 :: "u8 \<Rightarrow> int option" where "ffs8 = ffs"

definition ffs16 :: "u16 \<Rightarrow> int option" where "ffs16 = ffs"

definition ffs32 :: "u32 \<Rightarrow> int option" where "ffs32 = ffs"

definition ffs64 :: "64 word \<Rightarrow> int option" where "ffs64 = ffs"

section \<open>Copying and filling\<close>

definition mem_put :: "u8 list \<Rightarrow> nat \<Rightarrow> u8 \<Rightarrow> u8 list outcome" where
  "mem_put m i b = (if i < length m then Done (m[i := b]) else Fault)"

fun copy_up :: "u8 list \<Rightarrow> nat \<Rightarrow> nat \<Rightarrow> nat \<Rightarrow> u8 list outcome" where
  "copy_up m iter siter 0 = Done m"
| "copy_up m iter siter (Suc n) =
    andthen (vec_read m siter) (\<lambda>b. andthen (mem_put m iter b) (\<lambda>m. copy_up m (Suc iter) (Suc siter) n))"

fun copy_down :: "u8 list \<Rightarrow> nat \<Rightarrow> nat \<Rightarrow> nat \<Rightarrow> u8 list outcome" where
  "copy_down m dst src 0 = Done m"
| "copy_down m dst src (Suc n) =
    andthen (vec_read m (src + n)) (\<lambda>b. andthen (mem_put m (dst + n) b) (\<lambda>m. copy_down m dst src n))"

definition memmove :: "u8 list \<Rightarrow> nat \<Rightarrow> nat \<Rightarrow> nat \<Rightarrow> u8 list outcome" where
  "memmove m dst src bytes = (if dst < src then copy_up m dst src bytes else copy_down m dst src bytes)"

text \<open>An \<open>int\<close> has four bytes; all of them are read before the first one is written.\<close>

definition get_int :: "u8 list \<Rightarrow> nat \<Rightarrow> u8 list outcome" where
  "get_int m i = (if i + 4 \<le> length m then Done (take 4 (drop i m)) else Fault)"

definition put_bytes :: "u8 list \<Rightarrow> nat \<Rightarrow> u8 list \<Rightarrow> u8 list outcome" where
  "put_bytes m i bs = (if i + length bs \<le> length m then Done (take i m @ bs @ drop (i + length bs) m) else Fault)"

fun copy_ints :: "u8 list \<Rightarrow> nat \<Rightarrow> nat \<Rightarrow> nat \<Rightarrow> u8 list outcome" where
  "copy_ints m iter siter 0 = Done m"
| "copy_ints m iter siter (Suc n) =
    andthen (get_int m siter) (\<lambda>v. andthen (put_bytes m iter v) (\<lambda>m. copy_ints m (iter + 4) (siter + 4) n))"

definition memcpy :: "u8 list \<Rightarrow> nat \<Rightarrow> nat \<Rightarrow> nat \<Rightarrow> u8 list outcome" where
  "memcpy m dst src bytes = andthen (copy_ints m dst src (bytes div 4))
    (\<lambda>m. copy_up m (dst + 4 * (bytes div 4)) (src + 4 * (bytes div 4)) (bytes mod 4))"

text \<open>\<open>memccpy\<close> gives the end of the copied bytes, if it found \<open>c\<close>, and the memory.\<close>

fun memccpy :: "u8 list \<Rightarrow> nat \<Rightarrow> nat \<Rightarrow> int \<Rightarrow> nat \<Rightarrow> (nat option \<times> u8 list) outcome" where
  "memccpy m dst src c 0 = Done (None, m)"
| "memccpy m dst src c (Suc n) =
    andthen (vec_read m src) (\<lambda>b. andthen (mem_put m dst b) (\<lambda>m.
      if uint b = c then Done (Some (Suc dst), m) else memccpy m (Suc dst) (Suc src) c n))"

text \<open>The bytes of a number in memory, the least significant one first.\<close>

definition le_bytes :: "nat \<Rightarrow> 'a::len word \<Rightarrow> u8 list" where
  "le_bytes k w = map (\<lambda>i. ucast (drop_bit (8 * i) w)) [0..<k]"

fun fill_ints :: "u8 list \<Rightarrow> nat \<Rightarrow> u32 \<Rightarrow> nat \<Rightarrow> u8 list outcome" where
  "fill_ints m iter msk 0 = Done m"
| "fill_ints m iter msk (Suc n) = andthen (put_bytes m iter (le_bytes 4 msk)) (\<lambda>m. fill_ints m (iter + 4) msk n)"

definition memset :: "u8 list \<Rightarrow> nat \<Rightarrow> int \<Rightarrow> nat \<Rightarrow> u8 list outcome" where
  "memset m dst byte bytes =
    andthen (fill_ints m dst (word_of_int (0x01010101 * byte)) (bytes div 4)) (\<lambda>m.
      let iter = dst + 4 * (bytes div 4); half = le_bytes 2 (word_of_int (0x0101 * byte) :: u16) in
      if bytes mod 4 = 3 then andthen (put_bytes m iter half) (\<lambda>m. mem_put m (iter + 2) (to_char byte))
      else if bytes mod 4 = 2 then put_bytes m iter half
      else if bytes mod 4 = 1 then mem_put m iter (to_char byte)
      else Done m)"

fun memrev_loop :: "u8 list \<Rightarrow> nat \<Rightarrow> nat \<Rightarrow> nat \<Rightarrow> u8 list outcome" where
  "memrev_loop m iter swap 0 = Done m"
| "memrev_loop m iter swap (Suc n) =
    andthen (vec_read m iter) (\<lambda>temp. andthen (vec_read m (swap - 1)) (\<lambda>b.
      andthen (mem_put m iter b) (\<lambda>m. andthen (mem_put m (swap - 1) temp) (\<lambda>m. memrev_loop m (Suc iter) (swap - 1) n))))"

definition memrev :: "u8 list \<Rightarrow> nat \<Rightarrow> nat \<Rightarrow> u8 list outcome" where
  "memrev m p bytes = (if 1 < bytes then memrev_loop m p (p + bytes) (bytes div 2) else Done m)"

section \<open>Comparing and searching\<close>

text \<open>Both variables of the comparison start at zero and keep the values of the last pair of bytes.\<close>

fun memcmp_loop :: "(u8 \<Rightarrow> int) \<Rightarrow> int \<Rightarrow> int \<Rightarrow> u8 list \<Rightarrow> u8 list \<Rightarrow> nat \<Rightarrow> int outcome" where
  "memcmp_loop val av bv a b 0 = Done (av - bv)"
| "memcmp_loop val av bv (x # a) (y # b) (Suc n) =
    (if val x = val y then memcmp_loop val (val x) (val y) a b n else Done (val x - val y))"
| "memcmp_loop val av bv a b (Suc n) = Fault"

definition memcmp :: "u8 list \<Rightarrow> u8 list \<Rightarrow> nat \<Rightarrow> int outcome" where
  "memcmp a b bytes = memcmp_loop uint 0 0 a b bytes"

definition memicmp :: "u8 list \<Rightarrow> u8 list \<Rightarrow> nat \<Rightarrow> int outcome" where
  "memicmp a b bytes = memcmp_loop (\<lambda>c. tolower (char_val c)) 0 0 a b bytes"

fun memchr :: "u8 list \<Rightarrow> int \<Rightarrow> nat \<Rightarrow> nat option outcome" where
  "memchr p needle 0 = Done None"
| "memchr [] needle (Suc n) = Fault"
| "memchr (b # p) needle (Suc n) =
    (if uint b = needle then Done (Some 0) else andthen (memchr p needle n) (\<lambda>r. Done (map_option Suc r)))"

fun memrchr :: "u8 list \<Rightarrow> int \<Rightarrow> nat \<Rightarrow> nat option outcome" where
  "memrchr p needle 0 = Done None"
| "memrchr p needle (Suc n) =
    andthen (vec_read p n) (\<lambda>b. if uint b = needle then Done (Some n) else memrchr p needle n)"

fun memmem_loop :: "u8 list \<Rightarrow> u8 list \<Rightarrow> nat \<Rightarrow> nat \<Rightarrow> nat \<Rightarrow> nat option outcome" where
  "memmem_loop haystack needle needlelen iter 0 =
    andthen (memcmp (drop iter haystack) needle needlelen) (\<lambda>r. if r = 0 then Done (Some iter) else Done None)"
| "memmem_loop haystack needle needlelen iter (Suc n) =
    andthen (memcmp (drop iter haystack) needle needlelen) (\<lambda>r.
      if r = 0 then Done (Some iter) else memmem_loop haystack needle needlelen (Suc iter) n)"

definition memmem :: "u8 list \<Rightarrow> nat \<Rightarrow> u8 list \<Rightarrow> nat \<Rightarrow> nat option outcome" where
  "memmem haystack haystacklen needle needlelen =
    (if haystacklen < needlelen then Done None
     else memmem_loop haystack needle needlelen 0 (haystacklen - needlelen))"

fun memrmem_loop :: "u8 list \<Rightarrow> u8 list \<Rightarrow> nat \<Rightarrow> nat option \<Rightarrow> nat \<Rightarrow> nat \<Rightarrow> nat option outcome" where
  "memrmem_loop haystack needle needlelen result iter 0 =
    andthen (memcmp (drop iter haystack) needle needlelen) (\<lambda>r. Done (if r = 0 then Some iter else result))"
| "memrmem_loop haystack needle needlelen result iter (Suc n) =
    andthen (memcmp (drop iter haystack) needle needlelen) (\<lambda>r.
      memrmem_loop haystack needle needlelen (if r = 0 then Some iter else result) (Suc iter) n)"

definition memrmem :: "u8 list \<Rightarrow> nat \<Rightarrow> u8 list \<Rightarrow> nat \<Rightarrow> nat option outcome" where
  "memrmem haystack haystacklen needle needlelen =
    (if haystacklen < needlelen then Done None
     else memrmem_loop haystack needle needlelen None 0 (haystacklen - needlelen))"

fun memidx_loop :: "u8 list \<Rightarrow> u8 list \<Rightarrow> nat \<Rightarrow> nat \<Rightarrow> nat \<Rightarrow> nat \<Rightarrow> nat option outcome" where
  "memidx_loop vector pattern elemsize elemalign iter 0 = Done None"
| "memidx_loop vector pattern elemsize elemalign iter (Suc n) =
    andthen (memcmp (drop iter vector) pattern elemsize) (\<lambda>r.
      if r = 0 then Done (Some iter) else memidx_loop vector pattern elemsize elemalign (iter + elemalign) n)"

definition memidx :: "u8 list \<Rightarrow> nat \<Rightarrow> u8 list \<Rightarrow> nat \<Rightarrow> nat \<Rightarrow> nat option outcome" where
  "memidx vector elemcount pattern elemsize elemalign = memidx_loop vector pattern elemsize elemalign 0 elemcount"

fun memridx_loop :: "u8 list \<Rightarrow> u8 list \<Rightarrow> nat \<Rightarrow> nat \<Rightarrow> nat \<Rightarrow> nat option outcome" where
  "memridx_loop vector pattern elemsize elemalign 0 = Done None"
| "memridx_loop vector pattern elemsize elemalign (Suc n) =
    andthen (memcmp (drop (n * elemalign) vector) pattern elemsize) (\<lambda>r.
      if r = 0 then Done (Some (n * elemalign)) else memridx_loop vector pattern elemsize elemalign n)"

definition memridx :: "u8 list \<Rightarrow> nat \<Rightarrow> u8 list \<Rightarrow> nat \<Rightarrow> nat \<Rightarrow> nat option outcome" where
  "memridx vector elemcount pattern elemsize elemalign = memridx_loop vector pattern elemsize elemalign elemcount"

fun memsum_loop :: "u8 \<Rightarrow> u8 list \<Rightarrow> nat \<Rightarrow> u8 outcome" where
  "memsum_loop s p 0 = Done s"
| "memsum_loop s [] (Suc n) = Fault"
| "memsum_loop s (b # p) (Suc n) = memsum_loop (s + b) p n"

definition memsum :: "u8 list \<Rightarrow> nat \<Rightarrow> u8 outcome" where
  "memsum p bytes = memsum_loop 0 p bytes"

section \<open>Searches that ignore case\<close>

text \<open>Neither loop advances its pointer, so they are partial: \<open>None\<close> means that the call does not return.\<close>

partial_function (option) memichr_loop :: "u8 list \<Rightarrow> int \<Rightarrow> nat \<Rightarrow> nat option outcome option" where
  "memichr_loop p needle bytes =
    (if bytes = 0 then Some (Done None)
     else case p of [] \<Rightarrow> Some Fault
       | b # _ \<Rightarrow> if tolower (char_val b) = needle then Some (Done (Some 0)) else memichr_loop p needle bytes)"

definition memichr :: "u8 list \<Rightarrow> int \<Rightarrow> nat \<Rightarrow> nat option outcome option" where
  "memichr p needle bytes = memichr_loop p (tolower needle) bytes"

partial_function (option) memirchr_loop :: "u8 list \<Rightarrow> int \<Rightarrow> nat \<Rightarrow> nat option \<Rightarrow> nat option outcome option" where
  "memirchr_loop p needle bytes result =
    (if bytes = 0 then Some (Done result)
     else case p of [] \<Rightarrow> Some Fault
       | b # _ \<Rightarrow> memirchr_loop p needle bytes (if tolower (char_val b) = needle then Some 0 else result))"

definition memirchr :: "u8 list \<Rightarrow> int \<Rightarrow> nat \<Rightarrow> nat option outcome option" where
  "memirchr p needle bytes = memirchr_loop p (tolower needle) bytes None"

section \<open>Copies\<close>

text \<open>What copying \<open>n\<close> bytes from offset \<open>s\<close> to offset \<open>d\<close> should do to a memory.\<close>

definition moved :: "u8 list \<Rightarrow> nat \<Rightarrow> nat \<Rightarrow> nat \<Rightarrow> u8 list" where
  "moved m d s n = map (\<lambda>i. if d \<le> i \<and> i < d + n then m ! (s + (i - d)) else m ! i) [0..<length m]"

lemma length_moved [simp]: "length (moved m d s n) = length m"
  by (simp add: moved_def)

lemma nth_moved [simp]:
  "i < length m \<Longrightarrow> moved m d s n ! i = (if d \<le> i \<and> i < d + n then m ! (s + (i - d)) else m ! i)"
  by (simp add: moved_def)

lemma moved_0 [simp]: "moved m d s 0 = m"
  by (rule nth_equalityI) auto

lemma copy_up_moved:
  assumes "s + n \<le> length m" and "d + n \<le> length m" and "d \<le> s \<or> s + n \<le> d"
  shows "copy_up m d s n = Done (moved m d s n)"
  using assms
proof (induction m d s n rule: copy_up.induct)
  case (1 m d s)
  then show ?case by simp
next
  case (2 m d s n)
  let ?m = "m[d := m ! s]"
  have "copy_up ?m (Suc d) (Suc s) n = Done (moved ?m (Suc d) (Suc s) n)"
    using 2 by (intro "2.IH") (auto simp: mem_put_def)
  moreover have "moved ?m (Suc d) (Suc s) n = moved m d s (Suc n)"
    using "2.prems" by (intro nth_equalityI) (auto simp: nth_list_update Suc_le_eq Suc_diff_Suc)
  ultimately show ?case using "2.prems" by (simp add: mem_put_def)
qed

lemma copy_down_moved:
  assumes "s + n \<le> length m" and "d + n \<le> length m" and "s \<le> d"
  shows "copy_down m d s n = Done (moved m d s n)"
  using assms
proof (induction m d s n rule: copy_down.induct)
  case (1 m d s)
  then show ?case by simp
next
  case (2 m d s n)
  let ?m = "m[d + n := m ! (s + n)]"
  have "copy_down ?m d s n = Done (moved ?m d s n)"
    using 2 by (intro "2.IH") (auto simp: mem_put_def)
  moreover have "moved ?m d s n = moved m d s (Suc n)"
    using "2.prems" by (intro nth_equalityI) (auto simp: nth_list_update less_Suc_eq)
  ultimately show ?case using "2.prems" by (simp add: mem_put_def)
qed

lemma memmove_moved:
  "s + n \<le> length m \<Longrightarrow> d + n \<le> length m \<Longrightarrow> memmove m d s n = Done (moved m d s n)"
  by (simp add: memmove_def copy_up_moved copy_down_moved)

lemma put_int_moved:
  assumes "s + 4 \<le> length m" and "d + 4 \<le> length m"
  shows "andthen (get_int m s) (put_bytes m d) = Done (moved m d s 4)"
proof -
  have "take d m @ take 4 (drop s m) @ drop (d + 4) m = moved m d s 4"
    using assms by (intro nth_equalityI) (auto simp: nth_append)
  then show ?thesis using assms by (simp add: get_int_def put_bytes_def)
qed

lemma moved_moved:
  assumes "s + (k + n) \<le> length m" and "d + (k + n) \<le> length m" and "d + (k + n) \<le> s \<or> s + (k + n) \<le> d"
  shows "moved (moved m d s k) (d + k) (s + k) n = moved m d s (k + n)"
  using assms by (intro nth_equalityI) (auto simp: add.assoc)

lemma copy_ints_moved:
  assumes "s + 4 * n \<le> length m" and "d + 4 * n \<le> length m" and "d + 4 * n \<le> s \<or> s + 4 * n \<le> d"
  shows "copy_ints m d s n = Done (moved m d s (4 * n))"
  using assms
proof (induction n arbitrary: m d s)
  case 0
  then show ?case by simp
next
  case (Suc n)
  have "copy_ints m d s (Suc n) = copy_ints (moved m d s 4) (d + 4) (s + 4) n"
    using put_int_moved [of s m d] Suc.prems by (auto simp: andthen_Done_iff)
  also have "\<dots> = Done (moved (moved m d s 4) (d + 4) (s + 4) (4 * n))"
    using Suc.prems by (intro Suc.IH) auto
  finally show ?case using moved_moved [of s 4 "4 * n" m d] Suc.prems by simp
qed

lemma memcpy_moved:
  assumes "s + n \<le> length m" and "d + n \<le> length m" and "d + n \<le> s \<or> s + n \<le> d"
  shows "memcpy m d s n = Done (moved m d s n)"
proof -
  let ?k = "4 * (n div 4)" and ?r = "n mod 4"
  have n: "?k + ?r = n" by simp
  have "copy_ints m d s (n div 4) = Done (moved m d s ?k)"
    using assms n by (intro copy_ints_moved) linarith+
  moreover have "copy_up (moved m d s ?k) (d + ?k) (s + ?k) ?r = Done (moved (moved m d s ?k) (d + ?k) (s + ?k) ?r)"
    using assms n by (intro copy_up_moved) (simp_all only: length_moved, linarith+)
  ultimately show ?thesis
    using moved_moved [of s ?k ?r m d] assms n by (simp add: memcpy_def)
qed

text \<open>
  C35. \<open>memmove\<close> copies a block of memory to any other place of the same memory, however the two blocks
  overlap: every byte of the target gets the byte that the source had before the call, and no other byte changes.
  \<open>memcpy\<close>, which copies four bytes at a time and then the rest, does the same for blocks that do not overlap.
\<close>

theorem memmove_copies:
  assumes "src + bytes \<le> length m" and "dst + bytes \<le> length m"
  shows "memmove m dst src bytes = Done (moved m dst src bytes)
    \<and> (dst + bytes \<le> src \<or> src + bytes \<le> dst \<longrightarrow> memcpy m dst src bytes = memmove m dst src bytes)"
  using assms by (simp add: memmove_moved memcpy_moved)

theorem memmove_copies_witness:
  "memmove [1, 2, 3, 4, 5, 6] 1 0 4 = Done [1, 1, 2, 3, 4, 6]
    \<and> memcpy [1, 2, 3, 4, 5, 6, 7, 8, 9, 10] 5 0 5 = memmove [1, 2, 3, 4, 5, 6, 7, 8, 9, 10] 5 0 5"
  using memmove_copies [of 0 4 "[1, 2, 3, 4, 5, 6]" 1] memmove_copies [of 0 5 "[1, 2, 3, 4, 5, 6, 7, 8, 9, 10]" 5]
  by (simp add: moved_def upt_rec)

section \<open>Filling\<close>

definition filled :: "u8 list \<Rightarrow> nat \<Rightarrow> u8 \<Rightarrow> nat \<Rightarrow> u8 list" where
  "filled m d b n = map (\<lambda>i. if d \<le> i \<and> i < d + n then b else m ! i) [0..<length m]"

lemma length_filled [simp]: "length (filled m d b n) = length m"
  by (simp add: filled_def)

lemma nth_filled [simp]: "i < length m \<Longrightarrow> filled m d b n ! i = (if d \<le> i \<and> i < d + n then b else m ! i)"
  by (simp add: filled_def)

lemma filled_0 [simp]: "filled m d b 0 = m"
  by (rule nth_equalityI) auto

lemma filled_filled [simp]:
  "filled (filled m d b k) (d + k) b n = filled m d b (k + n)"
  by (rule nth_equalityI) auto

lemma put_bytes_filled:
  assumes "d + k \<le> length m"
  shows "put_bytes m d (replicate k b) = Done (filled m d b k)"
proof -
  have "take d m @ replicate k b @ drop (d + k) m = filled m d b k"
    using assms by (intro nth_equalityI) (auto simp: nth_append)
  then show ?thesis using assms by (simp add: put_bytes_def)
qed

lemma mem_put_filled: "d < length m \<Longrightarrow> mem_put m d b = Done (filled m d b 1)"
  by (auto simp: mem_put_def nth_list_update intro!: nth_equalityI)

lemma digit_256:
  assumes "0 \<le> b" and "b < 256"
  shows "(b + 256 * q) mod 256 = (b :: int)" and "(b + 256 * q) div 256 = q"
  using assms by simp_all

lemma low_bytes:
  assumes "0 \<le> byte" and "byte < 256"
  shows "16843009 * byte mod 256 = (byte :: int)" and "16843009 * byte div 256 mod 256 = byte"
    and "16843009 * byte div 65536 mod 256 = byte" and "16843009 * byte div 16777216 mod 256 = byte"
    and "257 * byte mod 256 = byte" and "257 * byte div 256 mod 256 = byte"
proof -
  note d = digit_256 [OF assms]
  have e: "16843009 * byte = byte + 256 * (byte + 256 * (byte + 256 * byte))" "257 * byte = byte + 256 * byte"
    by simp_all
  have q: "x div 65536 = x div 256 div 256" "x div 16777216 = x div 256 div 256 div 256" for x :: int
    by (simp_all add: zdiv_zmult2_eq [symmetric])
  show "16843009 * byte mod 256 = (byte :: int)" and "16843009 * byte div 256 mod 256 = byte"
    and "16843009 * byte div 65536 mod 256 = byte" and "16843009 * byte div 16777216 mod 256 = byte"
    and "257 * byte mod 256 = byte" and "257 * byte div 256 mod 256 = byte"
    unfolding e q d using assms by simp_all
qed

lemma ucast_drop_bit_byte:
  "ucast (drop_bit k (word_of_int x :: 'a::len word)) = (word_of_int (x mod 2 ^ LENGTH('a) div 2 ^ k) :: u8)"
  unfolding ucast_eq unsigned_drop_bit_eq by (simp add: uint_word_of_int drop_bit_eq_div take_bit_eq_mod)

lemma ucast_byte: "ucast (word_of_int x :: 'a::len word) = (word_of_int (x mod 2 ^ LENGTH('a)) :: u8)"
  using ucast_drop_bit_byte [of 0 x, where 'a = 'a] by simp

lemma replicate_4: "replicate 4 x = [x, x, x, x]" and replicate_2: "replicate 2 x = [x, x]"
  by (simp_all add: numeral_eq_Suc)

lemma le_bytes_alt:
  "le_bytes 4 (w :: 'a::len word) = [ucast w, ucast (drop_bit 8 w), ucast (drop_bit 16 w), ucast (drop_bit 24 w)]"
  "le_bytes 2 w = [ucast w, ucast (drop_bit 8 w)]"
  by (simp_all add: le_bytes_def upt_rec)

lemma u8_eqI: "x mod 256 = y mod 256 \<Longrightarrow> (word_of_int x :: u8) = word_of_int y"
  by (simp add: word_of_int_eq_iff take_bit_eq_mod)

lemma le_bytes_fill:
  assumes "0 \<le> byte" and "byte < 256"
  shows "le_bytes 4 (word_of_int (0x01010101 * byte) :: u32) = replicate 4 (to_char byte)"
    and "le_bytes 2 (word_of_int (0x0101 * byte) :: u16) = replicate 2 (to_char byte)"
proof -
  have w: "0x01010101 * byte mod 2 ^ LENGTH(32) = 0x01010101 * byte" "0x0101 * byte mod 2 ^ LENGTH(16) = 0x0101 * byte"
    using assms by simp_all
  have m: "byte mod 256 = byte" using assms by simp
  note low = low_bytes [OF assms]
  have p: "2 ^ 8 = (256 :: int)" "2 ^ 16 = (65536 :: int)" "2 ^ 24 = (16777216 :: int)" by simp_all
  show "le_bytes 4 (word_of_int (0x01010101 * byte) :: u32) = replicate 4 (to_char byte)"
    unfolding le_bytes_alt replicate_4 to_char_def ucast_byte ucast_drop_bit_byte w p list.inject
    by (intro conjI refl u8_eqI; simp only: low m)
  show "le_bytes 2 (word_of_int (0x0101 * byte) :: u16) = replicate 2 (to_char byte)"
    unfolding le_bytes_alt replicate_2 to_char_def ucast_byte ucast_drop_bit_byte w p list.inject
    by (intro conjI refl u8_eqI; simp only: low m)
qed

lemma fill_ints_filled:
  assumes "d + 4 * n \<le> length m" and "le_bytes 4 msk = replicate 4 b"
  shows "fill_ints m d msk n = Done (filled m d b (4 * n))"
  using assms(1)
proof (induction n arbitrary: m d)
  case 0
  then show ?case by simp
next
  case (Suc n)
  then show ?case using Suc.IH [of "d + 4" "filled m d b 4"] put_bytes_filled [of d 4 m b] by (simp add: assms(2))
qed

lemma memset_filled:
  assumes "0 \<le> byte" and "byte < 256" and "dst + n \<le> length m"
  shows "memset m dst byte n = Done (filled m dst (to_char byte) n)"
proof -
  let ?k = "4 * (n div 4)" and ?b = "to_char byte"
  let ?m = "filled m dst ?b ?k"
  note half = le_bytes_fill(2) [OF assms(1,2)]
  have n: "?k + n mod 4 = n" by simp
  then have k: "dst + ?k + n mod 4 \<le> length ?m" using assms(3) by simp
  have "fill_ints m dst (word_of_int (0x01010101 * byte)) (n div 4) = Done ?m"
    using assms(3) n by (intro fill_ints_filled le_bytes_fill(1) [OF assms(1,2)]) linarith
  moreover have three: "filled (filled m dst ?b (?k + 2)) (dst + ?k + 2) ?b 1 = filled m dst ?b (?k + 3)"
    by (rule nth_equalityI) auto
  have "n mod 4 = 0 \<or> n mod 4 = 1 \<or> n mod 4 = 2 \<or> n mod 4 = 3" by linarith
  then have "(if n mod 4 = 3 then andthen (put_bytes ?m (dst + ?k) (replicate 2 ?b)) (\<lambda>m. mem_put m (dst + ?k + 2) ?b)
      else if n mod 4 = 2 then put_bytes ?m (dst + ?k) (replicate 2 ?b)
      else if n mod 4 = 1 then mem_put ?m (dst + ?k) ?b else Done ?m) = Done (filled m dst ?b (?k + n mod 4))"
    using k three by (elim disjE) (simp_all add: put_bytes_filled mem_put_filled)
  ultimately show ?thesis unfolding memset_def half Let_def n by simp
qed



section \<open>Reversal\<close>

text \<open>A block whose first and last \<open>j\<close> bytes have been exchanged.\<close>

definition swapped :: "u8 list \<Rightarrow> nat \<Rightarrow> nat \<Rightarrow> nat \<Rightarrow> u8 list" where
  "swapped m p n j = map (\<lambda>i. if p \<le> i \<and> i < p + n \<and> (i < p + j \<or> p + n \<le> i + j) then m ! (p + n - 1 - (i - p)) else m ! i)
    [0..<length m]"

lemma length_swapped [simp]: "length (swapped m p n j) = length m"
  by (simp add: swapped_def)

lemma memrev_loop_swapped:
  assumes "p + n \<le> length m" and "2 * (j + k) \<le> n"
  shows "memrev_loop (swapped m p n j) (p + j) (p + n - j) k = Done (swapped m p n (j + k))"
  using assms(2)
proof (induction k arbitrary: j)
  case 0
  then show ?case by simp
next
  case (Suc k)
  let ?s = "swapped m p n j"
  have "?s ! (p + j) = m ! (p + j)" and "?s ! (p + n - j - 1) = m ! (p + n - j - 1)"
    using Suc.prems assms(1) by (auto simp: swapped_def)
  moreover have "?s[p + j := m ! (p + n - j - 1), p + n - j - 1 := m ! (p + j)] = swapped m p n (Suc j)"
    using Suc.prems assms(1)
    by (intro nth_equalityI) (auto simp: swapped_def nth_list_update intro: arg_cong [of _ _ "nth m"])
  ultimately show ?case
    using Suc.IH [of "Suc j"] Suc.prems assms(1) by (simp add: mem_put_def)
qed

lemma memrev_reverses:
  assumes "p + n \<le> length m"
  shows "memrev m p n = Done (take p m @ rev (take n (drop p m)) @ drop (p + n) m)"
proof -
  have "swapped m p n 0 = m" by (auto simp: swapped_def intro!: nth_equalityI)
  moreover have "swapped m p n (n div 2) = take p m @ rev (take n (drop p m)) @ drop (p + n) m"
    using assms by (intro nth_equalityI) (auto simp: swapped_def nth_append rev_nth intro: arg_cong [of _ _ "nth m"])
  ultimately show ?thesis
    using memrev_loop_swapped [OF assms, of 0 "n div 2"] by (cases "1 < n") (auto simp: memrev_def)
qed

section \<open>Searches\<close>

lemma memcmp_loop_zero:
  assumes "n \<le> length a" and "n \<le> length b"
  shows "\<exists>r. memcmp_loop val v v a b n = Done r \<and> (r = 0 \<longleftrightarrow> map val (take n a) = map val (take n b))"
  using assms
proof (induction n arbitrary: v a b)
  case 0
  then show ?case by simp
next
  case (Suc n)
  then obtain x a' y b' where "a = x # a'" "b = y # b'" by (cases a; cases b) auto
  then show ?case using Suc by auto
qed

lemma map_uint_eq [simp]: "map uint xs = map uint ys \<longleftrightarrow> xs = (ys :: 'a::len word list)"
  by (rule inj_map_eq_map) (auto simp: inj_def intro: unsigned_word_eqI)

lemma memcmp_zero:
  assumes "n \<le> length a" and "n \<le> length b"
  shows "\<exists>r. memcmp a b n = Done r \<and> (r = 0 \<longleftrightarrow> take n a = take n b)"
  using memcmp_loop_zero [OF assms, of uint 0] by (simp add: memcmp_def)

text \<open>The positions of a block at which a pattern of \<open>n\<close> bytes occurs.\<close>

definition occurs_at :: "u8 list \<Rightarrow> u8 list \<Rightarrow> nat \<Rightarrow> nat \<Rightarrow> bool" where
  "occurs_at h p n i \<longleftrightarrow> take n (drop i h) = take n p"

lemma memcmp_at:
  assumes "n \<le> length p" and "i + n \<le> length h"
  obtains r where "memcmp (drop i h) p n = Done r" and "r = 0 \<longleftrightarrow> occurs_at h p n i"
  using memcmp_zero [of n "drop i h" p] assms by (fastforce simp: occurs_at_def)

lemma find_append: "find P (xs @ ys) = (case find P xs of None \<Rightarrow> find P ys | Some x \<Rightarrow> Some x)"
  by (induction xs) simp_all

lemma find_map: "find P (map f xs) = map_option f (find (\<lambda>x. P (f x)) xs)"
  by (induction xs) simp_all

lemma upt_Cons_Suc: "[i..<Suc (i + Suc k)] = i # [Suc i..<Suc (Suc i + k)]"
  by (simp add: upt_rec)

lemma memmem_loop_find:
  assumes "n \<le> length p" and "i + k + n \<le> length h"
  shows "memmem_loop h p n i k = Done (find (occurs_at h p n) [i..<Suc (i + k)])"
  using assms
proof (induction k arbitrary: i)
  case 0
  from 0 obtain r where "memcmp (drop i h) p n = Done r" "r = 0 \<longleftrightarrow> occurs_at h p n i"
    by (auto elim: memcmp_at)
  then show ?case by simp
next
  case (Suc k)
  from Suc.prems obtain r where "memcmp (drop i h) p n = Done r" "r = 0 \<longleftrightarrow> occurs_at h p n i"
    by (elim memcmp_at [of n p i h]) linarith+
  then show ?case unfolding upt_Cons_Suc using Suc by simp
qed

lemma memrmem_loop_find:
  assumes "n \<le> length p" and "i + k + n \<le> length h"
  shows "memrmem_loop h p n r0 i k =
    Done (case find (occurs_at h p n) (rev [i..<Suc (i + k)]) of None \<Rightarrow> r0 | Some j \<Rightarrow> Some j)"
  using assms
proof (induction k arbitrary: i r0)
  case 0
  from 0 obtain r where "memcmp (drop i h) p n = Done r" "r = 0 \<longleftrightarrow> occurs_at h p n i"
    by (auto elim: memcmp_at)
  then show ?case by simp
next
  case (Suc k)
  from Suc.prems obtain r where "memcmp (drop i h) p n = Done r" "r = 0 \<longleftrightarrow> occurs_at h p n i"
    by (elim memcmp_at [of n p i h]) linarith+
  then show ?case unfolding upt_Cons_Suc using Suc by (simp add: find_append split: option.split)
qed

lemma memchr_find:
  assumes "n \<le> length p"
  shows "memchr p c n = Done (find (\<lambda>i. uint (p ! i) = c) [0..<n])"
  using assms
proof (induction p c n rule: memchr.induct)
  case (3 b p c n)
  have "find (\<lambda>i. uint ((b # p) ! i) = c) (map Suc [0..<n]) = map_option Suc (find (\<lambda>i. uint (p ! i) = c) [0..<n])"
    by (simp add: find_map comp_def)
  then show ?case using 3 by (simp add: upt_conv_Cons map_Suc_upt del: upt_Suc)
qed simp_all

lemma memrchr_find: "n \<le> length p \<Longrightarrow> memrchr p c n = Done (find (\<lambda>i. uint (p ! i) = c) (rev [0..<n]))"
  by (induction n) simp_all

text \<open>
  The searches in memory find exactly what their names say: \<open>memchr\<close> and \<open>memrchr\<close> the first and the last
  position of a byte, \<open>memmem\<close> and \<open>memrmem\<close> those of a pattern, and no position if there is none; they never read
  outside the block and the pattern.
\<close>

theorem memory_searches:
  assumes "hlen \<le> length h" and "n \<le> length p"
  shows "memchr h c hlen = Done (find (\<lambda>i. uint (h ! i) = c) [0..<hlen])
    \<and> memrchr h c hlen = Done (find (\<lambda>i. uint (h ! i) = c) (rev [0..<hlen]))
    \<and> memmem h hlen p n = Done (find (occurs_at h p n) (if n \<le> hlen then [0..<Suc (hlen - n)] else []))
    \<and> memrmem h hlen p n = Done (find (occurs_at h p n) (rev (if n \<le> hlen then [0..<Suc (hlen - n)] else [])))"
  using memmem_loop_find [OF assms(2), of 0 "hlen - n" h] memrmem_loop_find [OF assms(2), of 0 "hlen - n" h None] assms
  by (simp add: memchr_find memrchr_find memmem_def memrmem_def not_less split: option.split)

theorem memory_searches_witness: "memmem [1, 2, 1, 2, 3] 5 [1, 2] 2 = Done (Some 0) \<and> memrmem [1, 2, 1, 2, 3] 5 [1, 2] 2 = Done (Some 2)"
  using memory_searches [of 5 "[1, 2, 1, 2, 3]" 2 "[1, 2]" 1] by (simp add: occurs_at_def upt_rec)

lemma ffs_loop_least:
  assumes "bit i n" and "\<forall>k < n. \<not> bit i k"
  shows "ffs_loop i r = Some (r + int n)"
  using assms
proof (induction n arbitrary: i r)
  case 0
  then have "i AND 1 \<noteq> 0" by (simp add: and_one_eq odd_iff_mod_2_eq_one bit_0)
  then show ?case by (subst ffs_loop.simps) simp
next
  case (Suc n)
  then have "i AND 1 = 0" by (auto simp: and_one_eq bit_0 even_iff_mod_2_eq_zero)
  moreover have "ffs_loop (drop_bit 1 i) (r + 1) = Some (r + 1 + int n)"
    using Suc by (intro Suc.IH) (auto simp: bit_drop_bit_eq)
  ultimately show ?case by (subst ffs_loop.simps) simp
qed

end
