(* ===== verification/LibcString.thy ===== *)
theory LibcString
  imports LibcMem
begin

text \<open>
  The string routines of \<^verbatim>\<open>libs/libc/string.c\<close> in their portable form. A string argument is the list of the
  bytes behind the pointer, as far as there is memory; reading behind it is a \<open>Fault\<close>. Positions are offsets, and
  \<open>None\<close> is \<open>NULL\<close>. A bound on the number of characters is \<open>Some n\<close>, and \<open>None\<close> for the routines that have none.
  The families of routines that the source writes out for each combination of direction, bound and case are
  instances of one definition with the differences as arguments: the cast applied to characters
  (\<open>tolower\<close> for the routines that ignore case), whether the search goes on after a hit, and the bounds. The
  results of \<open>tolower\<close> on a \<open>char\<close> fit a \<open>char\<close>, so storing them in one does not change them.
\<close>

section \<open>Lengths and spans\<close>

definition lim_dec :: "nat option \<Rightarrow> nat option" where
  "lim_dec lim = map_option (\<lambda>n. n - 1) lim"

lemma lim_dec_simps [simp]: "lim_dec None = None" "lim_dec (Some n) = Some (n - 1)"
  by (simp_all add: lim_dec_def)

text \<open>\<open>while (iter != end && go(*iter)) ++iter;\<close>\<close>

fun scan :: "(u8 \<Rightarrow> bool outcome) \<Rightarrow> nat option \<Rightarrow> u8 list \<Rightarrow> nat outcome" where
  "scan go lim [] = (if lim = Some 0 then Done 0 else Fault)"
| "scan go lim (c # s) =
    (if lim = Some 0 then Done 0
     else andthen (go c) (\<lambda>b. if b then andthen (scan go (lim_dec lim) s) (\<lambda>n. Done (Suc n)) else Done 0))"

definition umemend :: "u8 list \<Rightarrow> int \<Rightarrow> nat outcome" where
  "umemend haystack needle = scan (\<lambda>b. Done (uint b \<noteq> needle)) None haystack"

definition umemlen :: "u8 list \<Rightarrow> int \<Rightarrow> nat outcome" where
  "umemlen haystack needle = scan (\<lambda>b. Done (uint b \<noteq> needle)) None haystack"

definition memend :: "u8 list \<Rightarrow> int \<Rightarrow> nat \<Rightarrow> nat outcome" where
  "memend haystack needle bytes = scan (\<lambda>b. Done (uint b \<noteq> needle)) (Some bytes) haystack"

definition memlen :: "u8 list \<Rightarrow> int \<Rightarrow> nat \<Rightarrow> nat outcome" where
  "memlen haystack needle bytes = scan (\<lambda>b. Done (uint b \<noteq> needle)) (Some bytes) haystack"

definition strend :: "u8 list \<Rightarrow> nat outcome" where
  "strend s = scan (\<lambda>c. Done (c \<noteq> 0)) None s"

definition strnend :: "u8 list \<Rightarrow> nat \<Rightarrow> nat outcome" where
  "strnend s maxchars = scan (\<lambda>c. Done (c \<noteq> 0)) (Some maxchars) s"

definition strlen :: "u8 list \<Rightarrow> nat outcome" where
  "strlen s = scan (\<lambda>c. Done (c \<noteq> 0)) None s"

definition strnlen :: "u8 list \<Rightarrow> nat \<Rightarrow> nat outcome" where
  "strnlen s maxchars = scan (\<lambda>c. Done (c \<noteq> 0)) (Some maxchars) s"

section \<open>Characters\<close>

text \<open>The loops of the searches for a character: \<open>cast\<close> is applied to the characters of the string.\<close>

fun chr_first :: "(int \<Rightarrow> int) \<Rightarrow> nat option \<Rightarrow> int \<Rightarrow> u8 list \<Rightarrow> nat option outcome" where
  "chr_first cast lim needle [] = (if lim = Some 0 then Done None else Fault)"
| "chr_first cast lim needle (ch # s) =
    (if lim = Some 0 \<or> ch = 0 then Done None
     else if cast (char_val ch) = needle then Done (Some 0)
     else andthen (chr_first cast (lim_dec lim) needle s) (\<lambda>r. Done (map_option Suc r)))"

fun chr_last :: "(int \<Rightarrow> int) \<Rightarrow> nat option \<Rightarrow> int \<Rightarrow> nat \<Rightarrow> nat option \<Rightarrow> u8 list \<Rightarrow> nat option outcome" where
  "chr_last cast lim needle iter result [] = (if lim = Some 0 then Done result else Fault)"
| "chr_last cast lim needle iter result (ch # s) =
    (if lim = Some 0 \<or> ch = 0 then Done result
     else chr_last cast (lim_dec lim) needle (Suc iter) (if cast (char_val ch) = needle then Some iter else result) s)"

definition strchr :: "u8 list \<Rightarrow> int \<Rightarrow> nat option outcome" where
  "strchr haystack needle = chr_first (\<lambda>c. c) None needle haystack"

definition strrchr :: "u8 list \<Rightarrow> int \<Rightarrow> nat option outcome" where
  "strrchr haystack needle = chr_last (\<lambda>c. c) None needle 0 None haystack"

definition strnchr :: "u8 list \<Rightarrow> nat \<Rightarrow> int \<Rightarrow> nat option outcome" where
  "strnchr haystack max_haychars needle = chr_first (\<lambda>c. c) (Some max_haychars) needle haystack"

definition strnrchr :: "u8 list \<Rightarrow> nat \<Rightarrow> int \<Rightarrow> nat option outcome" where
  "strnrchr haystack max_haychars needle = chr_last (\<lambda>c. c) (Some max_haychars) needle 0 None haystack"

definition strinrchr :: "u8 list \<Rightarrow> nat \<Rightarrow> int \<Rightarrow> nat option outcome" where
  "strinrchr haystack max_haychars needle = chr_last tolower (Some max_haychars) (tolower needle) 0 None haystack"

text \<open>\<open>strinchr\<close> differs from the others: at the end of the string it returns the position of the terminator.\<close>

fun strinchr_loop :: "nat option \<Rightarrow> int \<Rightarrow> u8 list \<Rightarrow> nat option outcome" where
  "strinchr_loop lim needle [] = (if lim = Some 0 then Done None else Fault)"
| "strinchr_loop lim needle (ch # s) =
    (if lim = Some 0 then Done None
     else if ch = 0 then Done (Some 0)
     else if tolower (char_val ch) = needle then Done (Some 0)
     else andthen (strinchr_loop (lim_dec lim) needle s) (\<lambda>r. Done (map_option Suc r)))"

definition strinchr :: "u8 list \<Rightarrow> nat \<Rightarrow> int \<Rightarrow> nat option outcome" where
  "strinchr haystack max_haychars needle = strinchr_loop (Some max_haychars) (tolower needle) haystack"

text \<open>\<open>strichr\<close> and \<open>strirchr\<close> never advance; \<open>None\<close> means that the call does not return.\<close>

partial_function (option) strichr_loop :: "u8 list \<Rightarrow> int \<Rightarrow> nat option outcome option" where
  "strichr_loop haystack needle =
    (case haystack of [] \<Rightarrow> Some Fault
     | ch # _ \<Rightarrow> if ch = 0 then Some (Done None)
         else if tolower (char_val ch) = needle then Some (Done (Some 0)) else strichr_loop haystack needle)"

definition strichr :: "u8 list \<Rightarrow> int \<Rightarrow> nat option outcome option" where
  "strichr haystack needle = strichr_loop haystack (tolower needle)"

partial_function (option) strirchr_loop :: "u8 list \<Rightarrow> int \<Rightarrow> nat option \<Rightarrow> nat option outcome option" where
  "strirchr_loop haystack needle result =
    (case haystack of [] \<Rightarrow> Some Fault
     | ch # _ \<Rightarrow> if ch = 0 then Some (Done result)
         else strirchr_loop haystack needle (if tolower (char_val ch) = needle then Some 0 else result))"

definition strirchr :: "u8 list \<Rightarrow> int \<Rightarrow> nat option outcome option" where
  "strirchr haystack needle = strirchr_loop haystack (tolower needle) None"

text \<open>The spans; the test reads the set of characters for every character of the string.\<close>

definition strspn :: "u8 list \<Rightarrow> u8 list \<Rightarrow> nat outcome" where
  "strspn str spanset = scan (\<lambda>c. andthen (strchr spanset (char_val c)) (\<lambda>r. Done (r \<noteq> None))) None str"

definition strnspn :: "u8 list \<Rightarrow> nat \<Rightarrow> u8 list \<Rightarrow> nat \<Rightarrow> nat outcome" where
  "strnspn str maxstr spanset maxspanset =
    scan (\<lambda>c. andthen (strnchr spanset maxspanset (char_val c)) (\<lambda>r. Done (r \<noteq> None))) (Some maxstr) str"

definition strcspn :: "u8 list \<Rightarrow> u8 list \<Rightarrow> nat outcome" where
  "strcspn str spanset =
    scan (\<lambda>c. if c = 0 then Done False else andthen (strchr spanset (char_val c)) (\<lambda>r. Done (r = None))) None str"

definition strncspn :: "u8 list \<Rightarrow> nat \<Rightarrow> u8 list \<Rightarrow> nat \<Rightarrow> nat outcome" where
  "strncspn str maxstr spanset maxspanset =
    scan (\<lambda>c. if c = 0 then Done False else andthen (strnchr spanset maxspanset (char_val c)) (\<lambda>r. Done (r = None)))
      (Some maxstr) str"

section \<open>Comparisons\<close>

text \<open>The result is the difference of the two last characters read, as signed characters.\<close>

fun strcmp_loop :: "(int \<Rightarrow> int) \<Rightarrow> u8 list \<Rightarrow> u8 list \<Rightarrow> int outcome" where
  "strcmp_loop cast (x # a) (y # b) =
    (let cha = cast (char_val x); chb = cast (char_val y) in
     if cha \<noteq> 0 \<and> chb \<noteq> 0 \<and> cha = chb then strcmp_loop cast a b else Done (cha - chb))"
| "strcmp_loop cast a b = Fault"

definition strcmp :: "u8 list \<Rightarrow> u8 list \<Rightarrow> int outcome" where
  "strcmp a b = strcmp_loop (\<lambda>c. c) a b"

definition stricmp :: "u8 list \<Rightarrow> u8 list \<Rightarrow> int outcome" where
  "stricmp a b = strcmp_loop tolower a b"

text \<open>
  The bounded comparison leaves the loop before it reads the character of \<open>b\<close> when \<open>a\<close> ends: \<open>chb\<close> then still has the
  character before that.
\<close>

fun strncmp_loop :: "(int \<Rightarrow> int) \<Rightarrow> int \<Rightarrow> int \<Rightarrow> u8 list \<Rightarrow> u8 list \<Rightarrow> nat \<Rightarrow> int outcome" where
  "strncmp_loop cast cha chb a b 0 = Done (cha - chb)"
| "strncmp_loop cast cha chb [] b (Suc n) = Fault"
| "strncmp_loop cast cha chb (x # a) b (Suc n) =
    (if cast (char_val x) = 0 then Done (cast (char_val x) - chb)
     else case b of [] \<Rightarrow> Fault
       | y # b' \<Rightarrow> if cast (char_val y) = 0 \<or> cast (char_val x) \<noteq> cast (char_val y)
           then Done (cast (char_val x) - cast (char_val y))
           else strncmp_loop cast (cast (char_val x)) (cast (char_val y)) a b' n)"

definition strncmp :: "u8 list \<Rightarrow> u8 list \<Rightarrow> nat \<Rightarrow> int outcome" where
  "strncmp a b maxchars = strncmp_loop (\<lambda>c. c) 0 0 a b maxchars"

definition strincmp :: "u8 list \<Rightarrow> u8 list \<Rightarrow> nat \<Rightarrow> int outcome" where
  "strincmp a b maxchars = strncmp_loop tolower 0 0 a b maxchars"

section \<open>Substrings\<close>

text \<open>The inner loop of the searches for a string: the rest of the needle against the text behind a first hit.\<close>

fun match_rest :: "(int \<Rightarrow> int) \<Rightarrow> nat option \<Rightarrow> u8 list \<Rightarrow> u8 list \<Rightarrow> bool outcome" where
  "match_rest cast nlim [] hay2 = (if nlim = Some 0 then Done True else Fault)"
| "match_rest cast nlim (ch # ned) hay2 =
    (if nlim = Some 0 \<or> ch = 0 then Done True
     else case hay2 of [] \<Rightarrow> Fault
       | h # hay' \<Rightarrow> if cast (char_val h) = cast (char_val ch) then match_rest cast (lim_dec nlim) ned hay' else Done False)"

fun str_search :: "(int \<Rightarrow> int) \<Rightarrow> bool \<Rightarrow> nat option \<Rightarrow> int \<Rightarrow> u8 list \<Rightarrow> nat option \<Rightarrow> nat \<Rightarrow> nat option \<Rightarrow> u8 list
    \<Rightarrow> nat option outcome" where
  "str_search cast lastp nlim needle_start needle hlim hay_iter result [] = (if hlim = Some 0 then Done result else Fault)"
| "str_search cast lastp nlim needle_start needle hlim hay_iter result (ch # hay) =
    (if hlim = Some 0 \<or> ch = 0 then Done result
     else andthen (if cast (char_val ch) = needle_start then match_rest cast nlim needle hay else Done False) (\<lambda>hit.
       if hit \<and> \<not> lastp then Done (Some hay_iter)
       else str_search cast lastp nlim needle_start needle (lim_dec hlim) (Suc hay_iter)
              (if hit then Some hay_iter else result) hay))"

definition str_find :: "(int \<Rightarrow> int) \<Rightarrow> bool \<Rightarrow> u8 list \<Rightarrow> nat option \<Rightarrow> u8 list \<Rightarrow> nat option \<Rightarrow> nat option outcome" where
  "str_find cast lastp haystack hlim needle nlim =
    (if nlim = Some 0 then Done None
     else case needle of [] \<Rightarrow> Fault
       | start # ned \<Rightarrow> str_search cast lastp (lim_dec nlim) (cast (char_val start)) ned hlim 0 None haystack)"

definition strstr :: "u8 list \<Rightarrow> u8 list \<Rightarrow> nat option outcome" where
  "strstr haystack needle = str_find (\<lambda>c. c) False haystack None needle None"

definition strrstr :: "u8 list \<Rightarrow> u8 list \<Rightarrow> nat option outcome" where
  "strrstr haystack needle = str_find (\<lambda>c. c) True haystack None needle None"

definition strnstr :: "u8 list \<Rightarrow> nat \<Rightarrow> u8 list \<Rightarrow> nat \<Rightarrow> nat option outcome" where
  "strnstr haystack max_haychars needle max_needlechars =
    str_find (\<lambda>c. c) False haystack (Some max_haychars) needle (Some max_needlechars)"

definition strnrstr :: "u8 list \<Rightarrow> nat \<Rightarrow> u8 list \<Rightarrow> nat \<Rightarrow> nat option outcome" where
  "strnrstr haystack max_haychars needle max_needlechars =
    str_find (\<lambda>c. c) True haystack (Some max_haychars) needle (Some max_needlechars)"

definition stristr :: "u8 list \<Rightarrow> u8 list \<Rightarrow> nat option outcome" where
  "stristr haystack needle = str_find tolower False haystack None needle None"

definition strirstr :: "u8 list \<Rightarrow> u8 list \<Rightarrow> nat option outcome" where
  "strirstr haystack needle = str_find tolower True haystack None needle None"

definition strinstr :: "u8 list \<Rightarrow> nat \<Rightarrow> u8 list \<Rightarrow> nat \<Rightarrow> nat option outcome" where
  "strinstr haystack max_haychars needle max_needlechars =
    str_find tolower False haystack (Some max_haychars) needle (Some max_needlechars)"

definition strinrstr :: "u8 list \<Rightarrow> nat \<Rightarrow> u8 list \<Rightarrow> nat \<Rightarrow> nat option outcome" where
  "strinrstr haystack max_haychars needle max_needlechars =
    str_find tolower True haystack (Some max_haychars) needle (Some max_needlechars)"

section \<open>Sets of characters\<close>

fun in_needles :: "(int \<Rightarrow> int) \<Rightarrow> int \<Rightarrow> nat option \<Rightarrow> u8 list \<Rightarrow> bool outcome" where
  "in_needles cast haych nlim [] = Fault"
| "in_needles cast haych nlim (ch # ned) =
    (if ch = 0 then Done False
     else if haych = cast (char_val ch) then Done True
     else if lim_dec nlim = Some 0 then Done False
     else in_needles cast haych (lim_dec nlim) ned)"

fun pbrk_loop :: "(int \<Rightarrow> int) \<Rightarrow> bool \<Rightarrow> nat option \<Rightarrow> u8 list \<Rightarrow> nat option \<Rightarrow> nat \<Rightarrow> nat option \<Rightarrow> u8 list
    \<Rightarrow> nat option outcome" where
  "pbrk_loop cast lastp nlim needle_list hlim hay_iter result [] = (if hlim = Some 0 then Done result else Fault)"
| "pbrk_loop cast lastp nlim needle_list hlim hay_iter result (haych # hay) =
    (if hlim = Some 0 \<or> haych = 0 then Done result
     else andthen (in_needles cast (cast (char_val haych)) nlim needle_list) (\<lambda>hit.
       if hit \<and> \<not> lastp then Done (Some hay_iter)
       else pbrk_loop cast lastp nlim needle_list (lim_dec hlim) (Suc hay_iter) (if hit then Some hay_iter else result) hay))"

definition pbrk_find :: "(int \<Rightarrow> int) \<Rightarrow> bool \<Rightarrow> u8 list \<Rightarrow> nat option \<Rightarrow> u8 list \<Rightarrow> nat option \<Rightarrow> nat option outcome" where
  "pbrk_find cast lastp haystack hlim needle_list nlim =
    (if nlim = Some 0 then Done None else pbrk_loop cast lastp nlim needle_list hlim 0 None haystack)"

definition strpbrk :: "u8 list \<Rightarrow> u8 list \<Rightarrow> nat option outcome" where
  "strpbrk haystack needle_list = pbrk_find (\<lambda>c. c) False haystack None needle_list None"

definition strrpbrk :: "u8 list \<Rightarrow> u8 list \<Rightarrow> nat option outcome" where
  "strrpbrk haystack needle_list = pbrk_find (\<lambda>c. c) True haystack None needle_list None"

definition strnpbrk :: "u8 list \<Rightarrow> nat \<Rightarrow> u8 list \<Rightarrow> nat \<Rightarrow> nat option outcome" where
  "strnpbrk haystack max_haychars needle_list max_needlelist =
    pbrk_find (\<lambda>c. c) False haystack (Some max_haychars) needle_list (Some max_needlelist)"

definition strnrpbrk :: "u8 list \<Rightarrow> nat \<Rightarrow> u8 list \<Rightarrow> nat \<Rightarrow> nat option outcome" where
  "strnrpbrk haystack max_haychars needle_list max_needlelist =
    pbrk_find (\<lambda>c. c) True haystack (Some max_haychars) needle_list (Some max_needlelist)"

definition stripbrk :: "u8 list \<Rightarrow> u8 list \<Rightarrow> nat option outcome" where
  "stripbrk haystack needle_list = pbrk_find tolower False haystack None needle_list None"

definition strirpbrk :: "u8 list \<Rightarrow> u8 list \<Rightarrow> nat option outcome" where
  "strirpbrk haystack needle_list = pbrk_find tolower True haystack None needle_list None"

definition strinpbrk :: "u8 list \<Rightarrow> nat \<Rightarrow> u8 list \<Rightarrow> nat \<Rightarrow> nat option outcome" where
  "strinpbrk haystack max_haychars needle_list max_needlelist =
    pbrk_find tolower False haystack (Some max_haychars) needle_list (Some max_needlelist)"

definition strinrpbrk :: "u8 list \<Rightarrow> nat \<Rightarrow> u8 list \<Rightarrow> nat \<Rightarrow> nat option outcome" where
  "strinrpbrk haystack max_haychars needle_list max_needlelist =
    pbrk_find tolower True haystack (Some max_haychars) needle_list (Some max_needlelist)"

section \<open>Searches are correct\<close>

text \<open>What a bound leaves of a string, and where a pattern occurs in a text under a cast of the characters.\<close>

definition lim_take :: "nat option \<Rightarrow> 'a list \<Rightarrow> 'a list" where
  "lim_take lim xs = (case lim of None \<Rightarrow> xs | Some n \<Rightarrow> take n xs)"

definition hit_at :: "(u8 \<Rightarrow> int) \<Rightarrow> u8 list \<Rightarrow> u8 list \<Rightarrow> nat \<Rightarrow> bool" where
  "hit_at C h n i \<longleftrightarrow> take (length n) (map C (drop i h)) = map C n"

lemma lim_take_simps [simp]:
  "lim_take None xs = xs" "lim_take (Some 0) xs = []" "lim_take lim [] = []"
  "lim \<noteq> Some 0 \<Longrightarrow> lim_take lim (x # xs) = x # lim_take (lim_dec lim) xs"
  by (auto simp: lim_take_def take_Cons' split: option.split)

lemma lim_cases: "lim = Some 0 \<Longrightarrow> lim_take lim xs = []"
  by simp

lemma match_rest_prefix:
  assumes "0 \<notin> set n" and "0 \<notin> set h" and "\<And>x. cast x = 0 \<longleftrightarrow> x = 0"
  shows "match_rest cast nlim (n @ 0 # np) (h @ 0 # hp)
    = Done (hit_at (\<lambda>c. cast (char_val c)) h (lim_take nlim n) 0)"
  using assms(1,2)
proof (induction n arbitrary: h nlim)
  case Nil
  then show ?case by (simp add: hit_at_def)
next
  case (Cons c n)
  show ?case
  proof (cases "nlim = Some 0")
    case True
    then show ?thesis by (simp add: hit_at_def)
  next
    case False
    show ?thesis
    proof (cases h)
      case Nil
      have "cast 0 \<noteq> cast (char_val c)" using Cons.prems assms(3) [of 0] assms(3) [of "char_val c"] by auto
      then show ?thesis using False Nil Cons.prems by (simp add: hit_at_def char_val_def)
    next
      case (Cons d h')
      then show ?thesis using False Cons.IH [of h' "lim_dec nlim"] \<open>0 \<notin> set (c # n)\<close> \<open>0 \<notin> set h\<close> by (auto simp: hit_at_def)
    qed
  qed
qed

lemma hit_at_Cons [simp]: "hit_at C (c # h) n (Suc i) = hit_at C h n i"
  by (simp add: hit_at_def)

lemma hit_at_0: "hit_at C (c # h) (d # n) 0 \<longleftrightarrow> C c = C d \<and> hit_at C h n 0"
  by (auto simp: hit_at_def)

text \<open>The first or the last of some positions, and the result of a search that started at \<open>iter\<close>.\<close>

definition pick_hit :: "bool \<Rightarrow> (nat \<Rightarrow> bool) \<Rightarrow> nat \<Rightarrow> nat option" where
  "pick_hit lastp P n = find P (if lastp then rev [0..<n] else [0..<n])"

definition found :: "nat \<Rightarrow> nat option \<Rightarrow> nat option \<Rightarrow> nat option" where
  "found iter result r = (case r of None \<Rightarrow> result | Some i \<Rightarrow> Some (iter + i))"

lemma pick_hit_0 [simp]: "pick_hit lastp P 0 = None"
  by (simp add: pick_hit_def)

lemma upt_0_Suc: "[0..<Suc n] = 0 # map Suc [0..<n]"
  by (simp add: map_Suc_upt upt_conv_Cons del: upt_Suc)

lemma found_pick_Suc:
  "found iter result (pick_hit lastp P (Suc n)) =
    (if P 0 \<and> \<not> lastp then Some iter
     else found (Suc iter) (if P 0 then Some iter else result) (pick_hit lastp (\<lambda>i. P (Suc i)) n))"
  unfolding pick_hit_def upt_0_Suc rev.simps rev_map
  by (auto simp: found_def find_map find_append split: option.split)

lemma str_search_found:
  assumes "0 \<notin> set n" and "0 \<notin> set h" and "\<And>x. cast x = 0 \<longleftrightarrow> x = 0"
  defines "C \<equiv> \<lambda>c. cast (char_val c)"
  shows "str_search cast lastp nlim (C d) (n @ 0 # np) hlim iter result (h @ 0 # hp)
    = Done (found iter result (pick_hit lastp (hit_at C h (d # lim_take nlim n)) (length (lim_take hlim h))))"
  using assms(2)
proof (induction h arbitrary: hlim iter result)
  case Nil
  then show ?case by (simp add: found_def)
next
  case (Cons c h)
  show ?case
  proof (cases "hlim = Some 0")
    case True
    then show ?thesis by (simp add: found_def)
  next
    case False
    have "(if C c = C d then match_rest cast nlim (n @ 0 # np) (h @ 0 # hp) else Done False)
        = Done (hit_at C (c # h) (d # lim_take nlim n) 0)"
      using match_rest_prefix [OF assms(1) _ assms(3), of h nlim np hp] Cons.prems by (simp add: hit_at_0 C_def)
    then show ?thesis
      using False Cons by (simp add: found_pick_Suc C_def)
  qed
qed

lemma str_find_found:
  assumes "0 \<notin> set n" and "0 \<notin> set h" and "\<And>x. cast x = 0 \<longleftrightarrow> x = 0"
  defines "C \<equiv> \<lambda>c. cast (char_val c)"
  shows "str_find cast lastp (h @ 0 # hp) hlim (n @ 0 # np) nlim =
    Done (if lim_take nlim n = [] then None
          else pick_hit lastp (hit_at C h (lim_take nlim n)) (length (lim_take hlim h)))"
proof (cases "nlim = Some 0")
  case True
  then show ?thesis by (simp add: str_find_def)
next
  case nlim: False
  show ?thesis
  proof (cases n)
    case Nil
    have "str_search cast lastp nlim' 0 np hlim iter None (h @ 0 # hp) = Done None" for nlim' hlim iter
      using assms(2)
    proof (induction h arbitrary: hlim iter)
      case (Cons c h)
      then have "cast (char_val c) \<noteq> 0" using assms(3) by auto
      then show ?case using Cons by simp
    qed simp
    moreover have "cast 0 = 0" using assms(3) by simp
    ultimately show ?thesis using nlim Nil by (simp add: str_find_def char_val_def)
  next
    case (Cons d n')
    then show ?thesis
      using str_search_found [of n' h cast lastp "lim_dec nlim" d np hlim 0 None hp] assms nlim
      by (simp add: str_find_def found_def C_def split: option.split)
  qed
qed

text \<open>
  C12. The eight searches for a string give exactly the first or the last position of the text at which the pattern
  occurs, with or without regard to case, and \<open>NULL\<close> if there is none. An empty pattern is never found. The
  bounded searches look only at positions below the bound of the text, but a hit may reach beyond that bound.
\<close>

theorem string_searches:
  fixes h n hp np :: "u8 list"
  assumes "0 \<notin> set h" and "0 \<notin> set n" and "n \<noteq> []"
  defines "H \<equiv> h @ 0 # hp" and "N \<equiv> n @ 0 # np" and "L \<equiv> \<lambda>c. tolower (char_val c)"
  shows "strstr H N = Done (find (hit_at char_val h n) [0..<length h])
    \<and> strrstr H N = Done (find (hit_at char_val h n) (rev [0..<length h]))
    \<and> stristr H N = Done (find (hit_at L h n) [0..<length h])
    \<and> strirstr H N = Done (find (hit_at L h n) (rev [0..<length h]))
    \<and> strnstr H k N (Suc l) = Done (find (hit_at char_val h (take (Suc l) n)) [0..<min k (length h)])
    \<and> strnrstr H k N (Suc l) = Done (find (hit_at char_val h (take (Suc l) n)) (rev [0..<min k (length h)]))
    \<and> strinstr H k N (Suc l) = Done (find (hit_at L h (take (Suc l) n)) [0..<min k (length h)])
    \<and> strinrstr H k N (Suc l) = Done (find (hit_at L h (take (Suc l) n)) (rev [0..<min k (length h)]))
    \<and> strstr H (0 # np) = Done None"
proof -
  have "Suc l \<noteq> 0 \<and> n \<noteq> [] \<longrightarrow> take (Suc l) n \<noteq> []" by simp
  then show ?thesis
    using str_find_found [OF assms(2,1), of "\<lambda>c. c"] str_find_found [OF assms(2,1), of tolower]
      str_find_found [of "[]" h "\<lambda>c. c"] assms(1,3)
    by (simp add: strstr_def strrstr_def stristr_def strirstr_def strnstr_def strnrstr_def strinstr_def strinrstr_def
      H_def N_def L_def pick_hit_def lim_take_def min.commute)
qed

theorem string_searches_witness:
  "strstr [97, 98, 65, 98, 0] [65, 98, 0] = Done (Some 2) \<and> stristr [97, 98, 65, 98, 0] [65, 98, 0] = Done (Some 0)"
  using string_searches [of "[97, 98, 65, 98]" "[65, 98]" "[]" "[]"]
  by (simp add: hit_at_def upt_rec tolower_def char_val_def)

section \<open>Comparisons\<close>

lemma strcmp_loop_order:
  assumes "0 \<notin> set a" and "0 \<notin> set b" and "\<And>x. cast x = 0 \<longleftrightarrow> x = 0"
  defines "C \<equiv> \<lambda>c. cast (char_val c)"
  shows "\<exists>r. strcmp_loop cast (a @ 0 # ap) (b @ 0 # bp) = Done r \<and> (r = 0 \<longleftrightarrow> map C a = map C b)
    \<and> (r < 0 \<longleftrightarrow> ord_class.lexordp (map C (a @ [0])) (map C (b @ [0])))"
  using assms(1,2)
proof (induction a arbitrary: b)
  case Nil
  have z: "cast 0 = 0" using assms(3) by simp
  show ?case
  proof (cases b)
    case (Cons d b')
    then have "C d \<noteq> 0" using Nil assms(3) by (auto simp: C_def)
    then show ?thesis using Cons z by (auto simp: C_def Let_def char_val_def)
  qed (simp add: z C_def Let_def char_val_def)
next
  case (Cons c a)
  have z: "cast 0 = 0" "C c \<noteq> 0" using assms(3) Cons.prems by (auto simp: C_def)
  show ?case
  proof (cases b)
    case Nil
    then show ?thesis using z by (auto simp: C_def Let_def char_val_def)
  next
    case (Cons d b')
    then have "C d \<noteq> 0" using \<open>0 \<notin> set b\<close> assms(3) by (auto simp: C_def)
    then show ?thesis using Cons.IH [of b'] Cons z \<open>0 \<notin> set b\<close> \<open>0 \<notin> set (c # a)\<close> by (auto simp: C_def Let_def)
  qed
qed

lemma strncmp_loop_within:
  assumes "0 \<notin> set a" and "0 \<notin> set b" and "\<And>x. cast x = 0 \<longleftrightarrow> x = 0" and "n \<le> length a" and "n \<le> length b"
  defines "C \<equiv> \<lambda>c. cast (char_val c)"
  shows "\<exists>r. strncmp_loop cast v v (a @ ap) (b @ bp) n = Done r \<and> (r = 0 \<longleftrightarrow> map C (take n a) = map C (take n b))"
  using assms(1,2,4,5)
proof (induction n arbitrary: a b v)
  case 0
  then show ?case by simp
next
  case (Suc n)
  then obtain c a' d b' where s: "a = c # a'" "b = d # b'" by (cases a; cases b) auto
  then have "C c \<noteq> 0" "C d \<noteq> 0" using Suc.prems assms(3) by (auto simp: C_def)
  then show ?case using Suc.IH [of a' b' "C c"] Suc.prems s by (auto simp: C_def)
qed

lemma strncmp_loop_stale:
  assumes "0 \<notin> set a" and "\<And>x. cast x = 0 \<longleftrightarrow> x = 0" and "length a < n"
  shows "strncmp_loop cast v v (a @ 0 # ap) (a @ 0 # bp) n = Done (- last (v # map (\<lambda>c. cast (char_val c)) a))"
  using assms(1,3)
proof (induction a arbitrary: n v)
  case Nil
  have "cast 0 = 0" using assms(2) by simp
  then show ?case using Nil by (cases n) (simp_all add: char_val_def)
next
  case (Cons c a)
  have "cast (char_val c) \<noteq> 0" using assms(2) Cons.prems by auto
  then show ?case using Cons by (cases n) auto
qed



end
