(* ===== verification/LibcStrEdit.thy ===== *)
theory LibcStrEdit
  imports LibcString
begin

text \<open>
  The string routines of \<^verbatim>\<open>libs/libc/string.c\<close> that write: copies, changes of case, tokens, and the parts of a
  path. The target of a copy and its source are different memories, as \<open>restrict\<close> asks; both are lists of bytes.
\<close>

section \<open>Copies\<close>

definition put_nul :: "u8 list \<Rightarrow> (nat \<times> u8 list) outcome" where
  "put_nul dst = (case dst of [] \<Rightarrow> Fault | _ # d \<Rightarrow> Done (0, 0 # d))"

text \<open>The result is the position of the terminator that was written, and the new target.\<close>

fun cpy_loop :: "nat option \<Rightarrow> u8 list \<Rightarrow> u8 list \<Rightarrow> (nat \<times> u8 list) outcome" where
  "cpy_loop lim [] dst = (if lim = Some 0 then put_nul dst else Fault)"
| "cpy_loop lim (ch # src) dst =
    (if lim = Some 0 \<or> ch = 0 then put_nul dst
     else case dst of [] \<Rightarrow> Fault
       | _ # d \<Rightarrow> andthen (cpy_loop (lim_dec lim) src d) (\<lambda>(n, d). Done (Suc n, ch # d)))"

definition strcpy :: "u8 list \<Rightarrow> u8 list \<Rightarrow> (nat \<times> u8 list) outcome" where
  "strcpy dst src = cpy_loop None src dst"

definition strncpy :: "u8 list \<Rightarrow> u8 list \<Rightarrow> nat \<Rightarrow> (nat \<times> u8 list) outcome" where
  "strncpy dst src maxchars = cpy_loop (Some maxchars) src dst"

definition strcat :: "u8 list \<Rightarrow> u8 list \<Rightarrow> (nat \<times> u8 list) outcome" where
  "strcat dst src = andthen (strend dst) (\<lambda>e.
    andthen (strcpy (drop e dst) src) (\<lambda>(n, d). Done (e + n, take e dst @ d)))"

definition strncat :: "u8 list \<Rightarrow> u8 list \<Rightarrow> nat \<Rightarrow> (nat \<times> u8 list) outcome" where
  "strncat dst src maxchars = andthen (strend dst) (\<lambda>e.
    andthen (strncpy (drop e dst) src maxchars) (\<lambda>(n, d). Done (e + n, take e dst @ d)))"

section \<open>Changes in place\<close>

text \<open>The loops of \<open>strset\<close> and \<open>strnset\<close> do not advance; \<open>None\<close> means that the call does not return.\<close>

partial_function (option) strset :: "u8 list \<Rightarrow> int \<Rightarrow> u8 list outcome option" where
  "strset dst chr =
    (case dst of [] \<Rightarrow> Some Fault
     | c # d \<Rightarrow> if c = 0 then Some (Done dst) else strset (to_char chr # d) chr)"

partial_function (option) strnset :: "u8 list \<Rightarrow> int \<Rightarrow> nat \<Rightarrow> u8 list outcome option" where
  "strnset dst chr maxlen =
    (if maxlen = 0 then Some (Done dst)
     else case dst of [] \<Rightarrow> Some Fault
       | c # d \<Rightarrow> if c = 0 then Some (Done dst) else strnset (to_char chr # d) chr maxlen)"

fun recase :: "(int \<Rightarrow> int) \<Rightarrow> nat option \<Rightarrow> u8 list \<Rightarrow> u8 list outcome" where
  "recase cast lim [] = (if lim = Some 0 then Done [] else Fault)"
| "recase cast lim (c # s) =
    (if lim = Some 0 \<or> c = 0 then Done (c # s)
     else andthen (recase cast (lim_dec lim) s) (\<lambda>s. Done (to_char (cast (char_val c)) # s)))"

definition strlwr :: "u8 list \<Rightarrow> u8 list outcome" where
  "strlwr str = recase tolower None str"

definition strupr :: "u8 list \<Rightarrow> u8 list outcome" where
  "strupr str = recase toupper None str"

definition strnlwr :: "u8 list \<Rightarrow> nat \<Rightarrow> u8 list outcome" where
  "strnlwr str maxlen = recase tolower (Some maxlen) str"

definition strnupr :: "u8 list \<Rightarrow> nat \<Rightarrow> u8 list outcome" where
  "strnupr str maxlen = recase toupper (Some maxlen) str"

section \<open>Tokens\<close>

text \<open>
  The four instances differ in the test for a delimiter. \<open>str\<close> and \<open>*saveptr\<close> are offsets into one memory; the
  result is the token, the memory with the delimiter behind the token overwritten, and the new \<open>*saveptr\<close>.
\<close>

definition tok_r :: "(u8 \<Rightarrow> bool outcome) \<Rightarrow> u8 list \<Rightarrow> nat option \<Rightarrow> nat option
    \<Rightarrow> (nat option \<times> u8 list \<times> nat option) outcome" where
  "tok_r is_delim m str saveptr =
    (case (case str of Some p \<Rightarrow> Some p | None \<Rightarrow> saveptr) of
       None \<Rightarrow> Done (None, m, saveptr)
     | Some p \<Rightarrow>
         andthen (scan (\<lambda>ch. if ch = 0 then Done False else is_delim ch) None (drop p m)) (\<lambda>skip.
           let result = p + skip in
           if m ! result = 0 then Done (None, m, None)
           else andthen (scan (\<lambda>ch. if ch = 0 then Done False else andthen (is_delim ch) (\<lambda>b. Done (\<not> b))) None
                          (drop (Suc result) m)) (\<lambda>rest.
             let e = Suc result + rest in
             if m ! e = 0 then Done (Some result, m, None) else Done (Some result, m[e := 0], Some (Suc e)))))"

definition strtok_r :: "u8 list \<Rightarrow> u8 list \<Rightarrow> nat option \<Rightarrow> nat option \<Rightarrow> (nat option \<times> u8 list \<times> nat option) outcome" where
  "strtok_r delim = tok_r (\<lambda>ch. andthen (strchr delim (char_val ch)) (\<lambda>r. Done (r \<noteq> None)))"

definition strntok_r :: "u8 list \<Rightarrow> nat \<Rightarrow> u8 list \<Rightarrow> nat option \<Rightarrow> nat option
    \<Rightarrow> (nat option \<times> u8 list \<times> nat option) outcome" where
  "strntok_r delim delim_max = tok_r (\<lambda>ch. andthen (strnchr delim delim_max (char_val ch)) (\<lambda>r. Done (r \<noteq> None)))"

text \<open>A search for a delimiter that does not return (see \<open>strichr\<close>) is \<open>Blocked\<close>.\<close>

definition stritok_r :: "u8 list \<Rightarrow> u8 list \<Rightarrow> nat option \<Rightarrow> nat option \<Rightarrow> (nat option \<times> u8 list \<times> nat option) outcome" where
  "stritok_r delim = tok_r (\<lambda>ch. case strichr delim (char_val ch) of None \<Rightarrow> Blocked
     | Some r \<Rightarrow> andthen r (\<lambda>r. Done (r \<noteq> None)))"

definition strintok_r :: "u8 list \<Rightarrow> nat \<Rightarrow> u8 list \<Rightarrow> nat option \<Rightarrow> nat option
    \<Rightarrow> (nat option \<times> u8 list \<times> nat option) outcome" where
  "strintok_r delim delim_max = tok_r (\<lambda>ch. andthen (strinchr delim delim_max (char_val ch)) (\<lambda>r. Done (r \<noteq> None)))"

text \<open>\<open>strtok\<close> keeps \<open>saveptr\<close> in a static variable, which is part of the state here.\<close>

definition strtok :: "u8 list \<Rightarrow> u8 list \<Rightarrow> nat option \<Rightarrow> nat option \<Rightarrow> (nat option \<times> u8 list \<times> nat option) outcome" where
  "strtok delim m str saveptr = strtok_r delim m str saveptr"

section \<open>Parts of a path\<close>

text \<open>The result is a constant string or a position of the path, together with the changed path.\<close>

datatype part = Cwd | At nat

text \<open>\<open>while (iter != path && go(iter[-1])) --iter;\<close>\<close>

fun step_back :: "(u8 \<Rightarrow> bool) \<Rightarrow> u8 list \<Rightarrow> nat \<Rightarrow> nat" where
  "step_back go path 0 = 0"
| "step_back go path (Suc i) = (if go (path ! i) then step_back go path i else Suc i)"

definition basename :: "u8 list option \<Rightarrow> (part \<times> u8 list) outcome" where
  "basename p =
    (case p of None \<Rightarrow> Done (Cwd, [])
     | Some path \<Rightarrow>
         andthen (vec_read path 0) (\<lambda>c0.
           if c0 = 0 then Done (Cwd, path)
           else andthen (strrchr path 47) (\<lambda>slash.
             case slash of None \<Rightarrow> Done (At 0, path)
             | Some s \<Rightarrow>
                 if path ! Suc s \<noteq> 0 then Done (At (Suc s), path)
                 else let iter = step_back (\<lambda>c. c = 47) path (Suc s) in
                   if iter = 0 then Done (At s, path)
                   else Done (At (step_back (\<lambda>c. c \<noteq> 47) (path[iter := 0]) iter), path[iter := 0]))))"

text \<open>
  The first loop of \<open>dirname\<close> stops at the last character that is not a slash; \<open>None\<close> if there is none. The
  second loop may leave the path at its beginning, which is again \<open>None\<close>.
\<close>

fun skip_back :: "(u8 \<Rightarrow> bool) \<Rightarrow> u8 list \<Rightarrow> nat \<Rightarrow> nat option" where
  "skip_back go path 0 = (if go (path ! 0) then None else Some 0)"
| "skip_back go path (Suc i) = (if go (path ! Suc i) then skip_back go path i else Some (Suc i))"

definition dirname :: "u8 list option \<Rightarrow> (part \<times> u8 list) outcome" where
  "dirname p =
    (case p of None \<Rightarrow> Done (Cwd, [])
     | Some path \<Rightarrow>
         andthen (vec_read path 0) (\<lambda>c0.
           if c0 = 0 then Done (Cwd, path)
           else andthen (strend path) (\<lambda>e.
             case skip_back (\<lambda>c. c = 47) path (e - 1) of
               None \<Rightarrow> Done (At 0, path[1 := 0])
             | Some i \<Rightarrow>
                 (case skip_back (\<lambda>c. c \<noteq> 47) path i of
                    None \<Rightarrow> Done (Cwd, path)
                  | Some j \<Rightarrow> let iter = (if j = 0 then 1 else j) in Done (At 0, path[iter := 0])))))"

section \<open>Copies are exact\<close>

lemma cpy_loop_exact:
  assumes "0 \<notin> set s"
  shows "cpy_loop lim (s @ 0 # sp) dst =
    (let t = lim_take lim s in if length t < length dst then Done (length t, t @ 0 # drop (Suc (length t)) dst) else Fault)"
  using assms
proof (induction s arbitrary: lim dst)
  case Nil
  then show ?case by (cases dst) (auto simp: put_nul_def)
next
  case (Cons c s)
  then show ?case
    by (cases "lim = Some 0"; cases dst) (auto simp: put_nul_def Let_def)
qed

lemma strcpy_exact:
  "0 \<notin> set s \<Longrightarrow> length s < length dst \<Longrightarrow> strcpy dst (s @ 0 # sp) = Done (length s, s @ 0 # drop (Suc (length s)) dst)"
  by (simp add: strcpy_def cpy_loop_exact)

text \<open>\<open>strncpy\<close> writes the terminator behind the bound, so a target of \<open>maxchars\<close> bytes is too small.\<close>

lemma strncpy_overruns:
  "0 \<notin> set s \<Longrightarrow> length dst \<le> n \<Longrightarrow> n \<le> length s \<Longrightarrow> strncpy dst (s @ 0 # sp) n = Fault"
  by (simp add: strncpy_def cpy_loop_exact lim_take_def)

lemma scan_strend: "0 \<notin> set s \<Longrightarrow> strend (s @ 0 # t) = Done (length s)"
  unfolding strend_def by (induction s) auto

lemma strcat_appends:
  assumes "0 \<notin> set d" and "0 \<notin> set s" and "length s \<le> length room"
  shows "strcat (d @ 0 # room) (s @ 0 # sp) = Done (length (d @ s), d @ s @ 0 # drop (length s) room)"
  using assms by (simp add: strcat_def scan_strend strcpy_exact)

lemma recase_exact:
  "0 \<notin> set s \<Longrightarrow> recase cast None (s @ 0 # t) = Done (map (\<lambda>c. to_char (cast (char_val c))) s @ 0 # t)"
  by (induction s) auto

text \<open>A path with a directory and a last component that does not end in a slash.\<close>

lemma chr_last_at:
  assumes "0 \<notin> set a" and "0 \<notin> set b" and "47 \<notin> set b"
  shows "chr_last (\<lambda>c. c) None 47 i r (a @ 47 # b @ 0 # t) = Done (Some (i + length a))"
proof -
  have "char_val 47 = 47" by (simp add: char_val_def)
  then have "char_val c = 47 \<longleftrightarrow> c = 47" for c by (metis char_val_inj)
  then have tail: "chr_last (\<lambda>c. c) None 47 i r (b @ 0 # t) = Done r" for i r
    using assms(2,3) by (induction b arbitrary: i) auto
  show ?thesis
    using assms(1) tail \<open>char_val 47 = 47\<close> by (induction a arbitrary: i r) simp_all
qed

lemma basename_last:
  assumes "0 \<notin> set dir" and "0 \<notin> set base" and "47 \<notin> set base" and "base \<noteq> []"
  shows "basename (Some (dir @ 47 # base @ 0 # t)) = Done (At (Suc (length dir)), dir @ 47 # base @ 0 # t)"
proof -
  let ?p = "dir @ 47 # base @ 0 # t"
  have "?p ! 0 \<noteq> 0" using assms(1) by (cases dir) auto
  moreover have "?p ! Suc (length dir) = hd base" using assms(4) by (simp add: nth_append hd_conv_nth)
  moreover have "hd base \<noteq> 0" using assms(2,4) by (metis hd_in_set)
  ultimately show ?thesis using chr_last_at [OF assms(1-3), of 0 None t] by (simp add: basename_def strrchr_def)
qed

lemma skip_back_over:
  assumes "\<And>k. i < k \<Longrightarrow> k \<le> i + n \<Longrightarrow> go (path ! k)" and "\<not> go (path ! i)"
  shows "skip_back go path (i + n) = Some i"
  using assms
proof (induction n)
  case 0
  then show ?case by (cases i) auto
qed auto

lemma dirname_cuts:
  assumes "0 \<notin> set dir" and "dir \<noteq> []" and "0 \<notin> set base" and "47 \<notin> set base" and "base \<noteq> []"
  shows "dirname (Some (dir @ 47 # base @ 0 # t)) = Done (At 0, dir @ 0 # base @ 0 # t)"
proof -
  let ?p = "dir @ 47 # base @ 0 # t" and ?l = "length dir + length base"
  have "?p ! 0 \<noteq> 0" using assms(1,2) by (cases dir) auto
  moreover have "strend ?p = Done (Suc ?l)" using scan_strend [of "dir @ 47 # base" t] assms by simp
  moreover have base: "?p ! (length dir + Suc k) = base ! k" if "k < length base" for k
    using that by (simp add: nth_append)
  have nslash: "?p ! k \<noteq> 47" if "length dir < k" "k \<le> ?l" for k
    using base [of "k - length dir - 1"] that assms(4) by (auto simp: in_set_conv_nth)
  have "?p ! ?l \<noteq> 47" using assms(5) by (intro nslash) auto
  then have "skip_back (\<lambda>c. c = 47) ?p (?l + 0) = Some ?l" by (intro skip_back_over) auto
  then have "skip_back (\<lambda>c. c = 47) ?p ?l = Some ?l" by simp
  moreover have "skip_back (\<lambda>c. c \<noteq> 47) ?p ?l = Some (length dir)"
    using nslash by (intro skip_back_over) auto
  moreover have "?p[length dir := 0] = dir @ 0 # base @ 0 # t" by simp
  ultimately show ?thesis using assms(2) by (simp add: dirname_def Let_def)
qed

section \<open>Loops that do not end\<close>

text \<open>The only arguments for which the loops return.\<close>

lemma strichr_loop_returns:
  "strichr_loop h needle = Some y \<Longrightarrow> h = [] \<or> hd h = 0 \<or> tolower (char_val (hd h)) = needle"
  by (erule strichr_loop.raw_induct [rotated]) (fastforce split: list.splits if_splits)

lemma strirchr_loop_returns: "strirchr_loop h needle result = Some y \<Longrightarrow> h = [] \<or> hd h = 0"
  by (erule strirchr_loop.raw_induct [rotated]) (fastforce split: list.splits if_splits)

lemma memichr_loop_returns:
  "memichr_loop p needle n = Some y \<Longrightarrow> n = 0 \<or> p = [] \<or> tolower (char_val (hd p)) = needle"
  by (erule memichr_loop.raw_induct [rotated]) (fastforce split: list.splits if_splits)

lemma memirchr_loop_returns: "memirchr_loop p needle n result = Some y \<Longrightarrow> n = 0 \<or> p = []"
  by (erule memirchr_loop.raw_induct [rotated]) (fastforce split: list.splits if_splits)

lemma strset_returns: "strset dst chr = Some y \<Longrightarrow> dst = [] \<or> hd dst = 0 \<or> to_char chr = 0"
  by (erule strset.raw_induct [rotated]) (fastforce split: list.splits if_splits)

lemma strnset_returns: "strnset dst chr n = Some y \<Longrightarrow> n = 0 \<or> dst = [] \<or> hd dst = 0 \<or> to_char chr = 0"
  by (erule strnset.raw_induct [rotated]) (fastforce split: list.splits if_splits)

lemma None_if_not_Some: "(\<And>y. x = Some y \<Longrightarrow> False) \<Longrightarrow> x = None"
  by (cases x) auto

text \<open>
  Six routines never return for almost every argument, because their loops do not advance: the searches for a
  character that ignore case return only if the first character decides, or (from the end) only for an empty
  string, and setting all characters of a non-empty string returns only if the new character is the terminator.
\<close>

theorem case_searches_hang:
  assumes "c \<noteq> 0" and "tolower (char_val c) \<noteq> tolower needle" and "to_char chr \<noteq> 0"
  shows "strichr (c # s) needle = None \<and> memichr (c # s) needle (Suc n) = None
    \<and> strirchr (c # s) needle = None \<and> memirchr (c # s) needle (Suc n) = None
    \<and> strset (c # s) chr = None \<and> strnset (c # s) chr (Suc n) = None"
  unfolding strichr_def memichr_def strirchr_def memirchr_def using assms
  by (intro conjI None_if_not_Some)
    (auto dest: strichr_loop_returns memichr_loop_returns strirchr_loop_returns memirchr_loop_returns
      strset_returns strnset_returns)

theorem case_searches_hang_witness: "strichr [97, 98, 0] 98 = None \<and> strset [97, 0] 32 = None"
  using case_searches_hang [of 97 98 32] by (simp add: tolower_def char_val_def to_char_def)

section \<open>Tokens\<close>

text \<open>Reference: the maximal non-empty runs of characters that are not delimiters.\<close>

function fields :: "('a \<Rightarrow> bool) \<Rightarrow> 'a list \<Rightarrow> 'a list list" where
  "fields D s = (let r = dropWhile D s in
    if r = [] then [] else takeWhile (\<lambda>c. \<not> D c) r # fields D (dropWhile (\<lambda>c. \<not> D c) r))"
  by auto
termination
proof (relation "measure (\<lambda>(D, s). length s)", simp)
  fix D :: "'a \<Rightarrow> bool" and s r
  assume r: "r = dropWhile D s" "r \<noteq> []"
  then have "\<not> D (hd r)" by (simp add: hd_dropWhile)
  then have "length (dropWhile (\<lambda>c. \<not> D c) r) < length r"
    using r(2) length_dropWhile_le [of "\<lambda>c. \<not> D c" "tl r"] by (cases r) auto
  also have "length r \<le> length s" by (simp add: r(1) length_dropWhile_le)
  finally show "((D, dropWhile (\<lambda>c. \<not> D c) r), (D, s)) \<in> measure (\<lambda>(D, s). length s)" by simp
qed

declare fields.simps [simp del]

text \<open>The string at a position, and the calls of a program that takes all tokens (with \<open>NULL\<close> from the second one on).\<close>

definition cstr_from :: "u8 list \<Rightarrow> nat \<Rightarrow> u8 list" where
  "cstr_from m p = takeWhile (\<lambda>c. c \<noteq> 0) (drop p m)"

fun strtok_all :: "nat \<Rightarrow> u8 list \<Rightarrow> u8 list \<Rightarrow> nat option \<Rightarrow> nat option \<Rightarrow> (nat list \<times> u8 list) outcome" where
  "strtok_all 0 delim m str saveptr = Blocked"
| "strtok_all (Suc fuel) delim m str saveptr =
    andthen (strtok delim m str saveptr) (\<lambda>(result, m, saveptr).
      case result of None \<Rightarrow> Done ([], m)
      | Some p \<Rightarrow> andthen (strtok_all fuel delim m None saveptr) (\<lambda>(ps, m). Done (p # ps, m)))"

lemma scan_takeWhile:
  assumes "\<And>c. c \<in> set s \<Longrightarrow> go c = Done (P c)" and "go 0 = Done False" and "lim = None"
  shows "scan go lim (s @ 0 # t) = Done (length (takeWhile P s))"
  using assms by (induction s arbitrary: lim) auto

lemma strchr_set:
  assumes "0 \<notin> set d" and "c \<noteq> 0"
  shows "\<exists>r. strchr (d @ 0 # dp) (char_val c) = Done r \<and> (r \<noteq> None \<longleftrightarrow> c \<in> set d)"
  using assms(1) unfolding strchr_def by (induction d) (auto simp: andthen_Done_iff)

lemma delim_test:
  assumes "0 \<notin> set d" and "c \<noteq> 0"
  shows "andthen (strchr (d @ 0 # dp) (char_val c)) (\<lambda>r. Done (r \<noteq> None)) = Done (c \<in> set d)"
  using strchr_set [OF assms, of dp] by auto

lemma tok_r_step:
  fixes pre s post :: "u8 list"
  assumes "0 \<notin> set s" and isd: "\<forall>c. c \<noteq> 0 \<longrightarrow> isd c = Done (D c)"
  defines "m \<equiv> pre @ s @ 0 # post" and "r \<equiv> dropWhile D s" and "k \<equiv> length (takeWhile D s)"
  defines "tok \<equiv> takeWhile (\<lambda>c. \<not> D c) r" and "rest \<equiv> dropWhile (\<lambda>c. \<not> D c) r"
  shows "tok_r isd m (Some (length pre)) sp =
    Done (if r = [] then (None, m, None)
          else if rest = [] then (Some (length pre + k), m, None)
          else (Some (length pre + k), (pre @ takeWhile D s @ tok @ [0]) @ tl rest @ 0 # post,
                Some (length (pre @ takeWhile D s @ tok @ [0]))))"
proof -
  have s: "s = takeWhile D s @ r" and r: "r = tok @ rest" by (simp_all add: r_def tok_def rest_def)
  have skip: "scan (\<lambda>ch. if ch = 0 then Done False else isd ch) None (drop (length pre) m) = Done k"
  proof -
    have "scan (\<lambda>ch. if ch = 0 then Done False else isd ch) None (s @ 0 # post) = Done (length (takeWhile D s))"
      using isd assms(1) by (intro scan_takeWhile) auto
    then show ?thesis by (simp add: m_def k_def)
  qed
  have m': "m = (pre @ takeWhile D s) @ r @ 0 # post" using s unfolding m_def by simp
  then have at: "m ! (length pre + k) = (r @ 0 # post) ! 0"
    by (simp add: k_def nth_append)
  show ?thesis
  proof (cases r)
    case Nil
    then show ?thesis using skip at by (simp add: tok_r_def)
  next
    case (Cons c r')
    have c: "\<not> D c" using hd_dropWhile [of D s] Cons unfolding r_def by simp
    have c0: "c \<noteq> 0" and r0: "0 \<notin> set r'" using assms(1) s Cons by (metis UnCI list.set_intros set_append)+
    have tok: "tok = c # takeWhile (\<lambda>c. \<not> D c) r'" using Cons c by (simp add: tok_def)
    have d: "drop (Suc (length pre + k)) m = r' @ 0 # post" using m' Cons by (simp add: k_def)
    have e: "scan (\<lambda>ch. if ch = 0 then Done False else andthen (isd ch) (\<lambda>b. Done (\<not> b))) None (r' @ 0 # post)
        = Done (length (takeWhile (\<lambda>c. \<not> D c) r'))"
      using r0 isd by (intro scan_takeWhile) auto
    let ?e = "Suc (length pre + k) + length (takeWhile (\<lambda>c. \<not> D c) r')"
    have split: "m = (pre @ takeWhile D s @ tok) @ rest @ 0 # post" using m' r by simp
    have le: "length (pre @ takeWhile D s @ tok) = ?e" by (simp add: tok k_def)
    have me: "m ! ?e = (rest @ 0 # post) ! 0"
      using split le by (metis nth_append_length_plus add.right_neutral)
    show ?thesis
    proof (cases rest)
      case Nil
      then show ?thesis using skip at Cons c0 d e me by (simp add: tok_r_def Let_def)
    next
      case (Cons x rest')
      have "x \<noteq> 0" using assms(1) s r Cons by (metis UnCI list.set_intros(1) set_append)
      moreover have "m[?e := 0] = (pre @ takeWhile D s @ tok @ [0]) @ rest' @ 0 # post"
        using split le Cons by (metis append.assoc append_Cons append_Nil list_update_length)
      moreover have "Suc ?e = length (pre @ takeWhile D s @ tok @ [0])" using le by simp
      ultimately show ?thesis
        using skip at \<open>r = c # r'\<close> c0 d e me Cons by (simp add: tok_r_def Let_def)
    qed
  qed
qed

lemma fields_Nil: "dropWhile D s = [] \<Longrightarrow> fields D s = []"
  by (subst fields.simps) simp

lemma fields_step:
  "dropWhile D s \<noteq> [] \<Longrightarrow> fields D s =
    takeWhile (\<lambda>c. \<not> D c) (dropWhile D s) # fields D (dropWhile (\<lambda>c. \<not> D c) (dropWhile D s))"
  by (subst fields.simps) (simp only: Let_def if_False)

lemma fields_Cons_delim: "D x \<Longrightarrow> fields D (x # s) = fields D s"
  by (subst (1 2) fields.simps) simp

lemma cstr_from_at: "0 \<notin> set t \<Longrightarrow> cstr_from (pre @ t @ 0 # post) (length pre) = t"
  by (simp add: cstr_from_def takeWhile_append)

lemma tl_fields_rest:
  assumes "dropWhile (\<lambda>c. \<not> D c) r = x # xs"
  shows "D x"
  using hd_dropWhile [of "\<lambda>c. \<not> D c" r] assms by simp

lemma tok_r_saved: "tok_r isd m None (Some p) = tok_r isd m (Some p) sp"
  by (simp add: tok_r_def)

lemma strtok_all_saved: "strtok_all fuel delim m None (Some p) = strtok_all fuel delim m (Some p) sp"
  by (cases fuel) (simp_all add: strtok_def strtok_r_def tok_r_saved [of _ _ _ sp])

lemma strtok_NULL: "strtok delim m None None = Done (None, m, None)"
  by (simp add: strtok_def strtok_r_def tok_r_def)

lemma strtok_cases:
  fixes pre s post d dp :: "u8 list"
  assumes "0 \<notin> set d" and "0 \<notin> set s"
  obtains
    (none) "fields (\<lambda>c. c \<in> set d) s = []"
      "strtok (d @ 0 # dp) (pre @ s @ 0 # post) (Some (length pre)) sp = Done (None, pre @ s @ 0 # post, None)"
  | (only) k tok where "s = k @ tok" "fields (\<lambda>c. c \<in> set d) s = [tok]"
      "strtok (d @ 0 # dp) (pre @ s @ 0 # post) (Some (length pre)) sp = Done (Some (length (pre @ k)), pre @ s @ 0 # post, None)"
  | (more) k tok x xs where "s = k @ tok @ x # xs" "fields (\<lambda>c. c \<in> set d) s = tok # fields (\<lambda>c. c \<in> set d) xs"
      "strtok (d @ 0 # dp) (pre @ s @ 0 # post) (Some (length pre)) sp
        = Done (Some (length (pre @ k)), (pre @ k @ tok @ [0]) @ xs @ 0 # post, Some (length (pre @ k @ tok @ [0])))"
proof -
  let ?D = "\<lambda>c. c \<in> set d"
  let ?r = "dropWhile ?D s" and ?k = "takeWhile ?D s"
  let ?tok = "takeWhile (\<lambda>c. \<not> ?D c) ?r" and ?rest = "dropWhile (\<lambda>c. \<not> ?D c) ?r"
  have s: "?k @ ?tok @ ?rest = s" by simp
  have isd: "\<forall>c. c \<noteq> 0 \<longrightarrow> andthen (strchr (d @ 0 # dp) (char_val c)) (\<lambda>r. Done (r \<noteq> None)) = Done (?D c)"
    using delim_test [OF assms(1)] by blast
  note step = tok_r_step [where D = ?D, OF assms(2) isd, of pre post sp, folded strtok_r_def, folded strtok_def]
  consider "?r = []" | "?r \<noteq> []" "?rest = []" | x xs where "?r \<noteq> []" "?rest = x # xs" by (cases ?rest) blast+
  then show thesis
  proof cases
    case 1
    then show thesis by (intro none fields_Nil) (simp_all add: step)
  next
    case 2
    have "fields ?D s = [?tok]" using fields_step [OF 2(1)] 2(2) fields_Nil [of ?D "[]"] by (simp only: dropWhile.simps)
    then show thesis using only [of ?k ?tok] step 2 s by (simp only: if_True if_False append_Nil2 length_append simp_thms)
  next
    case 3
    have "fields ?D ?rest = fields ?D xs" using tl_fields_rest [OF 3(2)] 3(2) by (simp only: fields_Cons_delim)
    then have "fields ?D s = ?tok # fields ?D xs" using fields_step [OF 3(1)] by simp
    then show thesis using more [of ?k ?tok x xs] step 3 s by (simp add: length_append)
  qed
qed

lemma strtok_all_fields:
  fixes pre s post d dp :: "u8 list"
  assumes "0 \<notin> set d" and "0 \<notin> set s" and "length s < fuel"
  shows "\<exists>ps s'. strtok_all fuel (d @ 0 # dp) (pre @ s @ 0 # post) (Some (length pre)) sp = Done (ps, pre @ s' @ 0 # post)
    \<and> length s' = length s \<and> map (cstr_from (pre @ s' @ 0 # post)) ps = fields (\<lambda>c. c \<in> set d) s"
  using assms(2,3)
proof (induction fuel arbitrary: pre s sp)
  case 0
  then show ?case by simp
next
  case (Suc fuel)
  show ?case
  proof (rule strtok_cases [OF assms(1) Suc.prems(1), of dp pre post sp], goal_cases)
    case 1
    then show ?case by simp
  next
    case (2 k tok)
    then have "s \<noteq> []" by (auto simp: fields_Nil)
    then obtain fuel' where f: "fuel = Suc fuel'" using Suc.prems(2) by (cases fuel) auto
    have "0 \<notin> set tok" using Suc.prems(1) 2(1) by simp
    then have "cstr_from (pre @ s @ 0 # post) (length (pre @ k)) = tok"
      using cstr_from_at [of tok "pre @ k" post] 2(1) by simp
    then show ?case using 2 f by (intro exI [of _ "[length (pre @ k)]"] exI [of _ s]) (simp add: strtok_NULL)
  next
    case (3 k tok x xs)
    let ?pre = "pre @ k @ tok @ [0]"
    have "0 \<notin> set xs" and tok: "0 \<notin> set tok" using Suc.prems(1) 3(1) by simp_all
    then obtain ps s' where IH: "strtok_all fuel (d @ 0 # dp) (?pre @ xs @ 0 # post) (Some (length ?pre)) None = Done (ps, ?pre @ s' @ 0 # post)"
      and s': "length s' = length xs" "map (cstr_from (?pre @ s' @ 0 # post)) ps = fields (\<lambda>c. c \<in> set d) xs"
      using Suc.IH [of xs ?pre None] Suc.prems(2) 3(1) by auto
    have "cstr_from (?pre @ s' @ 0 # post) (length (pre @ k)) = tok"
      using cstr_from_at [OF tok, of "pre @ k" "s' @ 0 # post"] by simp
    moreover have "strtok_all (Suc fuel) (d @ 0 # dp) (pre @ s @ 0 # post) (Some (length pre)) sp
        = Done (length (pre @ k) # ps, ?pre @ s' @ 0 # post)"
      using 3(3) IH by (simp add: strtok_all_saved [of _ _ _ _ None])
    ultimately show ?case
      using s' 3(1,2) by (intro exI [of _ "length (pre @ k) # ps"] exI [of _ "k @ tok @ 0 # s'"]) simp
  qed
qed

text \<open>
  C13. A program that calls \<open>strtok\<close> on a string and then repeatedly with \<open>NULL\<close> gets, in order, exactly the maximal
  non-empty runs of characters that are not delimiters, and then \<open>NULL\<close>: the calls end, and the strings
  at the returned positions are these runs when all calls are done.
\<close>

theorem strtok_splits:
  fixes s post d dp :: "u8 list"
  assumes "0 \<notin> set s" and "0 \<notin> set d" and "length s < fuel"
  shows "\<exists>ps m. strtok_all fuel (d @ 0 # dp) (s @ 0 # post) (Some 0) saved = Done (ps, m)
    \<and> map (cstr_from m) ps = fields (\<lambda>c. c \<in> set d) s \<and> length m = length (s @ 0 # post)"
  using strtok_all_fields [OF assms(2,1,3), of dp "[]" post saved] by auto

theorem strtok_splits_witness:
  "\<exists>ps m. strtok_all 7 [32, 44, 0] [44, 97, 98, 32, 44, 99, 0] (Some 0) None = Done (ps, m) \<and> map (cstr_from m) ps = [[97, 98], [99]]"
  using strtok_splits [of "[44, 97, 98, 32, 44, 99]" "[32, 44]" 7 "[]" "[]" None] by (auto simp: fields.simps)

end
