(* ===== verification/LibcWild.thy ===== *)
theory LibcWild
  imports LibcString "HOL-Library.Sublist"
begin

text \<open>
  Wildcard comparison (\<^verbatim>\<open>libs/libc/string-wmatch.c.inl\<close>): the file is included four times by \<^verbatim>\<open>string.c\<close>, with and
  without bounds and regard to case. Here the cast of the characters and the two bounds are arguments. A pointer that
  passes the end of its string never compares equal to that end again, so a bound that is passed is
  no bound any more (\<open>lim_next\<close>).
\<close>

section \<open>Definitions\<close>

definition lim_next :: "nat option \<Rightarrow> nat option" where
  "lim_next lim = (case lim of None \<Rightarrow> None | Some n \<Rightarrow> if n = 0 then None else Some (n - 1))"

text \<open>\<open>while (wildpattern != pattern_end && *wildpattern == '*') ++wildpattern;\<close>\<close>

fun skip_stars :: "nat option \<Rightarrow> u8 list \<Rightarrow> (nat option \<times> u8 list) outcome" where
  "skip_stars lim [] = (if lim = Some 0 then Done (lim, []) else Fault)"
| "skip_stars lim (c # p) =
    (if lim = Some 0 \<or> c \<noteq> 42 then Done (lim, c # p) else skip_stars (lim_next lim) p)"

lemma skip_stars_shorter: "skip_stars lim p = Done (l, q) \<Longrightarrow> length q \<le> length p"
  by (induction lim p rule: skip_stars.induct) (auto split: if_splits)

lemma skip_stars_nonempty: "skip_stars lim p = Done (l, q) \<Longrightarrow> l \<noteq> Some 0 \<Longrightarrow> q \<noteq> []"
  by (induction lim p rule: skip_stars.induct) (auto split: if_splits)

function (sequential) wcmp :: "(int \<Rightarrow> int) \<Rightarrow> nat option \<Rightarrow> u8 list \<Rightarrow> nat option \<Rightarrow> u8 list \<Rightarrow> int outcome"
  and wcmp_star :: "(int \<Rightarrow> int) \<Rightarrow> int \<Rightarrow> nat option \<Rightarrow> u8 list \<Rightarrow> nat option \<Rightarrow> u8 list \<Rightarrow> int outcome" where
  "wcmp cast slim str plim pat =
    (if slim \<noteq> Some 0 \<and> str = [] then Fault
     else if slim = Some 0 \<or> hd str = 0 then
       andthen (skip_stars plim pat) (\<lambda>(l, p). if l = Some 0 then Done 0 else Done (- cast (char_val (hd p))))
     else if plim \<noteq> Some 0 \<and> pat = [] then Fault
     else if plim = Some 0 \<or> hd pat = 0 then Done (char_val (hd str))
     else if hd pat = 42 then
       (case skip_stars (lim_next plim) (tl pat) of
          Done (l, p) \<Rightarrow>
            if l = Some 0 \<or> hd p = 0 then Done 0
            else if hd p = 63 then wcmp cast (lim_next slim) (tl str) (lim_next (lim_next l)) (tl (tl p))
            else wcmp_star cast (cast (char_val (hd p))) slim str (lim_next l) (tl p)
        | Blocked \<Rightarrow> Blocked | Fault \<Rightarrow> Fault)
     else if cast (char_val (hd pat)) = cast (char_val (hd str)) \<or> hd pat = 63
       then wcmp cast (lim_next slim) (tl str) (lim_next plim) (tl pat)
     else Done (cast (char_val (hd str)) - cast (char_val (hd pat))))"
| "wcmp_star cast card_post slim [] plim pat = (if slim = Some 0 then Done (- card_post) else Fault)"
| "wcmp_star cast card_post slim (ch # str) plim pat =
    (if slim = Some 0 then Done (- card_post)
     else if cast (char_val ch) = card_post then
       (case wcmp cast (lim_next slim) str plim pat of
          Done r \<Rightarrow> if r = 0 then Done 0 else wcmp_star cast card_post (lim_next slim) str plim pat
        | Blocked \<Rightarrow> Blocked | Fault \<Rightarrow> Fault)
     else if ch = 0 then Done (- card_post)
     else wcmp_star cast card_post (lim_next slim) str plim pat)"
  by pat_completeness auto
termination
  by (relation "measure (\<lambda>x. case x of Inl (cast, slim, str, plim, pat) \<Rightarrow> length str + length pat
      | Inr (cast, c, slim, str, plim, pat) \<Rightarrow> length str + length pat)")
    (auto dest!: skip_stars_shorter simp: neq_Nil_conv)

declare wcmp.simps [simp del]

definition strwcmp :: "u8 list \<Rightarrow> u8 list \<Rightarrow> int outcome" where
  "strwcmp str wildpattern = wcmp (\<lambda>c. c) None str None wildpattern"

definition striwcmp :: "u8 list \<Rightarrow> u8 list \<Rightarrow> int outcome" where
  "striwcmp str wildpattern = wcmp tolower None str None wildpattern"

definition strnwcmp :: "u8 list \<Rightarrow> nat \<Rightarrow> u8 list \<Rightarrow> nat \<Rightarrow> int outcome" where
  "strnwcmp str maxstr wildpattern maxpattern = wcmp (\<lambda>c. c) (Some maxstr) str (Some maxpattern) wildpattern"

definition strinwcmp :: "u8 list \<Rightarrow> nat \<Rightarrow> u8 list \<Rightarrow> nat \<Rightarrow> int outcome" where
  "strinwcmp str maxstr wildpattern maxpattern = wcmp tolower (Some maxstr) str (Some maxpattern) wildpattern"

section \<open>Reference\<close>

text \<open>A star stands for any text and a question mark for any character.\<close>

fun wild :: "(u8 \<Rightarrow> int) \<Rightarrow> u8 list \<Rightarrow> u8 list \<Rightarrow> bool" where
  "wild C s [] \<longleftrightarrow> s = []"
| "wild C [] (x # p) \<longleftrightarrow> x = 42 \<and> wild C [] p"
| "wild C (c # s) (x # p) \<longleftrightarrow>
    (if x = 42 then wild C (c # s) p \<or> wild C s (x # p) else (x = 63 \<or> C c = C x) \<and> wild C s p)"

lemma split_Cons_ex: "(\<exists>u v. c # s = u @ v \<and> P v) \<longleftrightarrow> P (c # s) \<or> (\<exists>u v. s = u @ v \<and> P v)"
proof
  assume "\<exists>u v. c # s = u @ v \<and> P v"
  then obtain u v where "c # s = u @ v" "P v" by blast
  then show "P (c # s) \<or> (\<exists>u v. s = u @ v \<and> P v)" by (cases u) auto
next
  assume "P (c # s) \<or> (\<exists>u v. s = u @ v \<and> P v)"
  then consider "c # s = [] @ (c # s)" "P (c # s)" | u v where "c # s = (c # u) @ v" "P v" by auto
  then show "\<exists>u v. c # s = u @ v \<and> P v" by cases blast+
qed

lemma split_Cons_mid_ex:
  "(\<exists>u d v. c # s = u @ d # v \<and> C d = x \<and> wild C v p) \<longleftrightarrow>
    C c = x \<and> wild C s p \<or> (\<exists>u d v. s = u @ d # v \<and> C d = x \<and> wild C v p)"
proof -
  have "(\<exists>u d v. t = u @ d # v \<and> C d = x \<and> wild C v p) \<longleftrightarrow>
      (\<exists>u w. t = u @ w \<and> w \<noteq> [] \<and> C (hd w) = x \<and> wild C (tl w) p)" for t
    by (metis list.collapse list.distinct(1) list.sel(1,3))
  then show ?thesis using split_Cons_ex [of c s "\<lambda>w. w \<noteq> [] \<and> C (hd w) = x \<and> wild C (tl w) p"] by simp
qed

lemma wild_star: "wild C s (42 # p) \<longleftrightarrow> (\<exists>u v. s = u @ v \<and> wild C v p)"
proof (induction s)
  case Nil
  then show ?case by simp
next
  case (Cons c s)
  then show ?case unfolding split_Cons_ex by simp
qed

lemma wild_stars: "wild C s (replicate k 42 @ 42 # p) \<longleftrightarrow> wild C s (42 # p)"
proof (induction k arbitrary: s)
  case (Suc k)
  have "wild C s (42 # replicate k 42 @ 42 # p) \<longleftrightarrow> (\<exists>u v. s = u @ v \<and> wild C v (42 # p))"
    by (simp only: wild_star [of C s "replicate k 42 @ 42 # p"] Suc)
  also have "\<dots> \<longleftrightarrow> (\<exists>u v. s = u @ v \<and> wild C v p)"
    unfolding wild_star by (metis append.assoc append_Nil)
  finally show ?case by (simp only: replicate_Suc append_Cons wild_star [of C s p])
qed simp

lemma wild_star_char:
  assumes "x \<noteq> 42" and "x \<noteq> 63"
  shows "wild C s (42 # x # p) \<longleftrightarrow> (\<exists>u c v. s = u @ c # v \<and> C c = C x \<and> wild C v p)"
proof -
  have "wild C v (x # p) \<longleftrightarrow> (\<exists>c w. v = c # w \<and> C c = C x \<and> wild C w p)" for v
    using assms by (cases v) auto
  then show ?thesis unfolding wild_star by blast
qed

lemma wild_star_end: "wild C s [42]"
  unfolding wild_star by simp

section \<open>Correctness\<close>

lemma lim_next_dec [simp]: "lim \<noteq> Some 0 \<Longrightarrow> lim_next lim = lim_dec lim"
  by (auto simp: lim_next_def split: option.split)

lemma skip_stars_run:
  assumes "0 \<notin> set p"
  shows "\<exists>k l q. skip_stars lim (p @ 0 # pp) = Done (l, q @ 0 # pp) \<and> lim_take lim p = replicate k 42 @ lim_take l q
    \<and> 0 \<notin> set q \<and> length q \<le> length p \<and> (l = Some 0 \<or> q = [] \<or> hd q \<noteq> 42)"
  using assms
proof (induction p arbitrary: lim)
  case Nil
  then show ?case by (intro exI [of _ 0] exI [of _ lim] exI [of _ "[]"]) simp
next
  case (Cons c p)
  show ?case
  proof (cases "lim = Some 0 \<or> c \<noteq> 42")
    case True
    then show ?thesis using Cons.prems by (intro exI [of _ 0] exI [of _ lim] exI [of _ "c # p"]) auto
  next
    case False
    then obtain k l q where "skip_stars (lim_dec lim) (p @ 0 # pp) = Done (l, q @ 0 # pp)"
      "lim_take (lim_dec lim) p = replicate k 42 @ lim_take l q" "0 \<notin> set q" "length q \<le> length p"
      "l = Some 0 \<or> q = [] \<or> hd q \<noteq> 42"
      using Cons.IH [of "lim_dec lim"] Cons.prems by auto
    then show ?thesis using False by (intro exI [of _ "Suc k"] exI [of _ l] exI [of _ q]) auto
  qed
qed

text \<open>The search for the character behind a star, for a pattern whose comparison is known to be right.\<close>

lemma wcmp_star_correct:
  fixes C :: "u8 \<Rightarrow> int"
  assumes "cp \<noteq> 0" and "\<And>c. C c = cast (char_val c)" and "C 0 = 0" and "0 \<notin> set s"
    and IH: "\<And>s' slim'. length s' < length s \<Longrightarrow> 0 \<notin> set s'
      \<Longrightarrow> \<exists>r. wcmp cast slim' (s' @ 0 # sp) plim pat = Done r \<and> (r = 0 \<longleftrightarrow> wild C (lim_take slim' s') P)"
  shows "\<exists>r. wcmp_star cast cp slim (s @ 0 # sp) plim pat = Done r
    \<and> (r = 0 \<longleftrightarrow> (\<exists>u c v. lim_take slim s = u @ c # v \<and> C c = cp \<and> wild C v P))"
  using assms(4) IH
proof (induction s arbitrary: slim)
  case Nil
  have "cast (char_val 0) = 0" using assms(2,3) by metis
  then show ?case using assms(1) by simp
next
  case (Cons ch s)
  show ?case
  proof (cases "slim = Some 0")
    case True
    then show ?thesis using assms(1) by simp
  next
    case False
    let ?T = "lim_take (lim_dec slim) s"
    have split: "(\<exists>u c v. ch # ?T = u @ c # v \<and> C c = cp \<and> wild C v P) \<longleftrightarrow>
        C ch = cp \<and> wild C ?T P \<or> (\<exists>u c v. ?T = u @ c # v \<and> C c = cp \<and> wild C v P)"
      by (rule split_Cons_mid_ex)
    obtain r1 where r1: "wcmp_star cast cp (lim_dec slim) (s @ 0 # sp) plim pat = Done r1"
      "r1 = 0 \<longleftrightarrow> (\<exists>u c v. ?T = u @ c # v \<and> C c = cp \<and> wild C v P)"
      using Cons.IH [of "lim_dec slim"] Cons.prems by auto
    obtain r2 where r2: "wcmp cast (lim_dec slim) (s @ 0 # sp) plim pat = Done r2" "r2 = 0 \<longleftrightarrow> wild C ?T P"
      using Cons.prems(2) [of s "lim_dec slim"] Cons.prems(1) by auto
    have "ch \<noteq> 0" using Cons.prems(1) by simp
    then show ?thesis
      using False r1 r2 split assms(2) [of ch] by simp
  qed
qed

lemma sublist_prepend: "sublist a b \<Longrightarrow> sublist a (x @ b)"
  unfolding sublist_def by (metis append.assoc)

lemma no_star_question:
  assumes "\<not> sublist [42, 63] (a @ replicate k 42 @ b)" and "k \<noteq> 0" and "b \<noteq> []"
  shows "hd b \<noteq> (63 :: u8)"
proof
  assume "hd b = 63"
  obtain j where "k = Suc j" using assms(2) by (cases k) auto
  then have "a @ replicate k 42 @ b = (a @ replicate j 42) @ [42, 63] @ tl b"
    using assms(3) \<open>hd b = 63\<close> by (cases b) (simp_all add: replicate_append_same [symmetric])
  then show False using assms(1) by (metis sublist_appendI)
qed

text \<open>The branches of the loop for terminated strings.\<close>

lemma wcmp_at_end:
  assumes "slim = Some 0 \<or> s = []"
  shows "wcmp cast slim (s @ 0 # sp) plim pat =
    andthen (skip_stars plim pat) (\<lambda>(l, p). if l = Some 0 then Done 0 else Done (- cast (char_val (hd p))))"
  using assms by (subst wcmp.simps) auto

lemma wcmp_pattern_end:
  assumes "slim \<noteq> Some 0" and "c \<noteq> 0" and "plim = Some 0 \<or> p = []"
  shows "wcmp cast slim (c # s) plim (p @ 0 # pp) = Done (char_val c)"
  using assms by (subst wcmp.simps) auto

lemma wcmp_at_star:
  assumes "slim \<noteq> Some 0" and "c \<noteq> 0" and "plim \<noteq> Some 0"
    and "skip_stars (lim_dec plim) pat = Done (l, p)" and "l = Some 0 \<or> hd p \<noteq> 63"
  shows "wcmp cast slim (c # s) plim (42 # pat) =
    (if l = Some 0 \<or> hd p = 0 then Done 0
     else wcmp_star cast (cast (char_val (hd p))) slim (c # s) (lim_next l) (tl p))"
  using assms by (subst wcmp.simps) auto

lemma wcmp_at_char:
  assumes "slim \<noteq> Some 0" and "c \<noteq> 0" and "plim \<noteq> Some 0" and "x \<noteq> 0" and "x \<noteq> 42"
  shows "wcmp cast slim (c # s) plim (x # pat) =
    (if cast (char_val x) = cast (char_val c) \<or> x = 63 then wcmp cast (lim_dec slim) s (lim_dec plim) pat
     else Done (cast (char_val c) - cast (char_val x)))"
  using assms by (subst wcmp.simps) auto

lemma wild_Nil_stars: "wild C [] (replicate k 42 @ p) \<longleftrightarrow> wild C [] p"
  by (induction k) auto

lemma wcmp_end_correct:
  fixes C :: "u8 \<Rightarrow> int"
  assumes "\<And>c. C c = cast (char_val c)" and "\<And>c. C c = 0 \<longleftrightarrow> c = 0"
    and "slim = Some 0 \<or> s = []" and "0 \<notin> set p"
  shows "\<exists>r. wcmp cast slim (s @ 0 # sp) plim (p @ 0 # pp) = Done r \<and> (r = 0 \<longleftrightarrow> wild C [] (lim_take plim p))"
proof -
  obtain k l q where sk: "skip_stars plim (p @ 0 # pp) = Done (l, q @ 0 # pp)"
    "lim_take plim p = replicate k 42 @ lim_take l q" "0 \<notin> set q" "l = Some 0 \<or> q = [] \<or> hd q \<noteq> 42"
    using skip_stars_run [OF assms(4), of plim pp] by blast
  have w: "wild C [] (lim_take plim p) \<longleftrightarrow> wild C [] (lim_take l q)"
    by (simp only: sk(2) wild_Nil_stars)
  have run: "wcmp cast slim (s @ 0 # sp) plim (p @ 0 # pp) = (if l = Some 0 then Done 0 else Done (- C (hd (q @ 0 # pp))))"
    unfolding wcmp_at_end [OF assms(3)] sk(1) assms(1) by simp
  show ?thesis
  proof (cases "l = Some 0")
    case True
    then show ?thesis using run w by simp
  next
    case False
    show ?thesis
    proof (cases q)
      case Nil
      then show ?thesis using run w False assms(2) [of 0] by simp
    next
      case (Cons x q')
      then have "x \<noteq> 0" "x \<noteq> 42" using sk(3,4) False by auto
      then show ?thesis using run w False Cons assms(2) [of x] by simp
    qed
  qed
qed

lemma wcmp_star_run:
  fixes C :: "u8 \<Rightarrow> int"
  assumes "\<And>c. C c = cast (char_val c)" and "\<And>c. C c = 0 \<longleftrightarrow> c = 0"
    and "slim \<noteq> Some 0" and "plim \<noteq> Some 0" and "0 \<notin> set (c # s)" and "0 \<notin> set p"
    and "\<not> sublist [42, 63] (42 # lim_take (lim_dec plim) p)"
    and IH: "\<And>s' slim' q l. length s' < Suc (length s) \<Longrightarrow> length q \<le> length p \<Longrightarrow> 0 \<notin> set s' \<Longrightarrow> 0 \<notin> set q
      \<Longrightarrow> \<not> sublist [42, 63] (lim_take l q)
      \<Longrightarrow> \<exists>r. wcmp cast slim' (s' @ 0 # sp) l (q @ 0 # pp) = Done r \<and> (r = 0 \<longleftrightarrow> wild C (lim_take slim' s') (lim_take l q))"
  shows "\<exists>r. wcmp cast slim (c # s @ 0 # sp) plim (42 # p @ 0 # pp) = Done r
    \<and> (r = 0 \<longleftrightarrow> wild C (lim_take slim (c # s)) (42 # lim_take (lim_dec plim) p))"
proof -
  obtain k l q where sk: "skip_stars (lim_dec plim) (p @ 0 # pp) = Done (l, q @ 0 # pp)"
    "lim_take (lim_dec plim) p = replicate k 42 @ lim_take l q" "0 \<notin> set q" "length q \<le> length p"
    "l = Some 0 \<or> q = [] \<or> hd q \<noteq> 42"
    using skip_stars_run [OF assms(6), of "lim_dec plim" pp] by blast
  have stars: "42 # lim_take (lim_dec plim) p = replicate k 42 @ 42 # lim_take l q"
    using sk(2) by (simp add: replicate_app_Cons_same)
  then have w: "wild C x (42 # lim_take (lim_dec plim) p) \<longleftrightarrow> wild C x (42 # lim_take l q)" for x
    by (simp only: wild_stars)
  have c: "c \<noteq> 0" using assms(5) by auto
  show ?thesis
  proof (cases "l = Some 0 \<or> q = []")
    case True
    then have "lim_take l q = []" by auto
    moreover have "wcmp cast slim (c # s @ 0 # sp) plim (42 # p @ 0 # pp) = Done 0"
      using wcmp_at_star [OF assms(3) c assms(4) sk(1), of cast "s @ 0 # sp"] True by auto
    ultimately show ?thesis using w wild_star_end by simp
  next
    case False
    then obtain x q' where q: "q = x # q'" "l \<noteq> Some 0" by (cases q) auto
    then have x: "x \<noteq> 0" "x \<noteq> 42" "0 \<notin> set q'" using sk(3,5) by auto
    have pat: "42 # lim_take (lim_dec plim) p = replicate (Suc k) 42 @ x # lim_take (lim_dec l) q'"
      using stars q by (simp add: replicate_app_Cons_same)
    then have "x \<noteq> 63" using no_star_question [of "[]" "Suc k" "x # lim_take (lim_dec l) q'"] assms(7) by simp
    have sub: "\<not> sublist [42, 63] (lim_take (lim_dec l) q')"
      using assms(7) sublist_prepend [of "[42, 63]" _ "replicate (Suc k) 42 @ [x]"] unfolding pat by fastforce
    have "wcmp cast slim (c # s @ 0 # sp) plim (42 # p @ 0 # pp)
        = wcmp_star cast (C x) slim ((c # s) @ 0 # sp) (lim_dec l) (q' @ 0 # pp)"
      using wcmp_at_star [OF assms(3) c assms(4) sk(1), of cast "s @ 0 # sp"] q x \<open>x \<noteq> 63\<close> assms(1) by auto
    moreover have "\<exists>r. wcmp_star cast (C x) slim ((c # s) @ 0 # sp) (lim_dec l) (q' @ 0 # pp) = Done r
      \<and> (r = 0 \<longleftrightarrow> (\<exists>u d v. lim_take slim (c # s) = u @ d # v \<and> C d = C x \<and> wild C v (lim_take (lim_dec l) q')))"
    proof (rule wcmp_star_correct)
      show "\<exists>r. wcmp cast slim' (s' @ 0 # sp) (lim_dec l) (q' @ 0 # pp) = Done r
          \<and> (r = 0 \<longleftrightarrow> wild C (lim_take slim' s') (lim_take (lim_dec l) q'))"
        if "length s' < length (c # s)" "0 \<notin> set s'" for s' slim'
        using IH [of s' q' "lim_dec l" slim'] that sk(4) q x(3) sub by simp
    qed (use assms(1,2,5) x in auto)
    ultimately show ?thesis
      using w [of "lim_take slim (c # s)"] wild_star_char [OF x(2) \<open>x \<noteq> 63\<close>, of C "lim_take slim (c # s)" "lim_take (lim_dec l) q'"] q
      by simp
  qed
qed

lemma sublist_tl: "\<not> sublist a (x # b) \<Longrightarrow> \<not> sublist a b"
  using sublist_prepend [of a b "[x]"] by auto

lemma wcmp_correct:
  fixes C :: "u8 \<Rightarrow> int"
  assumes "\<And>c. C c = cast (char_val c)" and "\<And>c. C c = 0 \<longleftrightarrow> c = 0"
    and "0 \<notin> set s" and "0 \<notin> set p" and "\<not> sublist [42, 63] (lim_take plim p)"
  shows "\<exists>r. wcmp cast slim (s @ 0 # sp) plim (p @ 0 # pp) = Done r \<and> (r = 0 \<longleftrightarrow> wild C (lim_take slim s) (lim_take plim p))"
  using assms(3-5)
proof (induction "length s + length p" arbitrary: s p slim plim rule: less_induct)
  case less
  show ?case
  proof (cases "slim = Some 0 \<or> s = []")
    case True
    then have "lim_take slim s = []" by auto
    then show ?thesis using wcmp_end_correct [OF assms(1,2) True less.prems(2)] by simp
  next
    case False
    then obtain c s' where s: "s = c # s'" "slim \<noteq> Some 0" "c \<noteq> 0" "0 \<notin> set s'" using less.prems(1) by (cases s) auto
    show ?thesis
    proof (cases "plim = Some 0 \<or> p = []")
      case True
      then have "lim_take plim p = []" by auto
      then show ?thesis using wcmp_pattern_end [OF s(2,3) True, of cast "s' @ 0 # sp" pp] s by simp
    next
      case False
      then obtain x p' where p: "p = x # p'" "plim \<noteq> Some 0" "x \<noteq> 0" "0 \<notin> set p'" using less.prems(2) by (cases p) auto
      have sub: "\<not> sublist [42, 63] (x # lim_take (lim_dec plim) p')" using less.prems(3) p by simp
      show ?thesis
      proof (cases "x = 42")
        case True
        have "\<exists>r. wcmp cast slim (c # s' @ 0 # sp) plim (42 # p' @ 0 # pp) = Done r
          \<and> (r = 0 \<longleftrightarrow> wild C (lim_take slim (c # s')) (42 # lim_take (lim_dec plim) p'))"
        proof (rule wcmp_star_run [OF assms(1,2) s(2) p(2)])
          fix t q :: "u8 list" and slim' l
          assume "length t < Suc (length s')" "length q \<le> length p'" "0 \<notin> set t" "0 \<notin> set q" "\<not> sublist [42, 63] (lim_take l q)"
          then show "\<exists>r. wcmp cast slim' (t @ 0 # sp) l (q @ 0 # pp) = Done r
              \<and> (r = 0 \<longleftrightarrow> wild C (lim_take slim' t) (lim_take l q))"
            using s p by (intro less.hyps) auto
        qed (use s p sub True in auto)
        then show ?thesis using s p True by simp
      next
        case False
        have "\<exists>r. wcmp cast (lim_dec slim) (s' @ 0 # sp) (lim_dec plim) (p' @ 0 # pp) = Done r
          \<and> (r = 0 \<longleftrightarrow> wild C (lim_take (lim_dec slim) s') (lim_take (lim_dec plim) p'))"
          using s p sublist_tl [OF sub] by (intro less.hyps) auto
        then show ?thesis
          using wcmp_at_char [OF s(2,3) p(2,3) False, of cast "s' @ 0 # sp" "p' @ 0 # pp"] s p False assms(1) by auto
      qed
    qed
  qed
qed

text \<open>
  C11. The four wildcard comparisons return zero exactly if the text matches the pattern, where a star stands for any
  text and a question mark for any character, with or without regard to case and within the given bounds, for every
  pattern in which no question mark follows a star. For the other patterns they are wrong: the character
  behind the question mark is skipped (\<open>ab\<close> does not match \<open>*?b\<close>), or the terminator of the pattern is.
\<close>

theorem wildcards_match:
  fixes s p sp pp :: "u8 list"
  assumes "0 \<notin> set s" and "0 \<notin> set p" and "\<not> sublist [42, 63] p"
  shows "(\<exists>r. strwcmp (s @ 0 # sp) (p @ 0 # pp) = Done r \<and> (r = 0 \<longleftrightarrow> wild char_val s p))
    \<and> (\<exists>r. striwcmp (s @ 0 # sp) (p @ 0 # pp) = Done r \<and> (r = 0 \<longleftrightarrow> wild (\<lambda>c. tolower (char_val c)) s p))
    \<and> (\<exists>r. strnwcmp (s @ 0 # sp) m (p @ 0 # pp) n = Done r \<and> (r = 0 \<longleftrightarrow> wild char_val (take m s) (take n p)))
    \<and> (\<exists>r. strinwcmp (s @ 0 # sp) m (p @ 0 # pp) n = Done r
        \<and> (r = 0 \<longleftrightarrow> wild (\<lambda>c. tolower (char_val c)) (take m s) (take n p)))
    \<and> strwcmp [97, 98, 0] [42, 63, 98, 0] = Done 98 \<and> strwcmp [97, 98, 0] [42, 63, 0] = Fault"
proof -
  have "\<not> sublist [42, 63] (take n p)"
    using assms(3) unfolding sublist_def by (metis append.assoc append_take_drop_id)
  then have lim: "\<not> sublist [42, 63] (lim_take (Some n) p)" by (simp add: lim_take_def)
  have plain: "\<not> sublist [42, 63] (lim_take None p)" using assms(3) by simp
  note cased = wcmp_correct [where C = char_val and cast = "\<lambda>c. c", OF refl char_val_0_iff assms(1,2)]
  have low: "tolower (char_val c) = 0 \<longleftrightarrow> c = 0" for c by simp
  note caseless = wcmp_correct [where C = "\<lambda>c. tolower (char_val c)" and cast = tolower, OF refl low assms(1,2)]
  show ?thesis
  proof (intro conjI)
    show "\<exists>r. strwcmp (s @ 0 # sp) (p @ 0 # pp) = Done r \<and> (r = 0 \<longleftrightarrow> wild char_val s p)"
      using cased [OF plain, of None sp pp] by (simp add: strwcmp_def)
    show "\<exists>r. striwcmp (s @ 0 # sp) (p @ 0 # pp) = Done r \<and> (r = 0 \<longleftrightarrow> wild (\<lambda>c. tolower (char_val c)) s p)"
      using caseless [OF plain, of None sp pp] by (simp add: striwcmp_def)
    show "\<exists>r. strnwcmp (s @ 0 # sp) m (p @ 0 # pp) n = Done r \<and> (r = 0 \<longleftrightarrow> wild char_val (take m s) (take n p))"
      using cased [OF lim, of "Some m" sp pp] by (simp add: strnwcmp_def lim_take_def)
    show "\<exists>r. strinwcmp (s @ 0 # sp) m (p @ 0 # pp) n = Done r
        \<and> (r = 0 \<longleftrightarrow> wild (\<lambda>c. tolower (char_val c)) (take m s) (take n p))"
      using caseless [OF lim, of "Some m" sp pp] by (simp add: strinwcmp_def lim_take_def)
  qed (simp_all add: strwcmp_def wcmp.simps [of _ None "_ # _" None "_ # _"] wcmp.simps [of _ None _ None "[]"]
      lim_next_def char_val_def)
qed

theorem wildcards_match_witness:
  "(\<exists>r. strwcmp [97, 98, 99, 0] [42, 98, 63, 0] = Done r \<and> r = 0) \<and> (\<exists>r. strwcmp [97, 0] [98, 42, 0] = Done r \<and> r \<noteq> 0)"
  using wildcards_match [of "[97, 98, 99]" "[42, 98, 63]"] wildcards_match [of "[97]" "[98, 42]"]
  by (simp add: sublist_code char_val_def)

end
