(* ===== verification/Spec2Isabelle.thy ===== *)
theory Spec2Isabelle
  imports Refcount SyncConc Proc IOBuf AddrTree PageAlloc LibcNum LibcStrEdit LibcWild
begin

text \<open>
  A verification development for KOS, a 32-bit x86 kernel with its own C library. It models the synchronization
  primitives, the bookkeeping of processes, I/O buffers, address trees and the page frame allocator of the kernel,
  and the number, character, memory and string routines of the C library.

  \<^bold>\<open>How the parts interact.\<close> Kernel objects are reference counted (\<^verbatim>\<open>include/kos/kernel/object.h\<close>). Tasks wait on signals,
  and every lock of the kernel is a signal with some state beside it. A process guards its descriptors, its
  permissions, its environment and its threads with one multi-lock mutex; its descriptors hold references to kernel
  objects. Pipes and terminals keep their bytes in I/O buffers, which are guarded by a reader/writer lock. The memory
  mappings of a process are kept in an address tree; physical memory comes from the page frame allocator. The
  environment and the kernel command line use the string routines of the C library.

  \<^bold>\<open>Theories and sources\<close> (paths below \<^verbatim>\<open>src/\<close>).
  \<^item> \<open>Prelude\<close>: machine words, error codes (\<^verbatim>\<open>include/kos/errno.h\<close>), outcomes of a routine, shared lemmas.
  \<^item> \<open>Refcount\<close>: \<open>kobject_incref\<close>, \<open>kobject_tryincref\<close>, \<open>kobject_decref\<close> on a store of 32-bit counters.
  \<^item> \<open>Signal\<close>: \<^verbatim>\<open>src/kernel/sched/sync/signal.c.inl\<close>; the waiting tasks are a list, oldest first.
  \<^item> \<open>Locks\<close>: \<^verbatim>\<open>mutex.c.inl\<close>, \<^verbatim>\<open>mmutex.c.inl\<close>, \<^verbatim>\<open>sem.c.inl\<close> and \<^verbatim>\<open>closelock.c.inl\<close> of the same directory.
  \<^item> \<open>SyncConc\<close>: semaphore and mutex used by several tasks, as step relations over the operations of \<open>Locks\<close>.
  \<^item> \<open>RwLock\<close>: \<^verbatim>\<open>rwlock.c.inl\<close>, sequentially and as a step relation.
  \<^item> \<open>FdMan\<close>, \<open>FdOps\<close>: descriptor entries and tables (\<^verbatim>\<open>src/kernel/fd.c.inl\<close>, \<^verbatim>\<open>fdman.c\<close>) and what
    \<^verbatim>\<open>src/kernel/sched/proc-fdman.c.inl\<close> does to a table.
  \<^item> \<open>VarStore\<close>: the contract of a table of named values, provided by \<open>FdOps\<close> and \<open>ProcEnv\<close>.
  \<^item> \<open>ProcEnv\<close>, \<open>ProcPerm\<close>: environment (\<^verbatim>\<open>src/kernel/procenv.c\<close>) and permissions (\<^verbatim>\<open>procperm.c\<close>) of a process.
  \<^item> \<open>Proc\<close>: the operations of a process, which take its lock around the operations above, and the get, set and
    exchange calls of \<^verbatim>\<open>procperm-getset.c.inl\<close>.
  \<^item> \<open>IOBuf\<close>: \<^verbatim>\<open>src/kernel/iobuf.c\<close> with its two templates, on kernel memory.
  \<^item> \<open>AddrTree\<close>: \<^verbatim>\<open>include/kos/addrtree.h\<close> and its second instance \<^verbatim>\<open>src/kernel/shm-map.c.inl\<close>.
  \<^item> \<open>PageFrame\<close>, \<open>PageAlloc\<close>: \<^verbatim>\<open>src/kernel/pageframe.c\<close> and \<^verbatim>\<open>pageframe-alloc.c.inl\<close>; the first has the model and the
    lemmas on its list, the second the interface, its clients and the properties.
  \<^item> \<open>LibcNum\<close>, \<open>LibcChar\<close>, \<open>LibcMem\<close>, \<open>LibcString\<close>, \<open>LibcStrEdit\<close>, \<open>LibcWild\<close>: \<^verbatim>\<open>atoi.c\<close>, \<^verbatim>\<open>itos.impl.inl\<close>,
    \<^verbatim>\<open>ctype.c\<close>, \<^verbatim>\<open>string.c\<close> and \<^verbatim>\<open>string-wmatch.c.inl\<close> of \<^verbatim>\<open>libs/libc\<close>.

  \<^bold>\<open>How code becomes definitions.\<close> A structure is a record with the source's field names, and an operation takes and
  returns it. Integers keep their width wherever they can wrap. A routine that may not return on its own, or that may
  leave its memory, gives an \<open>outcome\<close>: \<open>Done\<close> with the result, \<open>Blocked\<close>, or \<open>Fault\<close>. Routines that sleep take a script
  of what other tasks do meanwhile. Whether an allocation succeeds, rescheduling a task and the build configuration
  are parameters. Links of the page frame list are an explicit store from pages to headers, because the code reads
  through one pointer what it wrote through another.

  \<^bold>\<open>What is proved.\<close>
  \<^item> Synchronization: mutual exclusion and exact reader counts in every interleaving; no wake-up of a semaphore is
    lost; a mutex can lose one; each lock, taken by itself, does what its contract says (locales \<open>lock_family\<close>, \<open>guard\<close>).
  \<^item> Processes: the descriptor table and the environment refine finite maps (locale \<open>var_store\<close>); references are counted
    exactly on every path, failures included; permissions are never widened, except through the log level.
  \<^item> Memory: an I/O buffer refines a bounded queue (\<open>byte_queue\<close>), the address tree a set of disjoint ranges
    (\<open>branch_insert\<close>, \<open>range_map\<close>), and the page allocator hands out disjoint blocks and loses no page (\<open>page_allocator\<close>).
  \<^item> C library: printing and reading numbers round trips; searches, tokens, copies and wildcards agree with
    declarative specifications.
  \<^item> Defects: where the code does not do what it means to, the theorem states what it does instead.

  \<^bold>\<open>Bounds and termination.\<close> No definition that models code has fuel; only \<open>strtok_all\<close>, the program that calls \<open>strtok\<close> again
  and again, does, and any fuel above the length of the string is enough, because each call takes a character. Loops over data are structural or have a measure; loops along
  links, and loops that may sleep again, are partial functions into \<open>option\<close>, in which not returning is \<open>None\<close>, and
  the theorems prove that they return, or for which arguments they do not. Pages have numbers below \<open>2 ^ 20\<close>, the size of the 32-bit address space, and
  page numbers are natural numbers: the theorems on the page allocator ask that a block ends within that bound, and
  within it the pointer arithmetic of the source does not wrap.

  \<^bold>\<open>Not modelled.\<close>
  \<^item> Paging, address spaces, fork, exec, the scheduler and context switches: they work on page tables, register
    states and assembly. \<open>kernel_initialize_raminfo\<close> belongs here; the part that registers memory is modelled.
  \<^item> Devices, interrupts, terminals, clocks, the system log: port and memory mapped I/O.
  \<^item> Files, file systems, the forwarding of descriptors to them and the linker: operations behind function
    pointers of objects and storage devices.
  \<^item> Signals with values, signal sets and data distribution: they copy into the buffer of a sleeping task or put a
    task into several wait queues, and a waiting task is only an entry of one queue here.
  \<^item> The process list, pipes, sockets, and the rest of the C library: they could be modelled in the style used here and
    are left out for their extent.
  \<^item> User programs and the third party code (\<^verbatim>\<open>dlmalloc.inl\<close>, \<^verbatim>\<open>libfdlibm\<close>).
  \<^item> Within the modelled parts: assertions, fill patterns and lock tracking of the debug build, log messages, and the
    instances for user memory, which differ in the copy routine.
\<close>

section \<open>The environment and the C library\<close>

text \<open>
  The environment reads texts with its own two helper notions; they are the C library's \<open>strnlen\<close> and \<open>isspace\<close>.
\<close>

lemma scan_cstr:
  "n \<le> length t \<Longrightarrow> scan (\<lambda>c. Done (c \<noteq> 0)) (Some n) t = Done (length (cstr t n))"
proof (induction t arbitrary: n)
  case (Cons c t)
  then show ?case by (cases n) (simp_all add: cstr_def lim_dec_def)
qed (simp add: cstr_def)

lemma strnlen_cstr: "n \<le> length t \<Longrightarrow> strnlen t n = Done (length (cstr t n))"
  by (simp add: strnlen_def scan_cstr)

lemma isspace_table: "list_all (\<lambda>ch. isspace ch = isspace_byte (to_char ch)) [-128..127]"
  by code_simp

lemma isspace_byte_isspace: "isspace_byte c = isspace (char_val c)"
proof -
  have "char_val c \<in> {-128..127}" using char_val_range [of c] by simp
  then show ?thesis using isspace_table unfolding list_all_iff set_upto by fastforce
qed

end
